(* ===== verification/Radar_Prelude.thy ===== *)
theory Radar_Prelude
  imports Main "HOL-Library.Word"
begin

text \<open>
  Shared ground of the RadarRT-DSP development: the types every component uses (time points,
  durations, counters), the decimal printing of integers that the log line, the diagnostics and
  the exception messages all go through, the truncating division of \<^verbatim>\<open>std::chrono::duration_cast\<close>,
  the counting lemmas for thread lists, and the locale of transition systems with an invariant
  that every state machine of the development interprets.
\<close>

section \<open>Names and types\<close>

named_theorems queue_simps \<open>equations of the sequential queue operations\<close>
named_theorems metrics_simps \<open>effect of the metrics operations on the counters\<close>
named_theorems step_defs \<open>definitions of the thread steps\<close>

text \<open>
  \<^verbatim>\<open>std::chrono::steady_clock\<close> counts nanoseconds in a signed 64-bit integer. Arithmetic on its
  time points is signed, so it does not wrap (an overflow is undefined behaviour; \<open>Time_Width\<close> shows
  the bounds within which there is none): time points and durations are integers. The counters are
  \<^verbatim>\<open>std::uint64_t\<close> atomics, which do wrap, and stay words.
\<close>

type_synonym time_point = int
type_synonym duration = int
type_synonym u64 = "64 word"
type_synonym thread_id = nat

section \<open>Integer division towards zero\<close>

definition tdiv :: "int \<Rightarrow> int \<Rightarrow> int" where
  "tdiv a b = (if (0 \<le> a) = (0 \<le> b) then \<bar>a\<bar> div \<bar>b\<bar> else - (\<bar>a\<bar> div \<bar>b\<bar>))"

definition ns_per_us :: int where "ns_per_us = 1000"
definition ns_per_ms :: int where "ns_per_ms = 1000000"

text \<open>Conversions to the coarser units truncate; conversions to nanoseconds are exact.\<close>

definition to_us :: "duration \<Rightarrow> int" where "to_us d = tdiv d ns_per_us"
definition to_ms :: "duration \<Rightarrow> int" where "to_ms d = tdiv d ns_per_ms"
definition of_us :: "int \<Rightarrow> duration" where "of_us u = u * ns_per_us"
definition of_ms :: "int \<Rightarrow> duration" where "of_ms m = m * ns_per_ms"

section \<open>Decimal printing of integers\<close>

definition digit_char :: "nat \<Rightarrow> char" where
  "digit_char d = char_of (48 + d)"

fun string_of_nat :: "nat \<Rightarrow> string" where
  "string_of_nat n =
     (if n < 10 then [digit_char n] else string_of_nat (n div 10) @ [digit_char (n mod 10)])"

declare string_of_nat.simps [simp del]

definition string_of_int :: "int \<Rightarrow> string" where
  "string_of_int i =
     (if i < 0 then CHR ''-'' # string_of_nat (nat (- i)) else string_of_nat (nat i))"

text \<open>The reader used to state that printing loses nothing.\<close>

definition digit_val :: "char \<Rightarrow> nat" where
  "digit_val c = of_char c - 48"

definition nat_of_string :: "string \<Rightarrow> nat" where
  "nat_of_string s = foldl (\<lambda>a c. 10 * a + digit_val c) 0 s"

definition int_of_string :: "string \<Rightarrow> int" where
  "int_of_string s =
     (case s of [] \<Rightarrow> 0
      | c # cs \<Rightarrow> if c = CHR ''-'' then - int (nat_of_string cs) else int (nat_of_string s))"

definition is_digit :: "char \<Rightarrow> bool" where
  "is_digit c \<longleftrightarrow> 48 \<le> (of_char c :: nat) \<and> (of_char c :: nat) \<le> 57"

section \<open>Transition systems with an invariant\<close>

inductive reaches :: "('s \<Rightarrow> bool) \<Rightarrow> ('s \<Rightarrow> 's \<Rightarrow> bool) \<Rightarrow> 's \<Rightarrow> bool"
  for init :: "'s \<Rightarrow> bool" and step :: "'s \<Rightarrow> 's \<Rightarrow> bool" where
  reaches_init: "init s \<Longrightarrow> reaches init step s"
| reaches_step: "reaches init step s \<Longrightarrow> step s t \<Longrightarrow> reaches init step t"

locale invariant_system =
  fixes init :: "'s \<Rightarrow> bool"
    and step :: "'s \<Rightarrow> 's \<Rightarrow> bool"
    and invar :: "'s \<Rightarrow> bool"
  assumes invar_init: "init s \<Longrightarrow> invar s"
    and invar_step: "step s t \<Longrightarrow> invar s \<Longrightarrow> invar t"
begin

lemma reaches_invar: "reaches init step s \<Longrightarrow> invar s"
  by (induction rule: reaches.induct) (auto intro: invar_init invar_step)

end

section \<open>Lemmas on division and printing\<close>

lemma tdiv_nonneg: "0 \<le> a \<Longrightarrow> 0 < b \<Longrightarrow> tdiv a b = a div b"
  by (simp add: tdiv_def)

lemma tdiv_neg: "a < 0 \<Longrightarrow> 0 < b \<Longrightarrow> tdiv a b = - (- a div b)"
  by (simp add: tdiv_def)

lemma of_us_to_us [simp]: "to_us (of_us u) = u"
  by (auto simp: to_us_def of_us_def tdiv_def ns_per_us_def)

lemma of_ms_to_ms [simp]: "to_ms (of_ms m) = m"
  by (auto simp: to_ms_def of_ms_def tdiv_def ns_per_ms_def)

lemma digit_val_char [simp]: "d < 10 \<Longrightarrow> digit_val (digit_char d) = d"
  by (simp add: digit_val_def digit_char_def of_char_of)

lemma is_digit_char [simp]: "d < 10 \<Longrightarrow> is_digit (digit_char d)"
  by (simp add: is_digit_def digit_char_def of_char_of)

lemma string_of_nat_nonempty [simp]: "string_of_nat n \<noteq> []"
  by (subst string_of_nat.simps) simp

lemma string_of_nat_digits: "list_all is_digit (string_of_nat n)"
proof (induction n rule: string_of_nat.induct)
  case (1 n)
  then show ?case
    by (cases "n < 10") (simp_all add: string_of_nat.simps [of n])
qed

lemma nat_of_string_snoc [simp]: "nat_of_string (s @ [c]) = 10 * nat_of_string s + digit_val c"
  by (simp add: nat_of_string_def)

lemma nat_of_string_of_nat [simp]: "nat_of_string (string_of_nat n) = n"
proof (induction n rule: string_of_nat.induct)
  case (1 n)
  show ?case
  proof (cases "n < 10")
    case True
    then show ?thesis by (simp add: string_of_nat.simps [of n] nat_of_string_def)
  next
    case False
    with 1 show ?thesis by (simp add: string_of_nat.simps [of n])
  qed
qed

lemma hd_string_of_nat: "hd (string_of_nat n) \<noteq> CHR ''-''"
proof -
  obtain c cs where "string_of_nat n = c # cs"
    using string_of_nat_nonempty [of n] by (cases "string_of_nat n") auto
  moreover from this have "is_digit c"
    using string_of_nat_digits [of n] by simp
  ultimately show ?thesis by (auto simp: is_digit_def)
qed

lemma int_of_string_of_int [simp]: "int_of_string (string_of_int i) = i"
proof (cases "i < 0")
  case True
  then show ?thesis by (simp add: string_of_int_def int_of_string_def)
next
  case False
  then show ?thesis
    using hd_string_of_nat [of "nat i"] string_of_nat_nonempty [of "nat i"]
      nat_of_string_of_nat [of "nat i"]
    by (cases "string_of_nat (nat i)") (auto simp: string_of_int_def int_of_string_def)
qed

lemma string_of_int_inject [simp]: "string_of_int i = string_of_int j \<longleftrightarrow> i = j"
  by (metis int_of_string_of_int)

lemma string_of_int_chars: "c \<in> set (string_of_int i) \<Longrightarrow> is_digit c \<or> c = CHR ''-''"
  using string_of_nat_digits [of "nat i"] string_of_nat_digits [of "nat (- i)"]
  by (auto simp: string_of_int_def list_all_iff split: if_splits)

section \<open>Counting threads\<close>

definition number_of :: "('a \<Rightarrow> bool) \<Rightarrow> 'a list \<Rightarrow> nat" where
  "number_of P xs = length (filter P xs)"

lemma number_of_update:
  assumes "i < length xs"
  shows "number_of P (xs[i := x]) + (if P (xs ! i) then 1 else 0) =
    number_of P xs + (if P x then 1 else 0)"
  using assms
proof (induction xs arbitrary: i)
  case Nil
  then show ?case by simp
next
  case (Cons y ys)
  show ?case
  proof (cases i)
    case 0
    then show ?thesis by (simp add: number_of_def)
  next
    case (Suc j)
    with Cons.prems have "j < length ys" by simp
    from Cons.IH [OF this] Suc show ?thesis by (auto simp: number_of_def split: if_splits)
  qed
qed

lemma number_of_zero_iff: "number_of P xs = 0 \<longleftrightarrow> (\<forall>i < length xs. \<not> P (xs ! i))"
  by (auto simp: number_of_def filter_empty_conv all_set_conv_all_nth)

lemma number_of_pos: "i < length xs \<Longrightarrow> P (xs ! i) \<Longrightarrow> 0 < number_of P xs"
  using number_of_zero_iff [of P xs] by auto

lemma number_of_le_length: "number_of P xs \<le> length xs"
  by (simp add: number_of_def)

end
