(* ===== verification/Thread_Safe_Queue.thy ===== *)
theory Thread_Safe_Queue
  imports Radar_Prelude
begin

text \<open>
  The bounded queue of \<^verbatim>\<open>include/radar/thread_safe_queue.hpp\<close>, at the level of its critical
  sections: each member function is one function on the protected state, executed while the lock
  is held. A member function that waits on a condition variable returns \<open>Waits\<close> in exactly the
  states in which its wait predicate is false; the wake-ups themselves are the subject of theory
  \<open>Queue_Concurrency\<close>. Values of \<^verbatim>\<open>std::size_t\<close> are natural numbers, the drop counter is a
  64-bit word.
\<close>

section \<open>State and operations\<close>

datatype OverflowPolicy = Block | DropNewest | DropOldest

record 'a tsq =
  q_queue :: "'a list"
  q_capacity :: nat
  q_policy :: OverflowPolicy
  q_droppedCount :: u64
  q_closed :: bool

datatype queue_error = InvalidArgument string

datatype 'r outcome = Waits | Returns 'r

definition ThreadSafeQueue :: "nat \<Rightarrow> OverflowPolicy \<Rightarrow> queue_error + 'a tsq" where
  "ThreadSafeQueue capacity policy =
     (if capacity = 0
      then Inl (InvalidArgument ''ThreadSafeQueue capacity must be greater than zero'')
      else Inr \<lparr>q_queue = [], q_capacity = capacity, q_policy = policy,
                q_droppedCount = 0, q_closed = False\<rparr>)"

definition full :: "'a tsq \<Rightarrow> bool" where
  "full q \<longleftrightarrow> q_capacity q \<le> length (q_queue q)"

text \<open>The drop counter is bumped by a \<^verbatim>\<open>fetch_add\<close> on an unsigned atomic: it wraps.\<close>

definition countDrop :: "'a tsq \<Rightarrow> 'a tsq" where
  "countDrop q = q\<lparr>q_droppedCount := q_droppedCount q + 1\<rparr>"

definition enqueueLocked :: "'a \<Rightarrow> 'a tsq \<Rightarrow> bool \<times> 'a tsq" where
  "enqueueLocked v q =
     (if q_closed q then (False, q)
      else if full q then
        (if q_policy q = DropOldest
         then (let q1 = countDrop (q\<lparr>q_queue := tl (q_queue q)\<rparr>)
               in (True, q1\<lparr>q_queue := q_queue q1 @ [v]\<rparr>))
         else (False, countDrop q))
      else (True, q\<lparr>q_queue := q_queue q @ [v]\<rparr>))"

definition push :: "'a \<Rightarrow> 'a tsq \<Rightarrow> (bool \<times> 'a tsq) outcome" where
  "push v q =
     (if q_policy q = Block \<and> \<not> (\<not> full q \<or> q_closed q) then Waits
      else Returns (enqueueLocked v q))"

definition tryPush :: "'a \<Rightarrow> 'a tsq \<Rightarrow> bool \<times> 'a tsq" where
  "tryPush v q = enqueueLocked v q"

text \<open>Precondition, as in the source: the queue is not empty.\<close>

definition popLockedAndNotify :: "'a tsq \<Rightarrow> 'a option \<times> 'a tsq" where
  "popLockedAndNotify q = (Some (hd (q_queue q)), q\<lparr>q_queue := tl (q_queue q)\<rparr>)"

definition waitAndPop :: "'a tsq \<Rightarrow> ('a option \<times> 'a tsq) outcome" where
  "waitAndPop q =
     (if \<not> (q_queue q \<noteq> [] \<or> q_closed q) then Waits
      else if q_queue q = [] then Returns (None, q)
      else Returns (popLockedAndNotify q))"

definition tryPop :: "'a tsq \<Rightarrow> 'a option \<times> 'a tsq" where
  "tryPop q = (if q_queue q = [] then (None, q) else popLockedAndNotify q)"

definition close :: "'a tsq \<Rightarrow> 'a tsq" where
  "close q = q\<lparr>q_closed := True\<rparr>"

definition waitUntilEmpty :: "'a tsq \<Rightarrow> unit outcome" where
  "waitUntilEmpty q = (if q_queue q = [] then Returns () else Waits)"

definition size_tsq :: "'a tsq \<Rightarrow> nat" where
  "size_tsq q = length (q_queue q)"

definition droppedCount :: "'a tsq \<Rightarrow> u64" where
  "droppedCount q = q_droppedCount q"

section \<open>Histories of calls\<close>

text \<open>
  A history is the list of calls in the order in which they took the lock, with their results.
  A call that has to wait cannot take its turn at that point of the order, so it ends the run
  with \<open>None\<close>.
\<close>

datatype 'a qop = Push 'a | TryPush 'a | WaitAndPop | TryPop | Close

datatype 'a qres = Stored bool | Got "'a option" | Done

fun exec_op :: "'a qop \<Rightarrow> 'a tsq \<Rightarrow> ('a qres \<times> 'a tsq) outcome" where
  "exec_op (Push v) q =
     (case push v q of Waits \<Rightarrow> Waits | Returns (b, q') \<Rightarrow> Returns (Stored b, q'))"
| "exec_op (TryPush v) q = (case tryPush v q of (b, q') \<Rightarrow> Returns (Stored b, q'))"
| "exec_op WaitAndPop q =
     (case waitAndPop q of Waits \<Rightarrow> Waits | Returns (r, q') \<Rightarrow> Returns (Got r, q'))"
| "exec_op TryPop q = (case tryPop q of (r, q') \<Rightarrow> Returns (Got r, q'))"
| "exec_op Close q = Returns (Done, close q)"

fun run_ops :: "'a qop list \<Rightarrow> 'a tsq \<Rightarrow> (('a qop \<times> 'a qres) list \<times> 'a tsq) option" where
  "run_ops [] q = Some ([], q)"
| "run_ops (x # xs) q =
     (case exec_op x q of
        Waits \<Rightarrow> None
      | Returns (r, q') \<Rightarrow>
          (case run_ops xs q' of None \<Rightarrow> None | Some (tr, q'') \<Rightarrow> Some ((x, r) # tr, q'')))"

fun accepted :: "('a qop \<times> 'a qres) list \<Rightarrow> 'a list" where
  "accepted [] = []"
| "accepted ((Push v, Stored True) # tr) = v # accepted tr"
| "accepted ((TryPush v, Stored True) # tr) = v # accepted tr"
| "accepted (_ # tr) = accepted tr"

fun delivered :: "('a qop \<times> 'a qres) list \<Rightarrow> 'a list" where
  "delivered [] = []"
| "delivered ((_, Got (Some v)) # tr) = v # delivered tr"
| "delivered (_ # tr) = delivered tr"

text \<open>Calls that found the queue open and still stored nothing: the rejections on overflow.\<close>

fun rejected :: "bool \<Rightarrow> ('a qop \<times> 'a qres) list \<Rightarrow> nat" where
  "rejected c [] = 0"
| "rejected c ((Close, _) # tr) = rejected True tr"
| "rejected c ((_, Stored False) # tr) = (if c then 0 else 1) + rejected c tr"
| "rejected c (_ # tr) = rejected c tr"

section \<open>The consumer loop\<close>

text \<open>
  Both consumers of the program (\<^verbatim>\<open>ThreadPool::workerLoop\<close> and \<^verbatim>\<open>Logger::drainLoop\<close>) have the
  shape: pop, leave on end-of-stream, otherwise run a body on the item. The fuel bounds the number
  of pops; \<open>None\<close> is a loop that is still waiting or still running.
\<close>

fun consume :: "nat \<Rightarrow> ('q \<Rightarrow> ('a option \<times> 'q) outcome) \<Rightarrow> ('a \<Rightarrow> 'q \<Rightarrow> 's \<Rightarrow> 's) \<Rightarrow> 'q \<Rightarrow> 's
    \<Rightarrow> ('q \<times> 's) option" where
  "consume 0 pop body q s = None"
| "consume (Suc fuel) pop body q s =
     (case pop q of
        Waits \<Rightarrow> None
      | Returns (None, q') \<Rightarrow> Some (q', s)
      | Returns (Some x, q') \<Rightarrow> consume fuel pop body q' (body x q' s))"

text \<open>What the loop amounts to when the source is closed: the body on every item, in order, each
  time with the source as the pop left it.\<close>

fun bodies :: "('a list \<Rightarrow> 'q \<Rightarrow> 'q) \<Rightarrow> ('a \<Rightarrow> 'q \<Rightarrow> 's \<Rightarrow> 's) \<Rightarrow> 'a list \<Rightarrow> 'q \<Rightarrow> 's \<Rightarrow> 's" where
  "bodies rest body [] q s = s"
| "bodies rest body (x # xs) q s = bodies rest body xs q (body x (rest xs q) s)"

section \<open>The interface the consumers rely on\<close>

locale closable_source =
  fixes items :: "'q \<Rightarrow> 'a list"
    and closed :: "'q \<Rightarrow> bool"
    and pop :: "'q \<Rightarrow> ('a option \<times> 'q) outcome"
    and shut :: "'q \<Rightarrow> 'q"
    and with_items :: "'a list \<Rightarrow> 'q \<Rightarrow> 'q"
  assumes pop_item: "items q = x # xs \<Longrightarrow> pop q = Returns (Some x, with_items xs q)"
    and pop_end: "items q = [] \<Longrightarrow> closed q \<Longrightarrow> pop q = Returns (None, q)"
    and pop_waits: "items q = [] \<Longrightarrow> \<not> closed q \<Longrightarrow> pop q = Waits"
    and items_with [simp]: "items (with_items xs q) = xs"
    and closed_with [simp]: "closed (with_items xs q) = closed q"
    and with_with [simp]: "with_items xs (with_items ys q) = with_items xs q"
    and with_same [simp]: "with_items (items q) q = q"
    and items_shut [simp]: "items (shut q) = items q"
    and closed_shut [simp]: "closed (shut q)"
begin

text \<open>
  A closed queue is drained completely and in order: one pop per buffered item and one more that
  sees end-of-stream. This is the loop's termination and its functional result.
\<close>

lemma consume_closed:
  assumes "closed q" and "length (items q) < fuel"
  shows "consume fuel pop body q s = Some (with_items [] q, bodies with_items body (items q) q s)"
  using assms
proof (induction fuel arbitrary: q s)
  case 0
  then show ?case by simp
next
  case (Suc fuel)
  show ?case
  proof (cases "items q")
    case Nil
    then have "with_items [] q = q" using with_same [of q] by simp
    with Nil Suc.prems show ?thesis by (simp add: pop_end)
  next
    case (Cons x xs)
    have same: "bodies with_items body ys (with_items zs q) t = bodies with_items body ys q t" for ys zs t
      by (induction ys arbitrary: t) simp_all
    from Cons Suc.prems Suc.IH [of "with_items xs q" "body x (with_items xs q) s"]
    show ?thesis by (simp add: pop_item same)
  qed
qed

lemma consume_open_waits:
  assumes "\<not> closed q"
  shows "consume fuel pop body q s = None"
  using assms
proof (induction fuel arbitrary: q s)
  case 0
  then show ?case by simp
next
  case (Suc fuel)
  then show ?case
    by (cases "items q") (simp_all add: pop_waits pop_item)
qed

end
section \<open>Well-formed queues\<close>

definition wf_tsq :: "'a tsq \<Rightarrow> bool" where
  "wf_tsq q \<longleftrightarrow> 0 < q_capacity q \<and> length (q_queue q) \<le> q_capacity q"

lemmas tsq_op_defs = push_def tryPush_def enqueueLocked_def countDrop_def waitAndPop_def tryPop_def
  popLockedAndNotify_def close_def

lemma new_queue [queue_simps]:
  assumes "ThreadSafeQueue c p = Inr q"
  shows "q_queue q = []" and "q_capacity q = c" and "q_policy q = p" and "q_droppedCount q = 0"
    and "\<not> q_closed q" and "0 < c" and "wf_tsq q"
  using assms by (auto simp: ThreadSafeQueue_def wf_tsq_def split: if_splits)

lemma full_wf: "wf_tsq q \<Longrightarrow> full q \<longleftrightarrow> length (q_queue q) = q_capacity q"
  by (auto simp: full_def wf_tsq_def)

lemma full_nonempty: "wf_tsq q \<Longrightarrow> full q \<Longrightarrow> q_queue q \<noteq> []"
  by (auto simp: full_def wf_tsq_def)

lemma enqueueLocked_closed [simp]: "q_closed q \<Longrightarrow> enqueueLocked v q = (False, q)"
  by (simp add: enqueueLocked_def)

lemma enqueueLocked_room [simp]:
  "\<not> q_closed q \<Longrightarrow> \<not> full q \<Longrightarrow> enqueueLocked v q = (True, q\<lparr>q_queue := q_queue q @ [v]\<rparr>)"
  by (simp add: enqueueLocked_def)

lemma enqueueLocked_evict [simp]:
  "\<not> q_closed q \<Longrightarrow> full q \<Longrightarrow> q_policy q = DropOldest \<Longrightarrow> enqueueLocked v q =
     (True, q\<lparr>q_queue := tl (q_queue q) @ [v], q_droppedCount := q_droppedCount q + 1\<rparr>)"
  by (simp add: enqueueLocked_def countDrop_def)

lemma enqueueLocked_reject [simp]:
  "\<not> q_closed q \<Longrightarrow> full q \<Longrightarrow> q_policy q \<noteq> DropOldest \<Longrightarrow> enqueueLocked v q = (False, countDrop q)"
  by (simp add: enqueueLocked_def)

lemma exec_op_frame:
  assumes "exec_op x q = Returns (r, q')"
  shows "q_capacity q' = q_capacity q" and "q_policy q' = q_policy q"
    and "q_closed q' \<longleftrightarrow> q_closed q \<or> x = Close"
  using assms
  by (cases x; auto simp: tsq_op_defs Let_def split: if_splits outcome.splits prod.splits)+

lemma exec_op_wf:
  assumes "exec_op x q = Returns (r, q')" and "wf_tsq q"
  shows "wf_tsq q'"
  using assms
  by (cases x; auto simp: tsq_op_defs wf_tsq_def full_def Let_def split: if_splits outcome.splits prod.splits)

section \<open>Nothing lost, nothing duplicated, nothing reordered\<close>

lemma accepted_Cons: "accepted (c # tr) = accepted [c] @ accepted tr"
  by (cases "(c # tr)" rule: accepted.cases) auto

lemma delivered_Cons: "delivered (c # tr) = delivered [c] @ delivered tr"
  by (cases "(c # tr)" rule: delivered.cases) auto

lemma rejected_Cons:
  "rejected c ((x, r) # tr) = rejected c [(x, r)] + rejected (c \<or> x = Close) tr"
  by (cases "(c, (x, r) # tr)" rule: rejected.cases) auto

text \<open>One call, as a change of the buffered list: at most one item leaves at the front, either to
  the caller or evicted, and the drop counter counts evictions and rejections.\<close>

lemma exec_op_effect:
  assumes "exec_op x q = Returns (r, q')" and "wf_tsq q"
  obtains ev where
    "q_queue q @ accepted [(x, r)] = delivered [(x, r)] @ ev @ q_queue q'"
    and "length (delivered [(x, r)] @ ev) \<le> 1"
    and "q_policy q \<noteq> DropOldest \<longrightarrow> ev = []"
    and "q_droppedCount q' = q_droppedCount q + of_nat (length ev + rejected (q_closed q) [(x, r)])"
proof (cases "\<exists>v. (x = Push v \<or> x = TryPush v) \<and> \<not> q_closed q \<and> full q \<and> q_policy q = DropOldest")
  case True
  then obtain v where x: "x = Push v \<or> x = TryPush v"
    and st: "\<not> q_closed q" "full q" "q_policy q = DropOldest" by blast
  then have "q_queue q = hd (q_queue q) # tl (q_queue q)"
    using full_nonempty [OF assms(2)] by simp
  moreover have "r = Stored True" and "q_queue q' = tl (q_queue q) @ [v]"
    and "q_droppedCount q' = q_droppedCount q + 1"
    using assms(1) x st by (auto simp: push_def tryPush_def)
  ultimately show thesis
    using x st by (intro that [of "[hd (q_queue q)]"]) auto
next
  case False
  show thesis
  proof (rule that [of "[]"])
    show "q_queue q @ accepted [(x, r)] = delivered [(x, r)] @ [] @ q_queue q'"
      using assms(1) False
      by (cases x) (auto simp: tsq_op_defs Let_def split: if_splits outcome.splits prod.splits)
    show "length (delivered [(x, r)] @ []) \<le> 1"
      by (cases "[(x, r)]" rule: delivered.cases) auto
    show "q_droppedCount q' =
      q_droppedCount q + of_nat (length [] + rejected (q_closed q) [(x, r)])"
      using assms(1) False
      by (cases x) (auto simp: tsq_op_defs Let_def split: if_splits outcome.splits prod.splits)
  qed simp
qed

lemma run_ops_Cons:
  assumes "run_ops (x # xs) q = Some (tr, q'')"
  obtains r q' tr' where "exec_op x q = Returns (r, q')" and "run_ops xs q' = Some (tr', q'')"
    and "tr = (x, r) # tr'"
  using assms by (auto split: outcome.splits prod.splits option.splits)

lemma shuffles_front:
  assumes "zs \<in> shuffles xs ys" and "length (ds @ es) \<le> 1"
  shows "ds @ es @ zs \<in> shuffles (ds @ xs) (es @ ys)"
  using assms
  by (cases ds; cases es) (auto intro: Cons_in_shuffles_leftI Cons_in_shuffles_rightI)

lemma run_ops_history:
  assumes "run_ops ops q = Some (tr, q')" and "wf_tsq q"
  shows "\<exists>removed evicted. q_queue q @ accepted tr = removed @ q_queue q'
    \<and> removed \<in> shuffles (delivered tr) evicted
    \<and> (q_policy q \<noteq> DropOldest \<longrightarrow> evicted = [])
    \<and> q_droppedCount q' = q_droppedCount q + of_nat (length evicted + rejected (q_closed q) tr)"
  using assms
proof (induction ops arbitrary: q tr)
  case Nil
  then show ?case by (intro exI [of _ "[]"]) auto
next
  case (Cons x xs)
  from Cons.prems(1) obtain r q1 tr' where x: "exec_op x q = Returns (r, q1)"
    and xs: "run_ops xs q1 = Some (tr', q')" and tr: "tr = (x, r) # tr'"
    by (rule run_ops_Cons)
  from x Cons.prems(2) obtain ev where ev:
    "q_queue q @ accepted [(x, r)] = delivered [(x, r)] @ ev @ q_queue q1"
    "length (delivered [(x, r)] @ ev) \<le> 1" "q_policy q \<noteq> DropOldest \<longrightarrow> ev = []"
    "q_droppedCount q1 = q_droppedCount q + of_nat (length ev + rejected (q_closed q) [(x, r)])"
    by (rule exec_op_effect)
  note frame = exec_op_frame [OF x]
  from Cons.IH [OF xs exec_op_wf [OF x Cons.prems(2)]] obtain removed evicted where IH:
    "q_queue q1 @ accepted tr' = removed @ q_queue q'"
    "removed \<in> shuffles (delivered tr') evicted" "q_policy q1 \<noteq> DropOldest \<longrightarrow> evicted = []"
    "q_droppedCount q' = q_droppedCount q1 + of_nat (length evicted + rejected (q_closed q1) tr')"
    by blast
  have "q_queue q @ accepted tr = (delivered [(x, r)] @ ev @ removed) @ q_queue q'"
    using ev(1) IH(1) tr accepted_Cons [of "(x, r)" tr']
    by (metis append.assoc)
  moreover have "delivered [(x, r)] @ ev @ removed \<in> shuffles (delivered tr) (ev @ evicted)"
    using shuffles_front [OF IH(2) ev(2)] tr delivered_Cons [of "(x, r)" tr'] by simp
  moreover have "q_droppedCount q' =
    q_droppedCount q + of_nat (length (ev @ evicted) + rejected (q_closed q) tr)"
    using ev(4) IH(4) tr rejected_Cons [of "q_closed q" x r tr'] frame(3)
    by (simp add: algebra_simps)
  moreover have "q_policy q \<noteq> DropOldest \<longrightarrow> ev @ evicted = []"
    using ev(3) IH(3) frame(2) by auto
  ultimately show ?case by blast
qed

section \<open>The queue provides the consumers' interface\<close>

abbreviation with_queue :: "'a list \<Rightarrow> 'a tsq \<Rightarrow> 'a tsq" where
  "with_queue xs q \<equiv> q\<lparr>q_queue := xs\<rparr>"

interpretation tsq_source: closable_source q_queue q_closed waitAndPop close with_queue
  by unfold_locales (auto simp: waitAndPop_def popLockedAndNotify_def close_def)

section \<open>Properties\<close>

lemma run_ops_wf: "run_ops ops q = Some (tr, q') \<Longrightarrow> wf_tsq q \<Longrightarrow> wf_tsq q'"
proof (induction ops arbitrary: q tr)
  case (Cons x xs)
  from Cons.prems(1) show ?case
    by (rule run_ops_Cons) (use Cons.prems(2) in \<open>blast intro: Cons.IH exec_op_wf\<close>)
qed simp

lemma run_ops_frame:
  "run_ops ops q = Some (tr, q') \<Longrightarrow> q_capacity q' = q_capacity q \<and> q_policy q' = q_policy q"
proof (induction ops arbitrary: q tr)
  case (Cons x xs)
  from Cons.prems obtain r q1 tr' where x: "exec_op x q = Returns (r, q1)"
    and xs: "run_ops xs q1 = Some (tr', q')"
    by (rule run_ops_Cons)
  show ?case using Cons.IH [OF xs] exec_op_frame [OF x] by simp
qed simp

lemma run_ops_snoc:
  "run_ops xs q0 = Some (tr, q) \<Longrightarrow> exec_op x q = Returns (r, q') \<Longrightarrow>
    run_ops (xs @ [x]) q0 = Some (tr @ [(x, r)], q')"
proof (induction xs arbitrary: q0 tr)
  case (Cons y ys)
  from Cons.prems(1) obtain r1 q1 tr' where "exec_op y q0 = Returns (r1, q1)"
    and ys: "run_ops ys q1 = Some (tr', q)" and "tr = (y, r1) # tr'"
    by (rule run_ops_Cons)
  with Cons.IH [OF ys Cons.prems(2)] show ?case by simp
qed simp

text \<open>C16: In every history of calls on a new queue, the values that were stored are exactly those
  taken out followed by those still buffered, in the order in which they were stored: nothing is
  lost, duplicated or reordered. What was taken out is a merge of the values delivered to callers
  and of the values evicted; only a DropOldest queue evicts; the drop counter is the number of
  evictions plus the number of rejections on an open queue, modulo 2^64; and the buffer never
  exceeds the capacity.\<close>

theorem queue_history:
  assumes "ThreadSafeQueue c p = Inr q0" and "run_ops ops q0 = Some (tr, q)"
  shows "\<exists>removed evicted. accepted tr = removed @ q_queue q
    \<and> removed \<in> shuffles (delivered tr) evicted
    \<and> (p \<noteq> DropOldest \<longrightarrow> evicted = [])
    \<and> droppedCount q = of_nat (length evicted + rejected False tr)
    \<and> size_tsq q \<le> c"
proof -
  note new = new_queue [OF assms(1)]
  have "size_tsq q \<le> c"
    using run_ops_wf [OF assms(2) new(7)] run_ops_frame [OF assms(2)] new(2)
    by (simp add: wf_tsq_def size_tsq_def)
  with run_ops_history [OF assms(2) new(7)] new show ?thesis
    by (auto simp: droppedCount_def)
qed

text \<open>three pushes and a pop on a DropOldest queue of capacity 2.\<close>

theorem queue_history_witness:
  "\<exists>q. run_ops [Push 1, Push 2, Push 3, WaitAndPop]
      \<lparr>q_queue = [], q_capacity = 2, q_policy = DropOldest, q_droppedCount = 0, q_closed = False\<rparr>
      = Some ([(Push 1, Stored True), (Push 2, Stored True), (Push 3, Stored True),
               (WaitAndPop, Got (Some (2::nat)))], q)
    \<and> q_queue q = [3] \<and> droppedCount q = 1
    \<and> (\<exists>removed evicted. [1, 2, 3] = removed @ q_queue q \<and> removed \<in> shuffles [2] evicted)"
proof -
  let ?start = "\<lparr>q_queue = [], q_capacity = 2, q_policy = DropOldest, q_droppedCount = 0,
    q_closed = False\<rparr> :: nat tsq"
  let ?tr = "[(Push 1, Stored True), (Push 2, Stored True), (Push 3, Stored True),
    (WaitAndPop, Got (Some (2::nat)))]"
  let ?final = "?start\<lparr>q_queue := [3], q_droppedCount := 1\<rparr>"
  have new: "ThreadSafeQueue 2 DropOldest = Inr ?start"
    by (simp add: ThreadSafeQueue_def)
  have run: "run_ops [Push 1, Push 2, Push 3, WaitAndPop] ?start = Some (?tr, ?final)"
    by (simp add: tsq_op_defs full_def Let_def)
  from queue_history [OF new run] run show ?thesis
    by (intro exI [of _ ?final]) (auto simp: droppedCount_def)
qed

text \<open>
  The policies, one by one. A Block queue whose clients only use the waiting \<^verbatim>\<open>push\<close> (as the
  producer does) never drops anything: no overflow rejection, no eviction.
\<close>

lemma push_only_no_rejection:
  assumes "run_ops ops q = Some (tr, q')" and "q_policy q = Block" and "\<forall>v. TryPush v \<notin> set ops"
  shows "rejected (q_closed q) tr = 0"
  using assms
proof (induction ops arbitrary: q tr)
  case (Cons x xs)
  from Cons.prems(1) obtain r q1 tr' where x: "exec_op x q = Returns (r, q1)"
    and xs: "run_ops xs q1 = Some (tr', q')" and tr: "tr = (x, r) # tr'"
    by (rule run_ops_Cons)
  note frame = exec_op_frame [OF x]
  from Cons.IH [OF xs] Cons.prems(2,3) frame(2) have "rejected (q_closed q1) tr' = 0" by simp
  moreover have "rejected (q_closed q) [(x, r)] = 0"
    using x Cons.prems(2,3)
    by (cases x) (auto simp: tsq_op_defs Let_def split: if_splits outcome.splits prod.splits)
  ultimately show ?case
    using tr frame(3) rejected_Cons [of "q_closed q" x r tr'] by simp
qed simp

text \<open>Backpressure without loss. On a Block queue used through push, waitAndPop, tryPop and
  close, every stored value is delivered in order or still buffered, and the drop counter stays
  at zero.\<close>

lemma block_queue_never_drops:
  assumes "ThreadSafeQueue c Block = Inr q0" and "run_ops ops q0 = Some (tr, q)"
    and "\<forall>v. TryPush v \<notin> set ops"
  shows "accepted tr = delivered tr @ q_queue q \<and> droppedCount q = 0"
proof -
  note new = new_queue [OF assms(1)]
  have "rejected False tr = 0"
    using push_only_no_rejection [OF assms(2) _ assms(3)] new by simp
  with run_ops_history [OF assms(2) new(7)] new show ?thesis
    by (auto simp: droppedCount_def)
qed

lemma block_queue_never_drops_example:
  "let tr = [(Push 1, Stored True), (WaitAndPop, Got (Some (1::nat))), (Push 2, Stored True)] in
   accepted tr = delivered tr @ [2]"
proof -
  let ?start = "\<lparr>q_queue = [], q_capacity = 1, q_policy = Block, q_droppedCount = 0,
    q_closed = False\<rparr> :: nat tsq"
  have new: "ThreadSafeQueue 1 Block = Inr ?start"
    by (simp add: ThreadSafeQueue_def)
  have run: "run_ops [Push 1, WaitAndPop, Push 2] ?start =
    Some ([(Push 1, Stored True), (WaitAndPop, Got (Some 1)), (Push 2, Stored True)],
      ?start\<lparr>q_queue := [2]\<rparr>)"
    by (simp add: tsq_op_defs full_def Let_def)
  from block_queue_never_drops [OF new run] show ?thesis by simp
qed

text \<open>C39: Lossy logging keeps the newest. Pushing any sequence of values into an open DropOldest
  queue never waits and always reports success; afterwards the queue holds the last values of
  what it held and what was pushed, as many as fit, and the drop counter grew by the number of
  values that did not fit.\<close>

theorem drop_oldest_keeps_newest:
  assumes "wf_tsq q" and "\<not> q_closed q" and "q_policy q = DropOldest"
  shows "run_ops (map Push vs) q =
    (let all = q_queue q @ vs; excess = length all - q_capacity q
     in Some (map (\<lambda>v. (Push v, Stored True)) vs,
              q\<lparr>q_queue := drop excess all, q_droppedCount := q_droppedCount q + of_nat excess\<rparr>))"
  using assms
proof (induction vs arbitrary: q)
  case Nil
  then show ?case by (simp add: wf_tsq_def)
next
  case (Cons v vs)
  show ?case
  proof (cases "full q")
    case True
    from True Cons.prems(1) obtain x xs where qq: "q_queue q = x # xs"
      and cap: "q_capacity q = Suc (length xs)"
      by (cases "q_queue q") (auto simp: full_wf wf_tsq_def)
    let ?next = "q\<lparr>q_queue := xs @ [v], q_droppedCount := q_droppedCount q + 1\<rparr>"
    have "wf_tsq ?next" using cap by (simp add: wf_tsq_def)
    from Cons.IH [OF this] Cons.prems True qq cap show ?thesis
      by (simp add: push_def Let_def)
  next
    case False
    let ?next = "q\<lparr>q_queue := q_queue q @ [v]\<rparr>"
    have "wf_tsq ?next" using Cons.prems(1) False by (auto simp: wf_tsq_def full_def)
    from Cons.IH [OF this] Cons.prems False show ?thesis
      by (simp add: push_def Let_def)
  qed
qed

theorem drop_oldest_keeps_newest_witness:
  "run_ops (map Push [3, 4, 5 :: nat])
     \<lparr>q_queue = [1, 2], q_capacity = 3, q_policy = DropOldest, q_droppedCount = 7, q_closed = False\<rparr>
   = Some (map (\<lambda>v. (Push v, Stored True)) [3, 4, 5],
     \<lparr>q_queue = [3, 4, 5], q_capacity = 3, q_policy = DropOldest, q_droppedCount = 9, q_closed = False\<rparr>)"
  by (subst drop_oldest_keeps_newest) (simp_all add: wf_tsq_def)

text \<open>Close, then drain. Whatever calls follow on a closed queue, no value is stored any
  more, the calls deliver exactly the values that were buffered, in order and from the front, and
  no rejected push is counted as a drop.\<close>

lemma closed_queue_drains:
  assumes "q_closed q" and "run_ops ops q = Some (tr, q')"
  shows "accepted tr = [] \<and> q_queue q = delivered tr @ q_queue q'
    \<and> droppedCount q' = droppedCount q \<and> q_closed q'"
  using assms
proof (induction ops arbitrary: q tr)
  case (Cons x xs)
  from Cons.prems(2) obtain r q1 tr' where x: "exec_op x q = Returns (r, q1)"
    and xs: "run_ops xs q1 = Some (tr', q')" and tr: "tr = (x, r) # tr'"
    by (rule run_ops_Cons)
  have one: "accepted [(x, r)] = [] \<and> q_queue q = delivered [(x, r)] @ q_queue q1
    \<and> droppedCount q1 = droppedCount q"
    using x Cons.prems(1)
    by (cases x)
      (auto simp: push_def tryPush_def waitAndPop_def tryPop_def popLockedAndNotify_def close_def
        droppedCount_def split: if_splits)
  have "q_closed q1" using exec_op_frame(3) [OF x] Cons.prems(1) by simp
  from Cons.IH [OF this xs] one tr accepted_Cons [of "(x, r)" tr'] delivered_Cons [of "(x, r)" tr']
  show ?case by simp
qed simp

lemma closed_queue_drains_example:
  "let q = \<lparr>q_queue = [10, 20], q_capacity = 4, q_policy = Block, q_droppedCount = 0,
            q_closed = True\<rparr>;
       tr = [(TryPush 30, Stored False), (WaitAndPop, Got (Some (10::nat)))] in
   accepted tr = [] \<and> q_queue q = delivered tr @ [20]"
proof -
  let ?start = "\<lparr>q_queue = [10, 20], q_capacity = 4, q_policy = Block, q_droppedCount = 0,
    q_closed = True\<rparr> :: nat tsq"
  have run: "run_ops [TryPush 30, WaitAndPop] ?start =
    Some ([(TryPush 30, Stored False), (WaitAndPop, Got (Some 10))], ?start\<lparr>q_queue := [20]\<rparr>)"
    by (simp add: tsq_op_defs full_def Let_def)
  have "q_closed ?start" by simp
  from closed_queue_drains [OF this run] show ?thesis by simp
qed

end
