(* ===== verification/Queue_Concurrency.thy ===== *)
theory Queue_Concurrency
  imports Thread_Safe_Queue
begin

text \<open>
  The blocking side of \<^verbatim>\<open>include/radar/thread_safe_queue.hpp\<close>: any number of threads calling one
  queue, with its two condition variables. A critical section is one step (that the lock makes it
  so is shown in \<open>Queue_Sections\<close>, on its statements); waiting on a condition variable and being notified are separate steps, and so is every
  \<^verbatim>\<open>notify_one\<close> / \<^verbatim>\<open>notify_all\<close>, which the code issues after it has released the lock. A sleeping
  thread may also wake up spuriously, as the C++ standard allows; a woken thread takes the lock
  again and re-tests its predicate.
\<close>

section \<open>Threads\<close>

text \<open>
  Where a thread is: outside the queue, about to take the lock in a waiting call, asleep on
  \<^verbatim>\<open>not_full_\<close> (a push or a waitUntilEmpty) or on \<^verbatim>\<open>not_empty_\<close> (a pop), or past its critical section
  with a notification still to send.
\<close>

datatype 'a pc =
    is_Idle: Idle
  | is_PushEnter: PushEnter 'a
  | is_PushSleep: PushSleep 'a
  | is_PopEnter: PopEnter
  | is_PopSleep: PopSleep
  | is_EmptyEnter: EmptyEnter
  | is_EmptySleep: EmptySleep
  | is_NotifyNotEmpty: NotifyNotEmpty
  | is_NotifyNotFull: NotifyNotFull
  | is_CloseNotEmpty: CloseNotEmpty
  | is_CloseNotFull: CloseNotFull

record 'a qsys =
  sys_q :: "'a tsq"
  sys_pcs :: "'a pc list"
  sys_hist :: "('a qop \<times> 'a qres) list"

fun wake_not_empty :: "'a pc \<Rightarrow> 'a pc" where
  "wake_not_empty PopSleep = PopEnter"
| "wake_not_empty p = p"

fun wake_not_full :: "'a pc \<Rightarrow> 'a pc" where
  "wake_not_full (PushSleep v) = PushEnter v"
| "wake_not_full EmptySleep = EmptyEnter"
| "wake_not_full p = p"

section \<open>Steps\<close>

definition goto :: "nat \<Rightarrow> 'a pc \<Rightarrow> 'a qsys \<Rightarrow> 'a qsys" where
  "goto i p s = s\<lparr>sys_pcs := (sys_pcs s)[i := p]\<rparr>"

definition commit :: "nat \<Rightarrow> 'a pc \<Rightarrow> 'a tsq \<Rightarrow> 'a qop \<Rightarrow> 'a qres \<Rightarrow> 'a qsys \<Rightarrow> 'a qsys" where
  "commit i p q x r s =
     s\<lparr>sys_q := q, sys_pcs := (sys_pcs s)[i := p], sys_hist := sys_hist s @ [(x, r)]\<rparr>"

text \<open>The critical sections, from the lock being taken to its release or to the wait.\<close>

definition push_section :: "nat \<Rightarrow> 'a \<Rightarrow> 'a qsys \<Rightarrow> 'a qsys" where
  "push_section i v s =
     (case push v (sys_q s) of
        Waits \<Rightarrow> goto i (PushSleep v) s
      | Returns (b, q') \<Rightarrow> commit i (if b then NotifyNotEmpty else Idle) q' (Push v) (Stored b) s)"

definition tryPush_section :: "nat \<Rightarrow> 'a \<Rightarrow> 'a qsys \<Rightarrow> 'a qsys" where
  "tryPush_section i v s =
     (case tryPush v (sys_q s) of
        (b, q') \<Rightarrow> commit i (if b then NotifyNotEmpty else Idle) q' (TryPush v) (Stored b) s)"

definition waitAndPop_section :: "nat \<Rightarrow> 'a qsys \<Rightarrow> 'a qsys" where
  "waitAndPop_section i s =
     (case waitAndPop (sys_q s) of
        Waits \<Rightarrow> goto i PopSleep s
      | Returns (r, q') \<Rightarrow>
          commit i (if r = None then Idle else NotifyNotFull) q' WaitAndPop (Got r) s)"

definition tryPop_section :: "nat \<Rightarrow> 'a qsys \<Rightarrow> 'a qsys" where
  "tryPop_section i s =
     (case tryPop (sys_q s) of
        (r, q') \<Rightarrow> commit i (if r = None then Idle else NotifyNotFull) q' TryPop (Got r) s)"

definition close_section :: "nat \<Rightarrow> 'a qsys \<Rightarrow> 'a qsys" where
  "close_section i s = commit i CloseNotEmpty (close (sys_q s)) Close Done s"

definition waitUntilEmpty_section :: "nat \<Rightarrow> 'a qsys \<Rightarrow> 'a qsys" where
  "waitUntilEmpty_section i s =
     (case waitUntilEmpty (sys_q s) of
        Waits \<Rightarrow> goto i EmptySleep s
      | Returns _ \<Rightarrow> goto i Idle s)"

text \<open>The notifications a thread sends after its critical section.\<close>

definition notify_all_not_empty :: "'a pc list \<Rightarrow> 'a pc list" where
  "notify_all_not_empty pcs = map wake_not_empty pcs"

definition notify_all_not_full :: "'a pc list \<Rightarrow> 'a pc list" where
  "notify_all_not_full pcs = map wake_not_full pcs"

definition notify_one_not_empty :: "nat option \<Rightarrow> 'a pc list \<Rightarrow> 'a pc list" where
  "notify_one_not_empty w pcs = (case w of None \<Rightarrow> pcs | Some j \<Rightarrow> pcs[j := wake_not_empty (pcs ! j)])"

text \<open>
  \<^verbatim>\<open>notify_one\<close> wakes one of the threads asleep on the condition variable, whichever; it does
  nothing only if there is none.
\<close>

definition notify_one_choice :: "'a pc list \<Rightarrow> nat option \<Rightarrow> bool" where
  "notify_one_choice pcs w \<longleftrightarrow>
     (case w of None \<Rightarrow> \<not> list_ex is_PopSleep pcs | Some j \<Rightarrow> j < length pcs \<and> is_PopSleep (pcs ! j))"

text \<open>
  What the environment can do: a client thread calls a member function (the non-waiting ones take
  their critical section at once), or a sleeper wakes up spuriously.
\<close>

inductive qenv :: "'a qsys \<Rightarrow> 'a qsys \<Rightarrow> bool" where
  call_push: "i < length (sys_pcs s) \<Longrightarrow> sys_pcs s ! i = Idle \<Longrightarrow> qenv s (goto i (PushEnter v) s)"
| call_pop: "i < length (sys_pcs s) \<Longrightarrow> sys_pcs s ! i = Idle \<Longrightarrow> qenv s (goto i PopEnter s)"
| call_empty: "i < length (sys_pcs s) \<Longrightarrow> sys_pcs s ! i = Idle \<Longrightarrow> qenv s (goto i EmptyEnter s)"
| do_tryPush: "i < length (sys_pcs s) \<Longrightarrow> sys_pcs s ! i = Idle \<Longrightarrow> qenv s (tryPush_section i v s)"
| do_tryPop: "i < length (sys_pcs s) \<Longrightarrow> sys_pcs s ! i = Idle \<Longrightarrow> qenv s (tryPop_section i s)"
| do_close: "i < length (sys_pcs s) \<Longrightarrow> sys_pcs s ! i = Idle \<Longrightarrow> qenv s (close_section i s)"
| spurious_empty: "j < length (sys_pcs s) \<Longrightarrow>
    qenv s (s\<lparr>sys_pcs := (sys_pcs s)[j := wake_not_empty (sys_pcs s ! j)]\<rparr>)"
| spurious_full: "j < length (sys_pcs s) \<Longrightarrow>
    qenv s (s\<lparr>sys_pcs := (sys_pcs s)[j := wake_not_full (sys_pcs s ! j)]\<rparr>)"

text \<open>What the threads inside the queue do: take the lock and run, or send the notification they owe.\<close>

inductive qrun :: "'a qsys \<Rightarrow> 'a qsys \<Rightarrow> bool" where
  do_push: "i < length (sys_pcs s) \<Longrightarrow> sys_pcs s ! i = PushEnter v \<Longrightarrow> qrun s (push_section i v s)"
| do_pop: "i < length (sys_pcs s) \<Longrightarrow> sys_pcs s ! i = PopEnter \<Longrightarrow> qrun s (waitAndPop_section i s)"
| do_empty: "i < length (sys_pcs s) \<Longrightarrow> sys_pcs s ! i = EmptyEnter \<Longrightarrow>
    qrun s (waitUntilEmpty_section i s)"
| notify_empty: "i < length (sys_pcs s) \<Longrightarrow> sys_pcs s ! i = NotifyNotEmpty \<Longrightarrow>
    notify_one_choice (sys_pcs s) w \<Longrightarrow>
    qrun s (goto i Idle (s\<lparr>sys_pcs := notify_one_not_empty w (sys_pcs s)\<rparr>))"
| notify_full: "i < length (sys_pcs s) \<Longrightarrow> sys_pcs s ! i = NotifyNotFull \<Longrightarrow>
    qrun s (goto i Idle (s\<lparr>sys_pcs := notify_all_not_full (sys_pcs s)\<rparr>))"
| close_empty: "i < length (sys_pcs s) \<Longrightarrow> sys_pcs s ! i = CloseNotEmpty \<Longrightarrow>
    qrun s (goto i CloseNotFull (s\<lparr>sys_pcs := notify_all_not_empty (sys_pcs s)\<rparr>))"
| close_full: "i < length (sys_pcs s) \<Longrightarrow> sys_pcs s ! i = CloseNotFull \<Longrightarrow>
    qrun s (goto i Idle (s\<lparr>sys_pcs := notify_all_not_full (sys_pcs s)\<rparr>))"

definition qstep :: "'a qsys \<Rightarrow> 'a qsys \<Rightarrow> bool" where
  "qstep s t \<longleftrightarrow> qenv s t \<or> qrun s t"

text \<open>Every thread is outside the queue or asleep.\<close>

definition quiescent :: "'a qsys \<Rightarrow> bool" where
  "quiescent s \<longleftrightarrow>
     list_all (\<lambda>p. is_Idle p \<or> is_PopSleep p \<or> is_PushSleep p \<or> is_EmptySleep p) (sys_pcs s)"

definition qsys_init :: "nat \<Rightarrow> OverflowPolicy \<Rightarrow> nat \<Rightarrow> 'a qsys \<Rightarrow> bool" where
  "qsys_init c p n s \<longleftrightarrow>
     (case ThreadSafeQueue c p of
        Inl _ \<Rightarrow> False
      | Inr q \<Rightarrow> s = \<lparr>sys_q = q, sys_pcs = replicate n Idle, sys_hist = []\<rparr>)"

section \<open>The invariant\<close>

text \<open>
  Every sleeper is covered. A thread asleep on \<^verbatim>\<open>not_empty_\<close> means that the buffered items are at
  most as many as the pops already woken plus the notifications still to be sent, and that a close
  still has to notify if the queue is closed. A pusher asleep on \<^verbatim>\<open>not_full_\<close> means that the queue is
  full or a notification is on its way, and likewise for a waitUntilEmpty.
\<close>

definition covered :: "'a tsq \<Rightarrow> 'a pc list \<Rightarrow> bool" where
  "covered q pcs \<longleftrightarrow>
     (0 < number_of is_PopSleep pcs \<longrightarrow>
        length (q_queue q) \<le> number_of is_PopEnter pcs + number_of is_NotifyNotEmpty pcs
        \<and> (q_closed q \<longrightarrow> 0 < number_of is_CloseNotEmpty pcs)) \<and>
     (0 < number_of is_PushSleep pcs \<longrightarrow>
        (full q \<or> 0 < number_of is_NotifyNotFull pcs)
        \<and> (q_closed q \<longrightarrow> 0 < number_of is_CloseNotEmpty pcs + number_of is_CloseNotFull pcs)) \<and>
     (0 < number_of is_EmptySleep pcs \<longrightarrow>
        q_queue q \<noteq> [] \<or> 0 < number_of is_NotifyNotFull pcs)"

definition qsys_inv :: "nat \<Rightarrow> OverflowPolicy \<Rightarrow> nat \<Rightarrow> 'a qsys \<Rightarrow> bool" where
  "qsys_inv c p n s \<longleftrightarrow> length (sys_pcs s) = n \<and> wf_tsq (sys_q s) \<and> covered (sys_q s) (sys_pcs s)
     \<and> (\<exists>q0. ThreadSafeQueue c p = Inr q0
           \<and> run_ops (map fst (sys_hist s)) q0 = Some (sys_hist s, sys_q s))"

lemmas section_defs = push_section_def tryPush_section_def waitAndPop_section_def tryPop_section_def
  close_section_def waitUntilEmpty_section_def goto_def commit_def

lemma number_of_map: "number_of P (map f xs) = number_of (\<lambda>x. P (f x)) xs"
  by (simp add: number_of_def filter_map comp_def)

lemma number_of_none: "(\<And>x. \<not> P x) \<Longrightarrow> number_of P xs = 0"
  by (simp add: number_of_def)

lemma wake_counts [simp]:
  "is_PopSleep (wake_not_empty p) \<longleftrightarrow> False" "is_PushSleep (wake_not_full p) \<longleftrightarrow> False"
  "is_EmptySleep (wake_not_full p) \<longleftrightarrow> False"
  "is_PushSleep (wake_not_empty p) \<longleftrightarrow> is_PushSleep p"
  "is_EmptySleep (wake_not_empty p) \<longleftrightarrow> is_EmptySleep p"
  "is_PopSleep (wake_not_full p) \<longleftrightarrow> is_PopSleep p"
  "is_PopEnter (wake_not_empty p) \<longleftrightarrow> is_PopEnter p \<or> is_PopSleep p"
  "is_PopEnter (wake_not_full p) \<longleftrightarrow> is_PopEnter p"
  "is_NotifyNotEmpty (wake_not_empty p) \<longleftrightarrow> is_NotifyNotEmpty p"
  "is_NotifyNotEmpty (wake_not_full p) \<longleftrightarrow> is_NotifyNotEmpty p"
  "is_NotifyNotFull (wake_not_empty p) \<longleftrightarrow> is_NotifyNotFull p"
  "is_NotifyNotFull (wake_not_full p) \<longleftrightarrow> is_NotifyNotFull p"
  "is_CloseNotEmpty (wake_not_empty p) \<longleftrightarrow> is_CloseNotEmpty p"
  "is_CloseNotEmpty (wake_not_full p) \<longleftrightarrow> is_CloseNotEmpty p"
  "is_CloseNotFull (wake_not_empty p) \<longleftrightarrow> is_CloseNotFull p"
  "is_CloseNotFull (wake_not_full p) \<longleftrightarrow> is_CloseNotFull p"
  by (cases p; simp)+

text \<open>The counts after one thread has moved.\<close>

lemma number_of_moved:
  assumes "i < length pcs"
  shows "\<not> P (pcs ! i) \<Longrightarrow> \<not> P p \<Longrightarrow> number_of P (pcs[i := p]) = number_of P pcs"
    and "\<not> P (pcs ! i) \<Longrightarrow> P p \<Longrightarrow> number_of P (pcs[i := p]) = Suc (number_of P pcs)"
    and "P (pcs ! i) \<Longrightarrow> \<not> P p \<Longrightarrow> number_of P (pcs[i := p]) = number_of P pcs - 1"
    and "P (pcs ! i) \<Longrightarrow> P p \<Longrightarrow> number_of P (pcs[i := p]) = number_of P pcs"
  using number_of_update [OF assms, of P p] by auto

lemma covered_call:
  assumes "i < length pcs" and "pcs ! i = Idle" and "covered q pcs"
  shows "covered q (pcs[i := PushEnter v])" and "covered q (pcs[i := PopEnter])"
    and "covered q (pcs[i := EmptyEnter])"
  using assms by (auto simp: covered_def number_of_moved)

lemma covered_sleep:
  assumes "i < length pcs" and "covered q pcs"
  shows "pcs ! i = PushEnter v \<Longrightarrow> full q \<Longrightarrow> \<not> q_closed q \<Longrightarrow> covered q (pcs[i := PushSleep v])"
    and "pcs ! i = PopEnter \<Longrightarrow> q_queue q = [] \<Longrightarrow> \<not> q_closed q \<Longrightarrow> covered q (pcs[i := PopSleep])"
    and "pcs ! i = EmptyEnter \<Longrightarrow> q_queue q \<noteq> [] \<Longrightarrow> covered q (pcs[i := EmptySleep])"
    and "pcs ! i = EmptyEnter \<Longrightarrow> covered q (pcs[i := Idle])"
    and "pcs ! i = PopEnter \<Longrightarrow> q_queue q = [] \<Longrightarrow> covered q (pcs[i := Idle])"
    and "pcs ! i = PushEnter v \<Longrightarrow> covered q (pcs[i := Idle])"
  using assms by (auto simp: covered_def number_of_moved)

lemma covered_same:
  "covered q pcs \<Longrightarrow> q_queue q' = q_queue q \<Longrightarrow> q_closed q' = q_closed q \<Longrightarrow> full q' = full q \<Longrightarrow>
    covered q' pcs"
  by (simp add: covered_def)

lemma enqueueLocked_effect:
  assumes "enqueueLocked v q = (b, q')" and "wf_tsq q"
  shows "q_closed q' = q_closed q" and "q_capacity q' = q_capacity q" and "wf_tsq q'"
    and "b \<Longrightarrow> length (q_queue q') \<le> Suc (length (q_queue q)) \<and> q_queue q' \<noteq> [] \<and> (full q \<longrightarrow> full q')"
    and "\<not> b \<Longrightarrow> q_queue q' = q_queue q"
  using assms
  by (auto simp: enqueueLocked_def countDrop_def full_def wf_tsq_def Let_def split: if_splits)

lemma covered_stored:
  assumes "enqueueLocked v q = (True, q')" and "wf_tsq q" and "i < length pcs" and "covered q pcs"
    and old: "pcs ! i = Idle \<or> pcs ! i = PushEnter w"
  shows "covered q' (pcs[i := NotifyNotEmpty])"
proof -
  note eff = enqueueLocked_effect(1,4) [OF assms(1,2)]
  from eff(2) have len: "length (q_queue q') \<le> Suc (length (q_queue q))"
    and "q_queue q' \<noteq> []" and "full q \<longrightarrow> full q'" by simp_all
  moreover from old have "is_PopSleep (pcs ! i) = False" "is_PushSleep (pcs ! i) = False"
    "is_EmptySleep (pcs ! i) = False" "is_PopEnter (pcs ! i) = False"
    "is_NotifyNotEmpty (pcs ! i) = False" "is_NotifyNotFull (pcs ! i) = False"
    "is_CloseNotEmpty (pcs ! i) = False" "is_CloseNotFull (pcs ! i) = False"
    by (elim disjE; simp)+
  ultimately show ?thesis
    using assms(3,4) eff(1) unfolding covered_def by (auto simp: number_of_moved)
qed

lemma covered_rejected:
  assumes "enqueueLocked v q = (False, q')" and "wf_tsq q" and "i < length pcs" and "covered q pcs"
    and old: "pcs ! i = Idle \<or> pcs ! i = PushEnter w"
  shows "covered q' (pcs[i := Idle])"
proof -
  have "covered q (pcs[i := Idle])"
    using old
  proof
    assume "pcs ! i = Idle"
    then show ?thesis using assms(4) list_update_id [of pcs i] by simp
  qed (rule covered_sleep(6) [OF assms(3,4)])
  then show ?thesis
    using enqueueLocked_effect(1,2,5) [OF assms(1,2)] by (auto simp: full_def intro: covered_same)
qed

lemma covered_popped:
  assumes "q_queue q = x # xs" and "i < length pcs" and "covered q pcs"
    and "pcs ! i = Idle \<or> pcs ! i = PopEnter"
  shows "covered (with_queue xs q) (pcs[i := NotifyNotFull])"
proof -
  have "pcs ! i = PopEnter \<Longrightarrow> 0 < number_of is_PopEnter pcs"
    using assms(2) by (auto intro: number_of_pos)
  with assms show ?thesis by (auto simp: covered_def number_of_moved full_def)
qed

lemma covered_closing:
  assumes "i < length pcs" and "covered q pcs" and "pcs ! i = Idle"
  shows "covered (close q) (pcs[i := CloseNotEmpty])"
  using assms by (auto simp: covered_def number_of_moved close_def full_def)

lemma covered_wake:
  assumes "j < length pcs" and "covered q pcs"
  shows "covered q (pcs[j := wake_not_empty (pcs ! j)])"
    and "covered q (pcs[j := wake_not_full (pcs ! j)])"
proof -
  have old: "is_PopSleep (pcs ! j) \<Longrightarrow> 0 < number_of is_PopSleep pcs"
    "is_PushSleep (pcs ! j) \<Longrightarrow> 0 < number_of is_PushSleep pcs"
    "is_EmptySleep (pcs ! j) \<Longrightarrow> 0 < number_of is_EmptySleep pcs"
    using assms(1) by (auto intro: number_of_pos)
  show "covered q (pcs[j := wake_not_empty (pcs ! j)])"
    using assms old by (cases "pcs ! j") (auto simp: covered_def number_of_moved)
  show "covered q (pcs[j := wake_not_full (pcs ! j)])"
    using assms old by (cases "pcs ! j") (auto simp: covered_def number_of_moved)
qed

lemma covered_notified:
  assumes "i < length pcs" and "covered q pcs" and "pcs ! i = NotifyNotEmpty"
    and "notify_one_choice pcs w"
  shows "covered q ((notify_one_not_empty w pcs)[i := Idle])"
proof (cases w)
  case None
  then have "number_of is_PopSleep pcs = 0"
    using assms(4) by (auto simp: notify_one_choice_def number_of_zero_iff list_ex_length)
  then show ?thesis
    using None assms by (auto simp: covered_def number_of_moved notify_one_not_empty_def)
next
  case (Some j)
  then have j: "j < length pcs" "pcs ! j = PopSleep"
    using assms(4) by (auto simp: notify_one_choice_def is_PopSleep_def)
  then have "0 < number_of is_PopSleep pcs" and "0 < number_of is_NotifyNotEmpty pcs"
    using assms(1,3) by (auto intro: number_of_pos)
  moreover have "i \<noteq> j" using j assms(3) by auto
  ultimately show ?thesis
    using Some j assms by (auto simp: covered_def number_of_moved notify_one_not_empty_def)
qed

lemma covered_notified_all:
  assumes "i < length pcs" and "covered q pcs"
  shows "pcs ! i = NotifyNotFull \<Longrightarrow> covered q ((notify_all_not_full pcs)[i := Idle])"
    and "pcs ! i = CloseNotFull \<Longrightarrow> covered q ((notify_all_not_full pcs)[i := Idle])"
    and "pcs ! i = CloseNotEmpty \<Longrightarrow> covered q ((notify_all_not_empty pcs)[i := CloseNotFull])"
  using assms
  by (auto simp: covered_def number_of_moved notify_all_not_full_def notify_all_not_empty_def
      number_of_map number_of_none)

lemma qsys_inv_move:
  assumes "qsys_inv c p n s" and "length pcs = length (sys_pcs s)"
    and "covered (sys_q s) (sys_pcs s) \<Longrightarrow> covered (sys_q s) pcs"
  shows "qsys_inv c p n (s\<lparr>sys_pcs := pcs\<rparr>)"
  using assms by (simp add: qsys_inv_def)

lemma qsys_inv_commit:
  assumes "qsys_inv c p n s" and "exec_op x (sys_q s) = Returns (r, q')"
    and "covered q' ((sys_pcs s)[i := t])"
  shows "qsys_inv c p n (commit i t q' x r s)"
  using assms exec_op_wf [OF assms(2)] run_ops_snoc [OF _ assms(2)]
  by (auto simp: qsys_inv_def commit_def)

lemma push_returns: "push v q = Returns (b, q') \<Longrightarrow> enqueueLocked v q = (b, q')"
  by (simp add: push_def split: if_splits)

lemma push_waits: "push v q = Waits \<Longrightarrow> full q \<and> \<not> q_closed q"
  by (simp add: push_def split: if_splits)

lemma push_section_inv:
  assumes "qsys_inv c p n s" and "i < length (sys_pcs s)" and "sys_pcs s ! i = PushEnter v"
  shows "qsys_inv c p n (push_section i v s)"
proof (cases "push v (sys_q s)")
  case Waits
  with assms push_waits [OF Waits] show ?thesis
    by (auto simp: push_section_def goto_def qsys_inv_def intro: covered_sleep(1))
next
  case (Returns res)
  then obtain b q' where r: "push v (sys_q s) = Returns (b, q')" by (cases res) auto
  from assms have inv: "wf_tsq (sys_q s)" "covered (sys_q s) (sys_pcs s)"
    by (simp_all add: qsys_inv_def)
  have "covered q' ((sys_pcs s)[i := if b then NotifyNotEmpty else Idle])"
    using push_returns [OF r] inv assms(2,3)
    by (cases b) (auto intro: covered_stored covered_rejected)
  with assms(1) r show ?thesis
    by (auto simp: push_section_def intro!: qsys_inv_commit)
qed

lemma tryPush_section_inv:
  assumes "qsys_inv c p n s" and "i < length (sys_pcs s)" and "sys_pcs s ! i = Idle"
  shows "qsys_inv c p n (tryPush_section i v s)"
proof -
  obtain b q' where r: "tryPush v (sys_q s) = (b, q')" by fastforce
  from assms have inv: "wf_tsq (sys_q s)" "covered (sys_q s) (sys_pcs s)"
    by (simp_all add: qsys_inv_def)
  have "covered q' ((sys_pcs s)[i := if b then NotifyNotEmpty else Idle])"
    using r inv assms(2,3)
    by (cases b) (auto simp: tryPush_def intro: covered_stored covered_rejected)
  with assms(1) r show ?thesis
    by (auto simp: tryPush_section_def intro!: qsys_inv_commit)
qed

lemma waitAndPop_section_inv:
  assumes "qsys_inv c p n s" and "i < length (sys_pcs s)" and "sys_pcs s ! i = PopEnter"
  shows "qsys_inv c p n (waitAndPop_section i s)"
proof -
  from assms have cov: "covered (sys_q s) (sys_pcs s)" by (simp add: qsys_inv_def)
  consider x xs where "q_queue (sys_q s) = x # xs"
    | "q_queue (sys_q s) = []" "q_closed (sys_q s)"
    | "q_queue (sys_q s) = []" "\<not> q_closed (sys_q s)"
    by (cases "q_queue (sys_q s)") auto
  then show ?thesis
  proof cases
    case 1
    from covered_popped [OF 1 assms(2) cov] assms 1 show ?thesis
      by (auto simp: waitAndPop_section_def tsq_source.pop_item intro!: qsys_inv_commit)
  next
    case 2
    with covered_sleep(5) [OF assms(2) cov assms(3)] assms show ?thesis
      by (auto simp: waitAndPop_section_def tsq_source.pop_end intro!: qsys_inv_commit)
  next
    case 3
    with covered_sleep(2) [OF assms(2) cov assms(3)] assms show ?thesis
      by (auto simp: waitAndPop_section_def tsq_source.pop_waits goto_def qsys_inv_def)
  qed
qed

lemma covered_idle:
  "i < length pcs \<Longrightarrow> pcs ! i = Idle \<Longrightarrow> covered q pcs \<Longrightarrow> covered q (pcs[i := Idle])"
  by (metis list_update_id)

lemma tryPop_section_inv:
  assumes "qsys_inv c p n s" and "i < length (sys_pcs s)" and "sys_pcs s ! i = Idle"
  shows "qsys_inv c p n (tryPop_section i s)"
proof -
  from assms have cov: "covered (sys_q s) (sys_pcs s)" by (simp add: qsys_inv_def)
  show ?thesis
  proof (cases "q_queue (sys_q s)")
    case Nil
    with covered_idle [OF assms(2,3) cov] assms show ?thesis
      by (auto simp: tryPop_section_def tryPop_def intro!: qsys_inv_commit)
  next
    case (Cons x xs)
    from covered_popped [OF this assms(2) cov] assms Cons show ?thesis
      by (auto simp: tryPop_section_def tryPop_def popLockedAndNotify_def intro!: qsys_inv_commit)
  qed
qed

lemma waitUntilEmpty_section_inv:
  assumes "qsys_inv c p n s" and "i < length (sys_pcs s)" and "sys_pcs s ! i = EmptyEnter"
  shows "qsys_inv c p n (waitUntilEmpty_section i s)"
  using assms covered_sleep(3,4) [of i "sys_pcs s" "sys_q s"]
  by (auto simp: waitUntilEmpty_section_def waitUntilEmpty_def goto_def qsys_inv_def)

lemma close_section_inv:
  assumes "qsys_inv c p n s" and "i < length (sys_pcs s)" and "sys_pcs s ! i = Idle"
  shows "qsys_inv c p n (close_section i s)"
  unfolding close_section_def
  by (rule qsys_inv_commit [OF assms(1)])
    (use assms covered_closing [of i "sys_pcs s" "sys_q s"] in \<open>simp_all add: qsys_inv_def\<close>)

lemmas section_invs = push_section_inv tryPush_section_inv waitAndPop_section_inv tryPop_section_inv
  close_section_inv waitUntilEmpty_section_inv

lemma length_notify [simp]:
  "length (notify_one_not_empty w pcs) = length pcs"
  "length (notify_all_not_empty pcs) = length pcs"
  "length (notify_all_not_full pcs) = length pcs"
  by (simp_all add: notify_one_not_empty_def notify_all_not_empty_def notify_all_not_full_def
      split: option.splits)

lemma qsys_inv_qrun: "qrun s t \<Longrightarrow> qsys_inv c p n s \<Longrightarrow> qsys_inv c p n t"
  by (induction rule: qrun.induct)
    (simp_all add: goto_def qsys_inv_move covered_notified covered_notified_all section_invs)

lemma qsys_inv_qenv: "qenv s t \<Longrightarrow> qsys_inv c p n s \<Longrightarrow> qsys_inv c p n t"
  by (induction rule: qenv.induct)
    (simp_all add: goto_def qsys_inv_move covered_call covered_wake section_invs)

lemma qsys_inv_init: "qsys_init c p n s \<Longrightarrow> qsys_inv c p n s"
  by (auto simp: qsys_init_def qsys_inv_def covered_def number_of_def queue_simps split: sum.splits)

interpretation qmon: invariant_system "qsys_init c p n" qstep "qsys_inv c p n" for c p n
  by unfold_locales (auto simp: qstep_def intro: qsys_inv_init qsys_inv_qrun qsys_inv_qenv)

section \<open>No wake-up is lost\<close>

lemma quiescent_counts:
  assumes "quiescent s"
  shows "number_of is_PopEnter (sys_pcs s) = 0" "number_of is_NotifyNotEmpty (sys_pcs s) = 0"
    "number_of is_NotifyNotFull (sys_pcs s) = 0" "number_of is_CloseNotEmpty (sys_pcs s) = 0"
    "number_of is_CloseNotFull (sys_pcs s) = 0"
  using assms by (auto simp: number_of_zero_iff quiescent_def list_all_length; metis pc.disc)+

text \<open>C15: No lost wake-up. However the threads interleave, spurious wake-ups included, once every
  thread is outside the queue or asleep, each sleeper is asleep rightly: a pop only on an empty
  open queue, a push only on a full open queue, a waitUntilEmpty only on a non-empty queue. In
  particular close() releases every push and every pop.\<close>

theorem no_lost_wakeup:
  assumes "reaches (qsys_init c p n) qstep s" and "quiescent s" and "i < length (sys_pcs s)"
  shows "(is_PopSleep (sys_pcs s ! i) \<longrightarrow> q_queue (sys_q s) = [] \<and> \<not> q_closed (sys_q s))
    \<and> (is_PushSleep (sys_pcs s ! i) \<longrightarrow> full (sys_q s) \<and> \<not> q_closed (sys_q s))
    \<and> (is_EmptySleep (sys_pcs s ! i) \<longrightarrow> q_queue (sys_q s) \<noteq> [])"
proof -
  have "covered (sys_q s) (sys_pcs s)"
    using qmon.reaches_invar [OF assms(1)] by (simp add: qsys_inv_def)
  moreover have "P (sys_pcs s ! i) \<Longrightarrow> 0 < number_of P (sys_pcs s)" for P
    using assms(3) by (rule number_of_pos)
  ultimately show ?thesis
    using quiescent_counts [OF assms(2)] by (simp add: covered_def)
qed

theorem no_lost_wakeup_witness:
  "let s = \<lparr>sys_q = \<lparr>q_queue = [], q_capacity = 1, q_policy = Block, q_droppedCount = 0,
                      q_closed = False\<rparr>,
            sys_pcs = [PopSleep], sys_hist = []\<rparr> :: nat qsys
   in reaches (qsys_init 1 Block 1) qstep s \<and> quiescent s \<and> is_PopSleep (sys_pcs s ! 0)
      \<and> q_queue (sys_q s) = [] \<and> \<not> q_closed (sys_q s)"
proof -
  let ?sys = "\<lambda>t. \<lparr>sys_q = \<lparr>q_queue = [], q_capacity = 1, q_policy = Block, q_droppedCount = 0,
    q_closed = False\<rparr>, sys_pcs = [t], sys_hist = []\<rparr> :: nat qsys"
  have "reaches (qsys_init 1 Block 1) qstep (?sys Idle)"
    by (rule reaches_init) (simp add: qsys_init_def ThreadSafeQueue_def)
  moreover have "qstep (?sys Idle) (?sys PopEnter)"
    using qenv.call_pop [of 0 "?sys Idle"] by (simp add: goto_def qstep_def)
  moreover have "qstep (?sys PopEnter) (?sys PopSleep)"
    using qrun.do_pop [of 0 "?sys PopEnter"]
    by (simp add: goto_def qstep_def waitAndPop_section_def waitAndPop_def)
  ultimately have r: "reaches (qsys_init 1 Block 1) qstep (?sys PopSleep)"
    by (blast intro: reaches_step)
  have q: "quiescent (?sys PopSleep)" by (simp add: quiescent_def)
  have "0 < length (sys_pcs (?sys PopSleep))" by simp
  from no_lost_wakeup [OF r q this] r q show ?thesis by simp
qed

section \<open>Calls settle\<close>

text \<open>
  The measure of the activity inside the queue: first the calls that have not returned and owe
  nothing yet, then the notifications owed, then the threads about to take the lock.
\<close>

definition is_waiting :: "'a pc \<Rightarrow> bool" where
  "is_waiting p \<longleftrightarrow> is_PushEnter p \<or> is_PushSleep p \<or> is_PopEnter p \<or> is_PopSleep p
     \<or> is_EmptyEnter p \<or> is_EmptySleep p"

definition is_entering :: "'a pc \<Rightarrow> bool" where
  "is_entering p \<longleftrightarrow> is_PushEnter p \<or> is_PopEnter p \<or> is_EmptyEnter p"

definition owed :: "'a pc list \<Rightarrow> nat" where
  "owed pcs = number_of is_NotifyNotEmpty pcs + number_of is_NotifyNotFull pcs
     + 2 * number_of is_CloseNotEmpty pcs + number_of is_CloseNotFull pcs"

definition activity :: "('a qsys \<times> 'a qsys) set" where
  "activity = measures [\<lambda>s. number_of is_waiting (sys_pcs s), \<lambda>s. owed (sys_pcs s),
     \<lambda>s. number_of is_entering (sys_pcs s)]"

lemma wake_waiting [simp]:
  "is_waiting (wake_not_empty p) = is_waiting p" "is_waiting (wake_not_full p) = is_waiting p"
  by (cases p; simp add: is_waiting_def)+

lemma waiting_simps [simp]:
  "\<not> is_waiting Idle" "is_waiting (PushEnter v)" "is_waiting (PushSleep v)" "is_waiting PopEnter"
  "is_waiting PopSleep" "is_waiting EmptyEnter" "is_waiting EmptySleep" "\<not> is_waiting NotifyNotEmpty"
  "\<not> is_waiting NotifyNotFull" "\<not> is_waiting CloseNotEmpty" "\<not> is_waiting CloseNotFull"
  "is_entering (PushEnter v)" "is_entering PopEnter" "is_entering EmptyEnter"
  "\<not> is_entering (PushSleep v)" "\<not> is_entering PopSleep" "\<not> is_entering EmptySleep"
  by (simp_all add: is_waiting_def is_entering_def)

lemma notify_all_counts:
  "number_of is_waiting (notify_all_not_empty pcs) = number_of is_waiting pcs"
  "number_of is_waiting (notify_all_not_full pcs) = number_of is_waiting pcs"
  "owed (notify_all_not_empty pcs) = owed pcs" "owed (notify_all_not_full pcs) = owed pcs"
  by (simp_all add: notify_all_not_empty_def notify_all_not_full_def owed_def number_of_map)

lemma notify_one_counts:
  assumes "notify_one_choice pcs w"
  shows "number_of is_waiting (notify_one_not_empty w pcs) = number_of is_waiting pcs"
    and "owed (notify_one_not_empty w pcs) = owed pcs"
  using assms
  by (cases w; auto simp: notify_one_choice_def notify_one_not_empty_def owed_def is_PopSleep_def
      number_of_moved)+

lemma notify_one_keeps:
  "notify_one_choice pcs w \<Longrightarrow> i < length pcs \<Longrightarrow> \<not> is_PopSleep (pcs ! i) \<Longrightarrow>
    notify_one_not_empty w pcs ! i = pcs ! i"
  by (auto simp: notify_one_choice_def notify_one_not_empty_def nth_list_update split: option.splits)

lemma notify_all_keeps:
  "i < length pcs \<Longrightarrow> notify_all_not_empty pcs ! i = wake_not_empty (pcs ! i)"
  "i < length pcs \<Longrightarrow> notify_all_not_full pcs ! i = wake_not_full (pcs ! i)"
  by (simp_all add: notify_all_not_empty_def notify_all_not_full_def)

text \<open>A critical section either returns, or puts the thread to sleep.\<close>

lemma activity_return:
  assumes "i < length (sys_pcs s)" and "is_waiting (sys_pcs s ! i)" and "\<not> is_waiting t"
  shows "(goto i t s, s) \<in> activity" and "(commit i t q x r s, s) \<in> activity"
  using assms number_of_pos [of i "sys_pcs s" is_waiting]
  by (simp_all add: activity_def number_of_moved goto_def commit_def)

lemma activity_sleep:
  assumes "i < length (sys_pcs s)" and "is_entering (sys_pcs s ! i)"
    and "is_PushSleep t \<or> is_PopSleep t \<or> is_EmptySleep t"
  shows "(goto i t s, s) \<in> activity"
proof -
  have "is_waiting t" and "\<not> is_entering t" using assms(3) by (cases t; simp)+
  moreover have "is_waiting (sys_pcs s ! i)"
    using assms(2) by (auto simp: is_waiting_def is_entering_def)
  moreover have "owed ((sys_pcs s)[i := t]) = owed (sys_pcs s)"
    using assms by (cases t; cases "sys_pcs s ! i")
      (auto simp: owed_def number_of_moved is_entering_def)
  ultimately show ?thesis
    using assms number_of_pos [of i "sys_pcs s" is_entering]
    by (simp add: activity_def number_of_moved goto_def)
qed

lemma activity_notify:
  assumes "i < length pcs" and "number_of is_waiting pcs = number_of is_waiting (sys_pcs s)"
    and "owed pcs = owed (sys_pcs s)" and "sys_pcs s' = pcs[i := t]"
    and "(pcs ! i, t) \<in> {(NotifyNotEmpty, Idle), (NotifyNotFull, Idle), (CloseNotEmpty, CloseNotFull),
      (CloseNotFull, Idle)}"
  shows "(s', s) \<in> activity"
proof -
  have "P (pcs ! i) \<Longrightarrow> 0 < number_of P pcs" for P
    using assms(1) by (rule number_of_pos)
  from this [of is_NotifyNotEmpty] this [of is_NotifyNotFull] this [of is_CloseNotEmpty]
    this [of is_CloseNotFull]
  have "owed (pcs[i := t]) < owed pcs"
    using assms(1,5) by (auto simp: owed_def number_of_moved)
  moreover have "number_of is_waiting (pcs[i := t]) = number_of is_waiting pcs"
    using assms(1,5) by (auto simp: number_of_moved)
  ultimately show ?thesis using assms by (simp add: activity_def)
qed

lemma qrun_activity: "qrun s t \<Longrightarrow> (t, s) \<in> activity"
proof (induction rule: qrun.induct)
  case (do_push i s v)
  then show ?case
    by (cases "push v (sys_q s)")
      (auto simp: push_section_def activity_return activity_sleep split: prod.splits)
next
  case (do_pop i s)
  then show ?case
    by (cases "waitAndPop (sys_q s)")
      (auto simp: waitAndPop_section_def activity_return activity_sleep split: prod.splits)
next
  case (do_empty i s)
  then show ?case
    by (cases "waitUntilEmpty (sys_q s)")
      (auto simp: waitUntilEmpty_section_def activity_return activity_sleep)
next
  case (notify_empty i s w)
  then have "notify_one_not_empty w (sys_pcs s) ! i = NotifyNotEmpty"
    using notify_one_keeps [of "sys_pcs s" w i] by simp
  with notify_empty show ?case
    by (intro activity_notify [where pcs = "notify_one_not_empty w (sys_pcs s)" and t = Idle and i = i])
      (simp_all add: notify_one_counts goto_def)
next
  case (notify_full i s)
  then show ?case
    by (intro activity_notify [where pcs = "notify_all_not_full (sys_pcs s)" and t = Idle and i = i])
      (simp_all add: notify_all_counts notify_all_keeps goto_def)
next
  case (close_empty i s)
  then show ?case
    by (intro activity_notify [where pcs = "notify_all_not_empty (sys_pcs s)" and t = CloseNotFull and i = i])
      (simp_all add: notify_all_counts notify_all_keeps goto_def)
next
  case (close_full i s)
  then show ?case
    by (intro activity_notify [where pcs = "notify_all_not_full (sys_pcs s)" and t = Idle and i = i])
      (simp_all add: notify_all_counts notify_all_keeps goto_def)
qed

lemma notify_one_possible: "\<exists>w. notify_one_choice pcs w"
proof (cases "list_ex is_PopSleep pcs")
  case True
  then obtain j where "j < length pcs" and "is_PopSleep (pcs ! j)"
    by (auto simp: list_ex_length)
  then show ?thesis by (intro exI [of _ "Some j"]) (simp add: notify_one_choice_def)
next
  case False
  then show ?thesis by (intro exI [of _ None]) (simp add: notify_one_choice_def)
qed

lemma qrun_progress:
  assumes "\<not> quiescent s"
  shows "\<exists>t. qrun s t"
proof -
  from assms obtain i where i: "i < length (sys_pcs s)"
    and p: "\<not> is_Idle (sys_pcs s ! i)" "\<not> is_PopSleep (sys_pcs s ! i)"
      "\<not> is_PushSleep (sys_pcs s ! i)" "\<not> is_EmptySleep (sys_pcs s ! i)"
    by (auto simp: quiescent_def list_all_length)
  obtain w where "notify_one_choice (sys_pcs s) w" using notify_one_possible by blast
  with i p show ?thesis by (cases "sys_pcs s ! i") (auto intro: qrun.intros)
qed

text \<open>C18: The calls settle. The threads inside the queue cannot keep each other busy for ever:
  under any scheduling, without new calls or spurious wake-ups, only finitely many steps remain,
  and as long as some thread is neither outside nor asleep there is a next step. So every call
  either returns or ends up asleep, rightly so by the previous property.\<close>

theorem calls_settle:
  "wfp (\<lambda>t (s :: 'a qsys). qrun s t) \<and> (\<forall>s :: 'a qsys. quiescent s \<or> (\<exists>t. qrun s t))"
proof
  have "wf (activity :: ('a qsys \<times> 'a qsys) set)" by (simp add: activity_def)
  then show "wfp (\<lambda>t (s :: 'a qsys). qrun s t)"
    unfolding wfp_def by (rule wf_subset) (auto intro: qrun_activity)
qed (use qrun_progress in blast)

end
