(* ===== verification/Queue_Sections.thy ===== *)
theory Queue_Sections
  imports Queue_Concurrency
begin

text \<open>
  The member functions of \<^verbatim>\<open>include/radar/thread_safe_queue.hpp\<close> statement by statement: one step per
  access to a field, to the mutex or to a condition variable, by any number of threads. Nothing here
  makes a critical section atomic; that only the thread inside a section touches the fields is a
  theorem. The sections are shown to refine those of \<open>Queue_Concurrency\<close>, so the calls have the effect of a
  sequential history, and what is shown there holds of the statements too.
\<close>

section \<open>The statements of the critical sections\<close>

datatype 'a ucall = CPush 'a | CTryPush 'a | CPop | CTryPop | CEmpty | CClose

text \<open>
  Where a thread is inside a section. The first three stages are the predicates of the waits, read by read;
  \<open>AtWait\<close> and \<open>AtLeave\<close> are the two ways to give up the lock.
\<close>

datatype 'a ustage =
    TestFull | TestClosed | TestEmpty
  | EnqClosed | EnqFull | EnqEvict | EnqCountEvicted | EnqCountRejected | EnqStore
  | DeqEmpty | DeqFront | DeqRemove 'a
  | SetClosed
  | AtWait
  | AtLeave "('a qop \<times> 'a qres) option"

fun terminal :: "'a ustage \<Rightarrow> bool" where
  "terminal AtWait = True"
| "terminal (AtLeave r) = True"
| "terminal _ = False"

fun entry :: "OverflowPolicy \<Rightarrow> 'a ucall \<Rightarrow> 'a ustage" where
  "entry p (CPush v) = (if p = Block then TestFull else EnqClosed)"
| "entry p (CTryPush v) = EnqClosed"
| "entry p CPop = TestEmpty"
| "entry p CTryPop = DeqEmpty"
| "entry p CEmpty = TestEmpty"
| "entry p CClose = SetClosed"

text \<open>What a call answers when it stores, or does not store, its value, and when it takes one.\<close>

fun pushed :: "'a ucall \<Rightarrow> bool \<Rightarrow> 'a ustage" where
  "pushed (CPush v) b = AtLeave (Some (Push v, Stored b))"
| "pushed (CTryPush v) b = AtLeave (Some (TryPush v, Stored b))"
| "pushed c b = AtLeave None"

fun popped :: "'a ucall \<Rightarrow> 'a option \<Rightarrow> 'a ustage" where
  "popped CPop r = AtLeave (Some (WaitAndPop, Got r))"
| "popped CTryPop r = AtLeave (Some (TryPop, Got r))"
| "popped c r = AtLeave None"

fun value_of :: "'a ucall \<Rightarrow> 'a option" where
  "value_of (CPush v) = Some v"
| "value_of (CTryPush v) = Some v"
| "value_of _ = None"

definition stored_values :: "'a ucall \<Rightarrow> 'a list" where
  "stored_values c = (case value_of c of None \<Rightarrow> [] | Some v \<Rightarrow> [v])"

text \<open>One statement.\<close>

fun statement :: "'a ucall \<Rightarrow> 'a ustage \<Rightarrow> 'a tsq \<Rightarrow> 'a ustage \<times> 'a tsq" where
  "statement c TestFull q = (if full q then TestClosed else EnqClosed, q)"
| "statement c TestClosed q =
     (if q_closed q then (if c = CPop then DeqEmpty else EnqClosed) else AtWait, q)"
| "statement c TestEmpty q =
     (if c = CEmpty then (if q_queue q = [] then AtLeave None else AtWait)
      else if q_queue q = [] then TestClosed else DeqEmpty, q)"
| "statement c EnqClosed q = (if q_closed q then pushed c False else EnqFull, q)"
| "statement c EnqFull q =
     (if full q then (if q_policy q = DropOldest then EnqEvict else EnqCountRejected) else EnqStore, q)"
| "statement c EnqEvict q = (EnqCountEvicted, q\<lparr>q_queue := tl (q_queue q)\<rparr>)"
| "statement c EnqCountEvicted q = (EnqStore, q\<lparr>q_droppedCount := q_droppedCount q + 1\<rparr>)"
| "statement c EnqCountRejected q = (pushed c False, q\<lparr>q_droppedCount := q_droppedCount q + 1\<rparr>)"
| "statement c EnqStore q = (pushed c True, q\<lparr>q_queue := q_queue q @ stored_values c\<rparr>)"
| "statement c DeqEmpty q = (if q_queue q = [] then popped c None else DeqFront, q)"
| "statement c DeqFront q = (DeqRemove (hd (q_queue q)), q)"
| "statement c (DeqRemove v) q = (popped c (Some v), q\<lparr>q_queue := tl (q_queue q)\<rparr>)"
| "statement c SetClosed q = (AtLeave (Some (Close, Done)), q\<lparr>q_closed := True\<rparr>)"
| "statement c AtWait q = (AtWait, q)"
| "statement c (AtLeave r) q = (AtLeave r, q)"

section \<open>Threads\<close>

datatype 'a upc =
    UIdle
  | ULock "'a ucall"
  | UAt "'a ucall" "'a ustage"
  | USleep "'a ucall"
  | UNotifyNotEmpty
  | UNotifyNotFull
  | UCloseNotEmpty
  | UCloseNotFull

record 'a usys =
  u_q :: "'a tsq"
  u_owner :: "nat option"
  u_pcs :: "'a upc list"
  u_hist :: "('a qop \<times> 'a qres) list"

text \<open>What a call still has to do after it has unlocked.\<close>

fun owes :: "('a qop \<times> 'a qres) option \<Rightarrow> 'a upc" where
  "owes (Some (x, Stored True)) = UNotifyNotEmpty"
| "owes (Some (x, Got (Some v))) = UNotifyNotFull"
| "owes (Some (x, Done)) = UCloseNotEmpty"
| "owes _ = UIdle"

fun rouse_not_empty :: "'a upc \<Rightarrow> 'a upc" where
  "rouse_not_empty (USleep CPop) = ULock CPop"
| "rouse_not_empty p = p"

fun rouse_not_full :: "'a upc \<Rightarrow> 'a upc" where
  "rouse_not_full (USleep (CPush v)) = ULock (CPush v)"
| "rouse_not_full (USleep CEmpty) = ULock CEmpty"
| "rouse_not_full p = p"

definition moved :: "nat \<Rightarrow> 'a upc \<Rightarrow> 'a usys \<Rightarrow> 'a usys" where
  "moved i p s = s\<lparr>u_pcs := (u_pcs s)[i := p]\<rparr>"

text \<open>
  A wait gives up the mutex and falls asleep in one step, as a condition variable does; whoever
  wakes up has to take the mutex again and tests its predicate from the start.
\<close>

inductive ustep :: "'a usys \<Rightarrow> 'a usys \<Rightarrow> bool" where
  u_call: "i < length (u_pcs s) \<Longrightarrow> u_pcs s ! i = UIdle \<Longrightarrow> ustep s (moved i (ULock c) s)"
| u_lock: "i < length (u_pcs s) \<Longrightarrow> u_pcs s ! i = ULock c \<Longrightarrow> u_owner s = None
     \<Longrightarrow> ustep s (moved i (UAt c (entry (q_policy (u_q s)) c)) (s\<lparr>u_owner := Some i\<rparr>))"
| u_statement: "i < length (u_pcs s) \<Longrightarrow> u_pcs s ! i = UAt c st \<Longrightarrow> \<not> terminal st \<Longrightarrow> statement c st (u_q s) = (st', q')
     \<Longrightarrow> ustep s (moved i (UAt c st') (s\<lparr>u_q := q'\<rparr>))"
| u_wait: "i < length (u_pcs s) \<Longrightarrow> u_pcs s ! i = UAt c AtWait
     \<Longrightarrow> ustep s (moved i (USleep c) (s\<lparr>u_owner := None\<rparr>))"
| u_leave: "i < length (u_pcs s) \<Longrightarrow> u_pcs s ! i = UAt c (AtLeave r)
     \<Longrightarrow> ustep s (moved i (owes r) (s\<lparr>u_owner := None, u_hist := u_hist s @ (case r of None \<Rightarrow> [] | Some e \<Rightarrow> [e])\<rparr>))"
| u_notify_none: "i < length (u_pcs s) \<Longrightarrow> u_pcs s ! i = UNotifyNotEmpty \<Longrightarrow> USleep CPop \<notin> set (u_pcs s)
     \<Longrightarrow> ustep s (moved i UIdle s)"
| u_notify_one: "i < length (u_pcs s) \<Longrightarrow> u_pcs s ! i = UNotifyNotEmpty \<Longrightarrow> j < length (u_pcs s) \<Longrightarrow> u_pcs s ! j = USleep CPop
     \<Longrightarrow> ustep s (moved i UIdle (moved j (ULock CPop) s))"
| u_notify_all: "i < length (u_pcs s) \<Longrightarrow> u_pcs s ! i = UNotifyNotFull
     \<Longrightarrow> ustep s (moved i UIdle (s\<lparr>u_pcs := map rouse_not_full (u_pcs s)\<rparr>))"
| u_close_empty: "i < length (u_pcs s) \<Longrightarrow> u_pcs s ! i = UCloseNotEmpty
     \<Longrightarrow> ustep s (moved i UCloseNotFull (s\<lparr>u_pcs := map rouse_not_empty (u_pcs s)\<rparr>))"
| u_close_full: "i < length (u_pcs s) \<Longrightarrow> u_pcs s ! i = UCloseNotFull
     \<Longrightarrow> ustep s (moved i UIdle (s\<lparr>u_pcs := map rouse_not_full (u_pcs s)\<rparr>))"
| u_spurious: "i < length (u_pcs s) \<Longrightarrow> u_pcs s ! i = USleep c \<Longrightarrow> ustep s (moved i (ULock c) s)"

definition usys_init :: "nat \<Rightarrow> OverflowPolicy \<Rightarrow> nat \<Rightarrow> 'a usys \<Rightarrow> bool" where
  "usys_init c p n s \<longleftrightarrow>
     (case ThreadSafeQueue c p of
        Inl _ \<Rightarrow> False
      | Inr q \<Rightarrow> s = \<lparr>u_q = q, u_owner = None, u_pcs = replicate n UIdle, u_hist = []\<rparr>)"

section \<open>A section that is left alone\<close>

text \<open>Every section comes to its end: the number of statements it has left.\<close>

fun statements_left :: "'a ustage \<Rightarrow> nat" where
  "statements_left TestFull = 7"
| "statements_left TestEmpty = 7"
| "statements_left TestClosed = 6"
| "statements_left EnqClosed = 5"
| "statements_left EnqFull = 4"
| "statements_left EnqEvict = 3"
| "statements_left EnqCountEvicted = 2"
| "statements_left EnqCountRejected = 1"
| "statements_left EnqStore = 1"
| "statements_left DeqEmpty = 3"
| "statements_left DeqFront = 2"
| "statements_left (DeqRemove v) = 1"
| "statements_left SetClosed = 1"
| "statements_left AtWait = 0"
| "statements_left (AtLeave r) = 0"

lemma left_answers [simp]: "statements_left (pushed c b) = 0" "statements_left (popped c r) = 0"
  by (cases c; simp)+

lemma statement_left: "\<not> terminal st \<Longrightarrow> statements_left (fst (statement c st q)) < statements_left st"
  by (cases "(c, st, q)" rule: statement.cases) simp_all

function finish :: "'a ucall \<Rightarrow> 'a ustage \<Rightarrow> 'a tsq \<Rightarrow> 'a ustage \<times> 'a tsq" where
  "finish c st q = (if terminal st then (st, q) else finish c (fst (statement c st q)) (snd (statement c st q)))"
  by auto
termination
  by (relation "measure (statements_left \<circ> fst \<circ> snd)") (simp_all add: statement_left)

declare finish.simps [simp del]

lemma finish_terminal: "terminal st \<Longrightarrow> finish c st q = (st, q)"
  by (simp add: finish.simps)

lemma finish_statement: "\<not> terminal st \<Longrightarrow> statement c st q = (st', q') \<Longrightarrow> finish c st q = finish c st' q'"
  by (simp add: finish.simps [of c st])

lemmas finish_at = finish.simps [where st = TestFull] finish.simps [where st = TestClosed] finish.simps [where st = TestEmpty]
  finish.simps [where st = EnqClosed] finish.simps [where st = EnqFull] finish.simps [where st = EnqEvict]
  finish.simps [where st = EnqCountEvicted] finish.simps [where st = EnqCountRejected] finish.simps [where st = EnqStore]
  finish.simps [where st = DeqEmpty] finish.simps [where st = DeqFront] finish.simps [where st = "DeqRemove _"]
  finish.simps [where st = SetClosed] finish_terminal

text \<open>What a section is meant to do, by the sequential operations.\<close>

fun section_result :: "'a ucall \<Rightarrow> 'a tsq \<Rightarrow> 'a ustage \<times> 'a tsq" where
  "section_result (CPush v) q =
     (case push v q of Waits \<Rightarrow> (AtWait, q) | Returns (b, q') \<Rightarrow> (AtLeave (Some (Push v, Stored b)), q'))"
| "section_result (CTryPush v) q = (case tryPush v q of (b, q') \<Rightarrow> (AtLeave (Some (TryPush v, Stored b)), q'))"
| "section_result CPop q =
     (case waitAndPop q of Waits \<Rightarrow> (AtWait, q) | Returns (r, q') \<Rightarrow> (AtLeave (Some (WaitAndPop, Got r)), q'))"
| "section_result CTryPop q = (case tryPop q of (r, q') \<Rightarrow> (AtLeave (Some (TryPop, Got r)), q'))"
| "section_result CEmpty q = (case waitUntilEmpty q of Waits \<Rightarrow> (AtWait, q) | Returns _ \<Rightarrow> (AtLeave None, q))"
| "section_result CClose q = (AtLeave (Some (Close, Done)), close q)"

lemma finish_enqueue:
  assumes "c = CPush v \<or> c = CTryPush v"
  shows "finish c EnqClosed q = (case enqueueLocked v q of (b, q') \<Rightarrow> (pushed c b, q'))"
  using assms
  by (auto simp: finish_at enqueueLocked_def countDrop_def stored_values_def Let_def)

lemma finish_dequeue:
  assumes "c = CPop \<or> c = CTryPop"
  shows "finish c DeqEmpty q = (case tryPop q of (r, q') \<Rightarrow> (popped c r, q'))"
  using assms by (auto simp: finish_at tryPop_def popLockedAndNotify_def)

lemma section_correct: "finish c (entry (q_policy q) c) q = section_result c q"
proof (cases c)
  case (CPush v)
  have "finish c TestFull q = (if full q \<and> \<not> q_closed q then (AtWait, q) else finish c EnqClosed q)"
    using CPush by (simp add: finish.simps [where st = TestFull] finish.simps [where st = TestClosed] finish_terminal)
  with CPush finish_enqueue [of c v q] show ?thesis
    by (auto simp: push_def split: prod.splits)
next
  case (CTryPush v)
  with finish_enqueue [of c v q] show ?thesis by (auto simp: tryPush_def split: prod.splits)
next
  case CPop
  have "finish c TestEmpty q = (if q_queue q = [] \<and> \<not> q_closed q then (AtWait, q) else finish c DeqEmpty q)"
    using CPop by (simp add: finish.simps [where st = TestEmpty] finish.simps [where st = TestClosed] finish_terminal)
  with CPop finish_dequeue [of c q] show ?thesis
    by (auto simp: waitAndPop_def tryPop_def split: prod.splits)
next
  case CTryPop
  with finish_dequeue [of c q] show ?thesis by (auto split: prod.splits)
next
  case CEmpty
  then show ?thesis by (simp add: finish_at waitUntilEmpty_def)
next
  case CClose
  then show ?thesis by (simp add: finish_at close_def)
qed

section \<open>The statements refine the atomic sections\<close>

locale forward_simulation =
  fixes init :: "'s \<Rightarrow> bool" and step :: "'s \<Rightarrow> 's \<Rightarrow> bool"
    and ainit :: "'t \<Rightarrow> bool" and astep :: "'t \<Rightarrow> 't \<Rightarrow> bool" and related :: "'s \<Rightarrow> 't \<Rightarrow> bool"
  assumes sim_init: "init s \<Longrightarrow> \<exists>t. ainit t \<and> related s t"
    and sim_step: "step s s' \<Longrightarrow> related s t \<Longrightarrow> related s' t \<or> (\<exists>t'. astep t t' \<and> related s' t')"
begin

lemma reaches_related: "reaches init step s \<Longrightarrow> \<exists>t. reaches ainit astep t \<and> related s t"
proof (induction rule: reaches.induct)
  case (reaches_init s)
  then show ?case by (blast dest: sim_init intro: reaches.reaches_init)
next
  case (reaches_step s s')
  then show ?case by (blast dest: sim_step intro: reaches.reaches_step)
qed

end

text \<open>
  Seen from the atomic sections, a thread inside a section has not begun it; the calls that never
  wait have not even entered.
\<close>

fun seen_call :: "'a ucall \<Rightarrow> 'a pc" where
  "seen_call (CPush v) = PushEnter v"
| "seen_call CPop = PopEnter"
| "seen_call CEmpty = EmptyEnter"
| "seen_call _ = Idle"

fun seen_sleep :: "'a ucall \<Rightarrow> 'a pc" where
  "seen_sleep (CPush v) = PushSleep v"
| "seen_sleep CPop = PopSleep"
| "seen_sleep CEmpty = EmptySleep"
| "seen_sleep _ = Idle"

fun seen :: "'a upc \<Rightarrow> 'a pc" where
  "seen UIdle = Idle"
| "seen (ULock c) = seen_call c"
| "seen (UAt c st) = seen_call c"
| "seen (USleep c) = seen_sleep c"
| "seen UNotifyNotEmpty = NotifyNotEmpty"
| "seen UNotifyNotFull = NotifyNotFull"
| "seen UCloseNotEmpty = CloseNotEmpty"
| "seen UCloseNotFull = CloseNotFull"

text \<open>
  A thread is inside a section exactly if it holds the mutex. With the mutex free the fields are
  those of the atomic queue; otherwise the holder, left alone, turns the fields into what its atomic
  section makes of that queue.
\<close>

definition sections_sim :: "'a usys \<Rightarrow> 'a qsys \<Rightarrow> bool" where
  "sections_sim s t \<longleftrightarrow> sys_pcs t = map seen (u_pcs s) \<and> sys_hist t = u_hist s
     \<and> (\<forall>i < length (u_pcs s). (\<exists>c st. u_pcs s ! i = UAt c st) \<longleftrightarrow> u_owner s = Some i)
     \<and> (u_owner s = None \<longrightarrow> u_q s = sys_q t)
     \<and> (\<forall>i < length (u_pcs s). \<forall>c st. u_pcs s ! i = UAt c st \<longrightarrow> finish c st (u_q s) = section_result c (sys_q t))"

lemma sections_simI:
  assumes "sys_pcs t = map seen (u_pcs s)" and "sys_hist t = u_hist s"
    and "\<And>i. i < length (u_pcs s) \<Longrightarrow> (\<exists>c st. u_pcs s ! i = UAt c st) \<longleftrightarrow> u_owner s = Some i"
    and "u_owner s = None \<Longrightarrow> u_q s = sys_q t"
    and "\<And>i c st. i < length (u_pcs s) \<Longrightarrow> u_pcs s ! i = UAt c st \<Longrightarrow> finish c st (u_q s) = section_result c (sys_q t)"
  shows "sections_sim s t"
  using assms unfolding sections_sim_def by blast

lemma sections_simD:
  assumes "sections_sim s t"
  shows "sys_pcs t = map seen (u_pcs s)" and "sys_hist t = u_hist s"
    and "i < length (u_pcs s) \<Longrightarrow> (\<exists>c st. u_pcs s ! i = UAt c st) \<longleftrightarrow> u_owner s = Some i"
    and "u_owner s = None \<Longrightarrow> u_q s = sys_q t"
    and "i < length (u_pcs s) \<Longrightarrow> u_pcs s ! i = UAt c st \<Longrightarrow> finish c st (u_q s) = section_result c (sys_q t)"
  using assms unfolding sections_sim_def by blast+

text \<open>A thread that stays outside the sections moves, and the fields and the mutex stay.\<close>

lemma sections_sim_outside:
  assumes "sections_sim s t" and "length pcs = length (u_pcs s)"
    and "\<And>j c st. j < length pcs \<Longrightarrow> pcs ! j = UAt c st \<longleftrightarrow> u_pcs s ! j = UAt c st"
  shows "sections_sim (s\<lparr>u_pcs := pcs\<rparr>) (t\<lparr>sys_pcs := map seen pcs\<rparr>)"
  using sections_simD [OF assms(1)] assms(2,3) by (intro sections_simI) auto

lemma sections_sim_moved:
  assumes "sections_sim s t" and "i < length (u_pcs s)" and "\<forall>c st. u_pcs s ! i \<noteq> UAt c st" and "\<forall>c st. p \<noteq> UAt c st"
  shows "sections_sim (moved i p s) (t\<lparr>sys_pcs := (sys_pcs t)[i := seen p]\<rparr>)"
proof -
  have "sections_sim (s\<lparr>u_pcs := (u_pcs s)[i := p]\<rparr>) (t\<lparr>sys_pcs := map seen ((u_pcs s)[i := p])\<rparr>)"
    using assms(2-4) by (intro sections_sim_outside [OF assms(1)]) (auto simp: nth_list_update)
  with sections_simD(1) [OF assms(1)] show ?thesis by (simp add: moved_def map_update)
qed

text \<open>A thread gives up the mutex; the fields are those of the atomic queue.\<close>

lemma sections_sim_release:
  assumes "sections_sim s t" and "i < length (u_pcs s)" and "u_pcs s ! i = UAt c st" and "\<forall>c st. p \<noteq> UAt c st"
    and "sys_pcs t' = (sys_pcs t)[i := seen p]" and "sys_hist t' = h" and "sys_q t' = u_q s"
  shows "sections_sim (moved i p (s\<lparr>u_owner := None, u_hist := h\<rparr>)) t'"
proof -
  have own: "u_owner s = Some i" using sections_simD(3) [OF assms(1,2)] assms(3) by blast
  have none: "\<forall>c st. (u_pcs s)[i := p] ! j \<noteq> UAt c st" if "j < length (u_pcs s)" for j
    using sections_simD(3) [OF assms(1) that] own assms(4) that by (auto simp: nth_list_update)
  show ?thesis
    using none assms(2,5-7) sections_simD(1) [OF assms(1)] by (intro sections_simI) (auto simp: moved_def map_update)
qed

lemma seen_nth: "sections_sim s t \<Longrightarrow> i < length (u_pcs s) \<Longrightarrow> sys_pcs t ! i = seen (u_pcs s ! i) \<and> i < length (sys_pcs t)"
  using sections_simD(1) [of s t] by simp

lemma sim_call:
  assumes "sections_sim s t" and "i < length (u_pcs s)" and "u_pcs s ! i = UIdle"
  shows "sections_sim (moved i (ULock c) s) t \<or> (\<exists>t'. qstep t t' \<and> sections_sim (moved i (ULock c) s) t')"
proof -
  have sim: "sections_sim (moved i (ULock c) s) (goto i (seen_call c) t)"
    using sections_sim_moved [OF assms(1,2), of "ULock c"] assms(3) by (simp add: goto_def)
  have i: "i < length (sys_pcs t)" "sys_pcs t ! i = Idle" using seen_nth [OF assms(1,2)] assms(3) by simp_all
  have "goto i (seen_call c) t = t \<or> qstep t (goto i (seen_call c) t)"
    using i list_update_id [of "sys_pcs t" i] qenv.call_push [OF i] qenv.call_pop [OF i] qenv.call_empty [OF i]
    by (cases c) (simp_all add: qstep_def goto_def)
  with sim show ?thesis by metis
qed

lemma sim_lock:
  assumes "sections_sim s t" and "i < length (u_pcs s)" and "u_pcs s ! i = ULock c" and "u_owner s = None"
  shows "sections_sim (moved i (UAt c (entry (q_policy (u_q s)) c)) (s\<lparr>u_owner := Some i\<rparr>)) t"
proof -
  have none: "\<forall>c st. u_pcs s ! j \<noteq> UAt c st" if "j < length (u_pcs s)" for j
    using sections_simD(3) [OF assms(1) that] assms(4) by simp
  show ?thesis
    using none assms sections_simD [OF assms(1)]
    by (intro sections_simI)
      (auto simp: moved_def map_update nth_list_update section_correct list_eq_iff_nth_eq split: if_splits)
qed

lemma sim_statement:
  assumes "sections_sim s t" and "i < length (u_pcs s)" and "u_pcs s ! i = UAt c st" and "\<not> terminal st"
    and "statement c st (u_q s) = (st', q')"
  shows "sections_sim (moved i (UAt c st') (s\<lparr>u_q := q'\<rparr>)) t"
proof -
  have own: "u_owner s = Some i" using sections_simD(3) [OF assms(1,2)] assms(3) by blast
  have none: "\<forall>c st. u_pcs s ! j \<noteq> UAt c st" if "j < length (u_pcs s)" "j \<noteq> i" for j
    using sections_simD(3) [OF assms(1) that(1)] own that(2) by auto
  have fin: "finish c st' q' = section_result c (sys_q t)"
    using sections_simD(5) [OF assms(1-3)] finish_statement [OF assms(4,5)] by simp
  show ?thesis
  proof (rule sections_simI)
    show "sys_pcs t = map seen (u_pcs (moved i (UAt c st') (s\<lparr>u_q := q'\<rparr>)))"
      using assms(2,3) sections_simD(1) [OF assms(1)] by (simp add: moved_def map_update list_eq_iff_nth_eq nth_list_update)
  qed (use assms(2) own none fin sections_simD(2) [OF assms(1)] in
      \<open>auto simp: moved_def nth_list_update split: if_splits\<close>)
qed

text \<open>The atomic section of a call, and what it does.\<close>

fun atomic_section :: "nat \<Rightarrow> 'a ucall \<Rightarrow> 'a qsys \<Rightarrow> 'a qsys" where
  "atomic_section i (CPush v) t = push_section i v t"
| "atomic_section i (CTryPush v) t = tryPush_section i v t"
| "atomic_section i CPop t = waitAndPop_section i t"
| "atomic_section i CTryPop t = tryPop_section i t"
| "atomic_section i CEmpty t = waitUntilEmpty_section i t"
| "atomic_section i CClose t = close_section i t"

lemma atomic_section_step:
  "i < length (sys_pcs t) \<Longrightarrow> sys_pcs t ! i = seen_call c \<Longrightarrow> qstep t (atomic_section i c t)"
  by (cases c) (simp_all add: qstep_def qrun.intros qenv.intros)

lemma atomic_section_waits:
  "section_result c (sys_q t) = (AtWait, q) \<Longrightarrow> q = sys_q t \<and> atomic_section i c t = goto i (seen_sleep c) t"
  by (cases c) (auto simp: section_defs split: outcome.splits prod.splits)

lemma atomic_section_leaves:
  assumes "section_result c (sys_q t) = (AtLeave r, q)"
  shows "atomic_section i c t = t\<lparr>sys_q := q, sys_pcs := (sys_pcs t)[i := seen (owes r)],
    sys_hist := sys_hist t @ (case r of None \<Rightarrow> [] | Some e \<Rightarrow> [e])\<rparr>"
proof -
  have answers: "seen (owes (Some (x, Stored b))) = (if b then NotifyNotEmpty else Idle)"
    "seen (owes (Some (x, Got v))) = (if v = None then Idle else NotifyNotFull)"
    "seen (owes (Some (x, Done))) = CloseNotEmpty" for x :: "'a qop" and b v
    by (cases b; simp) (cases v; simp)+
  show ?thesis
    using assms by (cases c) (auto simp: section_defs answers split: outcome.splits prod.splits)
qed

lemma sim_wait:
  assumes "sections_sim s t" and "i < length (u_pcs s)" and "u_pcs s ! i = UAt c AtWait"
  shows "\<exists>t'. qstep t t' \<and> sections_sim (moved i (USleep c) (s\<lparr>u_owner := None\<rparr>)) t'"
proof -
  have res: "section_result c (sys_q t) = (AtWait, u_q s)"
    using sections_simD(5) [OF assms] by (simp add: finish_terminal)
  have i: "i < length (sys_pcs t)" "sys_pcs t ! i = seen_call c" using seen_nth [OF assms(1,2)] assms(3) by simp_all
  have q: "u_q s = sys_q t" and step: "qstep t (goto i (seen_sleep c) t)"
    using atomic_section_waits [OF res, of i] atomic_section_step [OF i] by simp_all
  have "sections_sim (moved i (USleep c) (s\<lparr>u_owner := None, u_hist := u_hist s\<rparr>)) (goto i (seen_sleep c) t)"
    using sections_simD(2) [OF assms(1)] q by (intro sections_sim_release [OF assms]) (simp_all add: goto_def)
  with step show ?thesis by auto
qed

lemma sim_leave:
  assumes "sections_sim s t" and "i < length (u_pcs s)" and "u_pcs s ! i = UAt c (AtLeave r)"
  shows "\<exists>t'. qstep t t'
    \<and> sections_sim (moved i (owes r) (s\<lparr>u_owner := None, u_hist := u_hist s @ (case r of None \<Rightarrow> [] | Some e \<Rightarrow> [e])\<rparr>)) t'"
proof -
  let ?t = "t\<lparr>sys_q := u_q s, sys_pcs := (sys_pcs t)[i := seen (owes r)],
    sys_hist := sys_hist t @ (case r of None \<Rightarrow> [] | Some e \<Rightarrow> [e])\<rparr>"
  have res: "section_result c (sys_q t) = (AtLeave r, u_q s)"
    using sections_simD(5) [OF assms] by (simp add: finish_terminal)
  have i: "i < length (sys_pcs t)" "sys_pcs t ! i = seen_call c" using seen_nth [OF assms(1,2)] assms(3) by simp_all
  have "qstep t ?t"
    using atomic_section_leaves [OF res, of i] atomic_section_step [OF i] by simp
  moreover have "\<forall>c st. owes r \<noteq> UAt c st" by (cases r rule: owes.cases) simp_all
  ultimately show ?thesis
    using sections_simD(2) [OF assms(1)] by (intro exI [of _ ?t] conjI sections_sim_release [OF assms]) simp_all
qed

text \<open>Notifications and wake-ups act on sleepers only.\<close>

lemma wake_call [simp]: "wake_not_empty (seen_call c) = seen_call c" "wake_not_full (seen_call c) = seen_call c"
  by (cases c; simp)+

lemma seen_rouse: "seen (rouse_not_empty p) = wake_not_empty (seen p)" "seen (rouse_not_full p) = wake_not_full (seen p)"
proof -
  have "seen (rouse_not_empty (USleep c)) = wake_not_empty (seen (USleep c))"
    "seen (rouse_not_full (USleep c)) = wake_not_full (seen (USleep c))" for c :: "'a ucall"
    by (cases c; simp)+
  then show "seen (rouse_not_empty p) = wake_not_empty (seen p)" "seen (rouse_not_full p) = wake_not_full (seen p)"
    by (cases p; simp)+
qed

lemma seen_pop_sleeper: "is_PopSleep (seen p) \<longleftrightarrow> p = USleep CPop"
proof -
  have "\<not> is_PopSleep (seen_call c)" "is_PopSleep (seen_sleep c) \<longleftrightarrow> c = CPop" for c :: "'a ucall" by (cases c; simp)+
  then show ?thesis by (cases p) simp_all
qed

lemma rouse_at [simp]:
  "rouse_not_empty p = UAt c st \<longleftrightarrow> p = UAt c st" "rouse_not_full p = UAt c st \<longleftrightarrow> p = UAt c st"
  by (cases p rule: rouse_not_empty.cases; simp) (cases p rule: rouse_not_full.cases; simp)

lemma sections_sim_roused:
  assumes "sections_sim s t" and "\<And>p c st. f p = UAt c st \<longleftrightarrow> p = UAt c st" and "\<And>p. seen (f p) = g (seen p)"
  shows "sections_sim (s\<lparr>u_pcs := map f (u_pcs s)\<rparr>) (t\<lparr>sys_pcs := map g (sys_pcs t)\<rparr>)"
  using sections_sim_outside [OF assms(1), of "map f (u_pcs s)"] assms(2,3) sections_simD(1) [OF assms(1)]
  by (simp add: comp_def)

lemma sim_notify_all:
  assumes "sections_sim s t" and "i < length (u_pcs s)" and "\<And>p. seen (f p) = g (seen p)"
    and "\<And>p c st. f p = UAt c st \<longleftrightarrow> p = UAt c st" and "\<forall>c st. u_pcs s ! i \<noteq> UAt c st" and "\<forall>c st. p \<noteq> UAt c st"
  shows "sections_sim (moved i p (s\<lparr>u_pcs := map f (u_pcs s)\<rparr>)) (goto i (seen p) (t\<lparr>sys_pcs := map g (sys_pcs t)\<rparr>))"
  using sections_sim_moved [OF sections_sim_roused [OF assms(1,4,3)], of i p] assms(2,4-6) by (simp add: goto_def)

lemma sim_notify_one:
  assumes "sections_sim s t" and "i < length (u_pcs s)" and "u_pcs s ! i = UNotifyNotEmpty"
    and "j < length (u_pcs s)" and "u_pcs s ! j = USleep CPop"
  shows "\<exists>t'. qstep t t' \<and> sections_sim (moved i UIdle (moved j (ULock CPop) s)) t'"
proof -
  have "sections_sim (moved j (ULock CPop) s) (t\<lparr>sys_pcs := (sys_pcs t)[j := PopEnter]\<rparr>)"
    using sections_sim_moved [OF assms(1,4), of "ULock CPop"] assms(5) by simp
  from sections_sim_moved [OF this, of i UIdle] assms
  have "sections_sim (moved i UIdle (moved j (ULock CPop) s)) (t\<lparr>sys_pcs := (sys_pcs t)[j := PopEnter, i := Idle]\<rparr>)"
    by (auto simp: moved_def nth_list_update)
  moreover have "qstep t (t\<lparr>sys_pcs := (sys_pcs t)[j := PopEnter, i := Idle]\<rparr>)"
    using qrun.notify_empty [of i t "Some j"] seen_nth [OF assms(1,2)] seen_nth [OF assms(1,4)] assms(3,5)
    by (simp add: qstep_def goto_def notify_one_choice_def notify_one_not_empty_def)
  ultimately show ?thesis by blast
qed

lemma sim_notify_none:
  assumes "sections_sim s t" and "i < length (u_pcs s)" and "u_pcs s ! i = UNotifyNotEmpty" and "USleep CPop \<notin> set (u_pcs s)"
  shows "\<exists>t'. qstep t t' \<and> sections_sim (moved i UIdle s) t'"
proof -
  have "\<not> list_ex is_PopSleep (sys_pcs t)"
    using assms(4) sections_simD(1) [OF assms(1)] by (auto simp: list_ex_iff seen_pop_sleeper)
  then have "qstep t (goto i Idle t)"
    using qrun.notify_empty [of i t None] seen_nth [OF assms(1,2)] assms(3)
    by (simp add: qstep_def notify_one_choice_def notify_one_not_empty_def)
  moreover have "sections_sim (moved i UIdle s) (goto i Idle t)"
    using sections_sim_moved [OF assms(1,2), of UIdle] assms(3) by (simp add: goto_def)
  ultimately show ?thesis by blast
qed

lemma sim_spurious:
  assumes "sections_sim s t" and "i < length (u_pcs s)" and "u_pcs s ! i = USleep c"
  shows "sections_sim (moved i (ULock c) s) t \<or> (\<exists>t'. qstep t t' \<and> sections_sim (moved i (ULock c) s) t')"
proof -
  have sim: "sections_sim (moved i (ULock c) s) (t\<lparr>sys_pcs := (sys_pcs t)[i := seen_call c]\<rparr>)"
    using sections_sim_moved [OF assms(1,2), of "ULock c"] assms(3) by simp
  have i: "i < length (sys_pcs t)" "sys_pcs t ! i = seen_sleep c" using seen_nth [OF assms(1,2)] assms(3) by simp_all
  have "t\<lparr>sys_pcs := (sys_pcs t)[i := seen_call c]\<rparr> = t \<or> qstep t (t\<lparr>sys_pcs := (sys_pcs t)[i := seen_call c]\<rparr>)"
    using i list_update_id [of "sys_pcs t" i] qenv.spurious_empty [OF i(1)] qenv.spurious_full [OF i(1)]
    by (cases c) (simp_all add: qstep_def)
  with sim show ?thesis by metis
qed

lemma sections_sim_step:
  assumes "ustep s s'" and "sections_sim s t"
  shows "sections_sim s' t \<or> (\<exists>t'. qstep t t' \<and> sections_sim s' t')"
  using assms
proof (induction rule: ustep.induct)
  case (u_notify_all i s)
  then have "qstep t (goto i Idle (t\<lparr>sys_pcs := map wake_not_full (sys_pcs t)\<rparr>))"
    using qrun.notify_full [of i t] seen_nth [of s t i] by (simp add: qstep_def notify_all_not_full_def)
  with sim_notify_all [of s t i rouse_not_full wake_not_full UIdle] u_notify_all seen_rouse show ?case by fastforce
next
  case (u_close_empty i s)
  then have "qstep t (goto i CloseNotFull (t\<lparr>sys_pcs := map wake_not_empty (sys_pcs t)\<rparr>))"
    using qrun.close_empty [of i t] seen_nth [of s t i] by (simp add: qstep_def notify_all_not_empty_def)
  with sim_notify_all [of s t i rouse_not_empty wake_not_empty UCloseNotFull] u_close_empty seen_rouse show ?case by fastforce
next
  case (u_close_full i s)
  then have "qstep t (goto i Idle (t\<lparr>sys_pcs := map wake_not_full (sys_pcs t)\<rparr>))"
    using qrun.close_full [of i t] seen_nth [of s t i] by (simp add: qstep_def notify_all_not_full_def)
  with sim_notify_all [of s t i rouse_not_full wake_not_full UIdle] u_close_full seen_rouse show ?case by fastforce
qed (simp_all add: sim_call sim_lock sim_statement sim_wait sim_leave sim_notify_one sim_notify_none sim_spurious)

interpretation sections: forward_simulation "usys_init c p n" ustep "qsys_init c p n" qstep sections_sim for c p n
proof unfold_locales
  show "\<exists>t. qsys_init c p n t \<and> sections_sim s t" if "usys_init c p n s" for s :: "'a usys"
    using that by (auto simp: usys_init_def qsys_init_def sections_sim_def split: sum.splits)
qed (rule sections_sim_step)

section \<open>Properties\<close>

text \<open>C17: The queue's calls linearise, shown on the statements of the code. Whatever the interleaving of the
  statements of any number of threads, spurious wake-ups included, at most one thread is inside a
  critical section, the one that holds the mutex; the calls that have returned, in the order in which they gave up
  the mutex, form a history of the sequential queue with exactly the results they returned; with the
  mutex free the fields are the state after that history, and while it is held the holder, left
  alone, does to the fields what the sequential operation does to that state.\<close>

theorem concurrent_calls_linearise:
  assumes "reaches (usys_init c p n) ustep s"
  shows "\<exists>q0 q. ThreadSafeQueue c p = Inr q0
    \<and> run_ops (map fst (u_hist s)) q0 = Some (u_hist s, q)
    \<and> (u_owner s = None \<longrightarrow> u_q s = q)
    \<and> (\<forall>i < length (u_pcs s). \<forall>x st. u_pcs s ! i = UAt x st \<longrightarrow>
         u_owner s = Some i \<and> finish x st (u_q s) = section_result x q)"
proof -
  obtain t where t: "reaches (qsys_init c p n) qstep t" "sections_sim s t"
    using sections.reaches_related [OF assms] by blast
  obtain q0 where "ThreadSafeQueue c p = Inr q0" "run_ops (map fst (sys_hist t)) q0 = Some (sys_hist t, sys_q t)"
    using qmon.reaches_invar [OF t(1)] by (auto simp: qsys_inv_def)
  with sections_simD [OF t(2)] show ?thesis by (intro exI [of _ q0] exI [of _ "sys_q t"]) auto
qed

text \<open>
  A schedule of two threads: the first stores a value while the second wants the mutex; then the
  second is in the middle of taking that value while the first still owes a notification.
\<close>

definition two_threads :: "nat tsq \<Rightarrow> nat option \<Rightarrow> nat upc \<Rightarrow> nat upc \<Rightarrow> (nat qop \<times> nat qres) list \<Rightarrow> nat usys" where
  "two_threads q own a b h = \<lparr>u_q = q, u_owner = own, u_pcs = [a, b], u_hist = h\<rparr>"

abbreviation reached :: "nat usys \<Rightarrow> bool" where
  "reached \<equiv> reaches (usys_init 1 Block 2) ustep"

lemma two_threads_steps:
  "ustep (two_threads q own UIdle b h) (two_threads q own (ULock c) b h)"
  "ustep (two_threads q own a UIdle h) (two_threads q own a (ULock c) h)"
  "ustep (two_threads q None (ULock c) b h) (two_threads q (Some 0) (UAt c (entry (q_policy q) c)) b h)"
  "ustep (two_threads q None a (ULock c) h) (two_threads q (Some 1) a (UAt c (entry (q_policy q) c)) h)"
  "\<not> terminal st \<Longrightarrow> ustep (two_threads q own (UAt c st) b h)
     (two_threads (snd (statement c st q)) own (UAt c (fst (statement c st q))) b h)"
  "\<not> terminal st \<Longrightarrow> ustep (two_threads q own a (UAt c st) h)
     (two_threads (snd (statement c st q)) own a (UAt c (fst (statement c st q))) h)"
  "ustep (two_threads q own (UAt c (AtLeave (Some e))) b h) (two_threads q None (owes (Some e)) b (h @ [e]))"
  using u_call [of 0 "two_threads q own UIdle b h" c] u_call [of 1 "two_threads q own a UIdle h" c]
    u_lock [of 0 "two_threads q None (ULock c) b h" c] u_lock [of 1 "two_threads q None a (ULock c) h" c]
    u_statement [of 0 "two_threads q own (UAt c st) b h" c st] u_statement [of 1 "two_threads q own a (UAt c st) h" c st]
    u_leave [of 0 "two_threads q own (UAt c (AtLeave (Some e))) b h" c "Some e"]
  by (simp_all add: two_threads_def moved_def)

theorem concurrent_calls_linearise_witness:
  "\<exists>s :: nat usys. reaches (usys_init 1 Block 2) ustep s \<and> u_hist s = [(Push 5, Stored True)]
     \<and> u_pcs s = [UNotifyNotEmpty, UAt CPop DeqFront]
     \<and> u_owner s = Some 1 \<and> finish CPop DeqFront (u_q s) = (AtLeave (Some (WaitAndPop, Got (Some 5))), (u_q s)\<lparr>q_queue := []\<rparr>)"
proof -
  let ?q = "\<lparr>q_queue = [], q_capacity = 1, q_policy = Block, q_droppedCount = 0, q_closed = False\<rparr> :: nat tsq"
  let ?s = "two_threads (?q\<lparr>q_queue := [5]\<rparr>) (Some 1) UNotifyNotEmpty (UAt CPop DeqFront) [(Push 5, Stored True)]"
  note steps = two_threads_steps
  have "reached (two_threads ?q None UIdle UIdle [])"
    by (rule reaches_init) (simp add: usys_init_def ThreadSafeQueue_def two_threads_def eval_nat_numeral)
  from reaches_step [OF this steps(1) [where c = "CPush 5"]] have "reached (two_threads ?q None (ULock (CPush 5)) UIdle [])" .
  from reaches_step [OF this steps(2) [where c = CPop]] have "reached (two_threads ?q None (ULock (CPush 5)) (ULock CPop) [])" .
  from reaches_step [OF this steps(3)] have "reached (two_threads ?q (Some 0) (UAt (CPush 5) TestFull) (ULock CPop) [])" by simp
  from reaches_step [OF this steps(5)] have "reached (two_threads ?q (Some 0) (UAt (CPush 5) EnqClosed) (ULock CPop) [])" by (simp add: full_def)
  from reaches_step [OF this steps(5)] have "reached (two_threads ?q (Some 0) (UAt (CPush 5) EnqFull) (ULock CPop) [])" by simp
  from reaches_step [OF this steps(5)] have "reached (two_threads ?q (Some 0) (UAt (CPush 5) EnqStore) (ULock CPop) [])" by (simp add: full_def)
  from reaches_step [OF this steps(5)] have "reached (two_threads (?q\<lparr>q_queue := [5]\<rparr>) (Some 0)
      (UAt (CPush 5) (AtLeave (Some (Push 5, Stored True)))) (ULock CPop) [])" by (simp add: stored_values_def)
  from reaches_step [OF this steps(7)] have "reached (two_threads (?q\<lparr>q_queue := [5]\<rparr>) None UNotifyNotEmpty (ULock CPop) [(Push 5, Stored True)])"
    by simp
  from reaches_step [OF this steps(4)] have "reached (two_threads (?q\<lparr>q_queue := [5]\<rparr>) (Some 1) UNotifyNotEmpty (UAt CPop TestEmpty) [(Push 5, Stored True)])"
    by simp
  from reaches_step [OF this steps(6)] have "reached (two_threads (?q\<lparr>q_queue := [5]\<rparr>) (Some 1) UNotifyNotEmpty (UAt CPop DeqEmpty) [(Push 5, Stored True)])"
    by simp
  from reaches_step [OF this steps(6)] have r: "reached ?s" by simp
  from concurrent_calls_linearise [OF r] have "finish CPop DeqFront (u_q ?s) = (AtLeave (Some (WaitAndPop, Got (Some 5))), (u_q ?s)\<lparr>q_queue := []\<rparr>)
      \<and> u_owner ?s = Some 1"
    by (auto simp: two_threads_def ThreadSafeQueue_def finish_at full_def push_def waitAndPop_def popLockedAndNotify_def All_less_Suc eval_nat_numeral)
  with r show ?thesis by (intro exI [of _ ?s]) (simp add: two_threads_def)
qed

end
