(* ===== verification/Radar_Clock.thy ===== *)
theory Radar_Clock
  imports Radar_Prelude
begin

text \<open>
  The time sources of \<^verbatim>\<open>include/radar/clock.hpp\<close> and \<^verbatim>\<open>src/clock.cpp\<close>. A component that holds a
  \<^verbatim>\<open>const Clock&\<close> takes the readings of \<^verbatim>\<open>now()\<close> as arguments. \<^verbatim>\<open>SteadyClock\<close> reads the system's
  monotonic clock, so its readings are a parameter; \<^verbatim>\<open>ManualClock\<close> is a 64-bit atomic
  counter of nanoseconds, whose \<^verbatim>\<open>fetch_add\<close> wraps like every atomic integer.
\<close>

section \<open>The manual clock\<close>

record manual_clock =
  nanos :: "64 word"

text \<open>The library's clock counts nanoseconds, so both casts of the source are the identity.\<close>

definition toNanos :: "time_point \<Rightarrow> int" where
  "toNanos t = t"

definition ManualClock :: "time_point \<Rightarrow> manual_clock" where
  "ManualClock start = \<lparr>nanos = word_of_int (toNanos start)\<rparr>"

definition manual_now :: "manual_clock \<Rightarrow> time_point" where
  "manual_now c = sint (nanos c)"

definition advance :: "duration \<Rightarrow> manual_clock \<Rightarrow> manual_clock" where
  "advance delta c = c\<lparr>nanos := nanos c + word_of_int delta\<rparr>"

definition int64_range :: "int \<Rightarrow> bool" where
  "int64_range t \<longleftrightarrow> - (2 ^ 63) \<le> t \<and> t < 2 ^ 63"

section \<open>Readings of a steady clock\<close>

text \<open>
  What the program relies on of a monotonic clock: its successive readings never go back.
\<close>

definition monotonic :: "time_point list \<Rightarrow> bool" where
  "monotonic ts \<longleftrightarrow> sorted ts"

section \<open>Properties\<close>

lemma sint_of_int64: "int64_range t \<Longrightarrow> sint (word_of_int t :: 64 word) = t"
  by (simp add: int64_range_def signed_of_int signed_take_bit_int_eq_self)

lemma fold_advance_nanos:
  "nanos (fold advance ds c) = nanos c + word_of_int (sum_list ds)"
  by (induction ds arbitrary: c) (simp_all add: advance_def algebra_simps)

text \<open>The test clock is exact: after any sequence of advances it reads the start plus their
  sum, as long as that is a 64-bit time point, even if the running total left that range in
  between.\<close>

theorem manual_clock_reads_sum:
  assumes "int64_range (start + sum_list ds)"
  shows "manual_now (fold advance ds (ManualClock start)) = start + sum_list ds"
proof -
  have "nanos (fold advance ds (ManualClock start)) = word_of_int (start + sum_list ds)"
    by (simp add: fold_advance_nanos ManualClock_def toNanos_def)
  then show ?thesis using sint_of_int64 [OF assms] by (simp add: manual_now_def)
qed

theorem manual_clock_reads_sum_witness:
  "manual_now (fold advance [of_ms 100, of_ms 50] (ManualClock 5)) = 150000005"
proof -
  have "int64_range (5 + sum_list [of_ms 100, of_ms 50])"
    by (simp add: int64_range_def of_ms_def ns_per_ms_def)
  from manual_clock_reads_sum [OF this] show ?thesis by (simp add: of_ms_def ns_per_ms_def)
qed

end
