(* ===== verification/Radar_Exceptions.thy ===== *)
theory Radar_Exceptions
  imports Radar_Prelude
begin

text \<open>
  The exception hierarchy of \<^verbatim>\<open>include/radar/exceptions.hpp\<close> and \<^verbatim>\<open>src/exceptions.cpp\<close>, with the
  other exceptions the program can see: those of the standard library (caught as
  \<^verbatim>\<open>std::exception\<close>) and those of any other type. The text of an error number,
  \<^verbatim>\<open>std::generic_category().message\<close>, comes from the C library and is a parameter.
\<close>

section \<open>Exceptions\<close>

datatype exn =
    RadarException string
  | ConfigException string
  | SystemCallException string string int
  | StdException string
  | OtherException

fun sys_call :: "exn \<Rightarrow> string" where
  "sys_call (SystemCallException msg call err) = call"
| "sys_call _ = []"

fun sys_errno :: "exn \<Rightarrow> int" where
  "sys_errno (SystemCallException msg call err) = err"
| "sys_errno _ = 0"

fun what :: "exn \<Rightarrow> string" where
  "what (RadarException m) = m"
| "what (ConfigException m) = m"
| "what (SystemCallException m c e) = m"
| "what (StdException m) = m"
| "what OtherException = []"

text \<open>Which handlers catch it: \<^verbatim>\<open>catch (const RadarException&)\<close>, \<^verbatim>\<open>catch (const std::exception&)\<close>.\<close>

fun is_radar_exception :: "exn \<Rightarrow> bool" where
  "is_radar_exception (RadarException m) = True"
| "is_radar_exception (ConfigException m) = True"
| "is_radar_exception (SystemCallException m c e) = True"
| "is_radar_exception _ = False"

definition is_std_exception :: "exn \<Rightarrow> bool" where
  "is_std_exception e \<longleftrightarrow> e \<noteq> OtherException"

definition buildSystemCallMessage :: "(int \<Rightarrow> string) \<Rightarrow> string \<Rightarrow> int \<Rightarrow> string" where
  "buildSystemCallMessage message call err =
     ''system call '' @ [CHR 0x27] @ call @ [CHR 0x27] @ '' failed: '' @ message err
       @ '' (errno '' @ string_of_int err @ '')''"

definition system_call_exception :: "(int \<Rightarrow> string) \<Rightarrow> string \<Rightarrow> int \<Rightarrow> exn" where
  "system_call_exception message call err =
     SystemCallException (buildSystemCallMessage message call err) call err"

section \<open>Properties\<close>

lemma system_call_exception_fields [simp]:
  "sys_call (system_call_exception msg c e) = c" "sys_errno (system_call_exception msg c e) = e"
  "is_radar_exception (system_call_exception msg c e)"
  "is_std_exception (system_call_exception msg c e)"
  "what (system_call_exception msg c e) = buildSystemCallMessage msg c e"
  by (simp_all add: system_call_exception_def is_std_exception_def)

lemma radar_exception_std: "is_radar_exception e \<Longrightarrow> is_std_exception e"
  by (cases e) (simp_all add: is_std_exception_def)

end
