(* ===== verification/Managed_Thread.thy ===== *)
theory Managed_Thread
  imports Radar_Exceptions
begin

text \<open>
  The joining thread owner of \<^verbatim>\<open>include/radar/managed_thread.hpp\<close> and \<^verbatim>\<open>src/managed_thread.cpp\<close>.
  The \<^verbatim>\<open>std::thread\<close> inside is modelled with the failures the standard gives it: destroying or
  assigning over a joinable one terminates the program, joining one that is not joinable throws,
  and joining a thread that still runs blocks. Which threads have finished is a parameter of every
  operation, since it is the threads that decide.
\<close>

section \<open>std::thread\<close>

datatype 'r call = Gives 'r | Blocks | Throws exn | Terminates

type_synonym std_thread = "thread_id option"

record thread_world =
  started :: nat
  joined :: "thread_id list"

definition thread_joinable :: "std_thread \<Rightarrow> bool" where
  "thread_joinable th \<longleftrightarrow> th \<noteq> None"

definition thread_start :: "thread_world \<Rightarrow> std_thread \<times> thread_world" where
  "thread_start w = (Some (started w), w\<lparr>started := Suc (started w)\<rparr>)"

definition thread_join ::
    "(thread_id \<Rightarrow> bool) \<Rightarrow> std_thread \<Rightarrow> thread_world \<Rightarrow> (std_thread \<times> thread_world) call" where
  "thread_join finished th w =
     (case th of
        None \<Rightarrow> Throws (StdException ''Invalid argument'')
      | Some t \<Rightarrow> if finished t then Gives (None, w\<lparr>joined := joined w @ [t]\<rparr>) else Blocks)"

definition thread_assign :: "std_thread \<Rightarrow> std_thread \<Rightarrow> (std_thread \<times> std_thread) call" where
  "thread_assign this other = (if thread_joinable this then Terminates else Gives (other, None))"

definition thread_destroy :: "std_thread \<Rightarrow> unit call" where
  "thread_destroy th = (if thread_joinable th then Terminates else Gives ())"

fun bind_call :: "'a call \<Rightarrow> ('a \<Rightarrow> 'b call) \<Rightarrow> 'b call" where
  "bind_call (Gives a) f = f a"
| "bind_call Blocks f = Blocks"
| "bind_call (Throws e) f = Throws e"
| "bind_call Terminates f = Terminates"

section \<open>ManagedThread\<close>

text \<open>The objects live in a store, because a move assignment compares addresses.\<close>

type_synonym address = nat

record mt_state =
  objs :: "address \<Rightarrow> std_thread option"
  world :: thread_world

definition managed_join :: "(thread_id \<Rightarrow> bool) \<Rightarrow> std_thread \<Rightarrow> thread_world
    \<Rightarrow> (std_thread \<times> thread_world) call" where
  "managed_join finished th w =
     (if thread_joinable th then thread_join finished th w else Gives (th, w))"

datatype mt_op =
    Default address
  | Start address
  | MoveConstruct address address
  | MoveAssign address address
  | Join address
  | Destroy address

text \<open>
  A constructor needs a fresh address, every other operation an existing object; \<open>None\<close> is a call
  the language does not allow.
\<close>

definition set_obj :: "address \<Rightarrow> std_thread \<Rightarrow> mt_state \<Rightarrow> mt_state" where
  "set_obj a th s = s\<lparr>objs := (objs s)(a := Some th)\<rparr>"

definition managed_assign ::
    "(thread_id \<Rightarrow> bool) \<Rightarrow> address \<Rightarrow> address \<Rightarrow> std_thread \<Rightarrow> std_thread \<Rightarrow> mt_state \<Rightarrow> mt_state call" where
  "managed_assign finished this other th th' s =
     (if this \<noteq> other then
        bind_call (managed_join finished th (world s)) (\<lambda>(th1, w).
          bind_call (thread_assign th1 th') (\<lambda>(th2, th'').
            Gives (set_obj other th'' (set_obj this th2 (s\<lparr>world := w\<rparr>)))))
      else Gives s)"

definition managed_destroy :: "(thread_id \<Rightarrow> bool) \<Rightarrow> address \<Rightarrow> std_thread \<Rightarrow> mt_state \<Rightarrow> mt_state call" where
  "managed_destroy finished a th s =
     bind_call (managed_join finished th (world s)) (\<lambda>(th1, w).
       bind_call (thread_destroy th1) (\<lambda>_. Gives (s\<lparr>objs := (objs s)(a := None), world := w\<rparr>)))"

fun exec_mt :: "(thread_id \<Rightarrow> bool) \<Rightarrow> mt_op \<Rightarrow> mt_state \<Rightarrow> mt_state call option" where
  "exec_mt fin (Default a) s = (if objs s a = None then Some (Gives (set_obj a None s)) else None)"
| "exec_mt fin (Start a) s =
     (if objs s a = None
      then (let (th, w) = thread_start (world s) in Some (Gives (set_obj a th (s\<lparr>world := w\<rparr>))))
      else None)"
| "exec_mt fin (MoveConstruct a b) s =
     (case (objs s a, objs s b) of
        (None, Some th) \<Rightarrow> Some (Gives (set_obj b None (set_obj a th s)))
      | _ \<Rightarrow> None)"
| "exec_mt fin (MoveAssign a b) s =
     (case (objs s a, objs s b) of
        (Some th, Some th') \<Rightarrow> Some (managed_assign fin a b th th' s)
      | _ \<Rightarrow> None)"
| "exec_mt fin (Join a) s =
     map_option (\<lambda>th. bind_call (managed_join fin th (world s)) (\<lambda>(th1, w).
       Gives (set_obj a th1 (s\<lparr>world := w\<rparr>)))) (objs s a)"
| "exec_mt fin (Destroy a) s = map_option (\<lambda>th. managed_destroy fin a th s) (objs s a)"

definition mt_empty :: mt_state where
  "mt_empty = \<lparr>objs = (\<lambda>_. None), world = \<lparr>started = 0, joined = []\<rparr>\<rparr>"

section \<open>Ownership\<close>

definition owns :: "mt_state \<Rightarrow> address \<Rightarrow> thread_id \<Rightarrow> bool" where
  "owns s a t \<longleftrightarrow> objs s a = Some (Some t)"

text \<open>
  Every thread that was started is either owned by exactly one object and not joined yet, or it has
  been joined exactly once and nobody owns it.
\<close>

definition mt_inv :: "mt_state \<Rightarrow> bool" where
  "mt_inv s \<longleftrightarrow>
     (\<forall>a b t. owns s a t \<and> owns s b t \<longrightarrow> a = b) \<and>
     (\<forall>a t. owns s a t \<longrightarrow> t < started (world s) \<and> t \<notin> set (joined (world s))) \<and>
     (\<forall>t < started (world s). t \<in> set (joined (world s)) \<or> (\<exists>a. owns s a t)) \<and>
     distinct (joined (world s)) \<and> (\<forall>t \<in> set (joined (world s)). t < started (world s))"

lemmas mt_defs = set_obj_def managed_assign_def managed_destroy_def managed_join_def thread_join_def
  thread_assign_def thread_destroy_def thread_start_def thread_joinable_def

text \<open>The parts of the invariant, as rules.\<close>

lemma mt_invI:
  assumes "\<And>a b t. owns s a t \<Longrightarrow> owns s b t \<Longrightarrow> a = b"
    and "\<And>a t. owns s a t \<Longrightarrow> t < started (world s) \<and> t \<notin> set (joined (world s))"
    and "\<And>t. t < started (world s) \<Longrightarrow> t \<in> set (joined (world s)) \<or> (\<exists>a. owns s a t)"
    and "distinct (joined (world s))"
    and "\<And>t. t \<in> set (joined (world s)) \<Longrightarrow> t < started (world s)"
  shows "mt_inv s"
  using assms unfolding mt_inv_def by blast

lemma mt_invD:
  assumes "mt_inv s"
  shows "owns s a t \<Longrightarrow> owns s b t \<Longrightarrow> a = b"
    and "owns s a t \<Longrightarrow> t < started (world s)"
    and "owns s a t \<Longrightarrow> t \<notin> set (joined (world s))"
    and "t < started (world s) \<Longrightarrow> t \<in> set (joined (world s)) \<or> (\<exists>a. owns s a t)"
    and "distinct (joined (world s))"
    and "t \<in> set (joined (world s)) \<Longrightarrow> t < started (world s)"
  using assms unfolding mt_inv_def by blast+

text \<open>The effects on ownership: a thread is started, is joined, changes hands, or nothing.\<close>

lemma mt_inv_started:
  assumes inv: "mt_inv s" and own: "\<And>c r. owns u c r \<longleftrightarrow> owns s c r \<or> c = a \<and> r = started (world s)"
    and w: "world u = (world s)\<lparr>started := Suc (started (world s))\<rparr>"
  shows "mt_inv u"
proof (rule mt_invI)
  fix c b t assume "owns u c t" "owns u b t"
  then show "c = b" using mt_invD(1,2) [OF inv] own by (metis less_irrefl)
next
  fix t assume "t < started (world u)"
  then show "t \<in> set (joined (world u)) \<or> (\<exists>c. owns u c t)"
    using mt_invD(4) [OF inv] own w by (auto simp: less_Suc_eq)
next
  fix c t assume "owns u c t"
  then show "t < started (world u) \<and> t \<notin> set (joined (world u))"
    using mt_invD(2,3,6) [OF inv] own w less_irrefl by (fastforce simp: less_Suc_eq)
qed (use mt_invD(5,6) [OF inv] w in \<open>auto simp: less_Suc_eq\<close>)

lemma mt_inv_joined:
  assumes inv: "mt_inv s" and own: "owns s a t" "\<And>c r. owns u c r \<longleftrightarrow> owns s c r \<and> c \<noteq> a"
    and w: "world u = (world s)\<lparr>joined := joined (world s) @ [t]\<rparr>"
  shows "mt_inv u"
proof (rule mt_invI)
  fix c r assume "owns u c r"
  then show "r < started (world u) \<and> r \<notin> set (joined (world u))"
    using mt_invD(1-3) [OF inv] own w by auto
next
  fix r assume "r < started (world u)"
  moreover have "b = a \<Longrightarrow> owns s b r \<Longrightarrow> r = t" for b using own(1) by (simp add: owns_def)
  ultimately show "r \<in> set (joined (world u)) \<or> (\<exists>c. owns u c r)"
    using mt_invD(4) [OF inv, of r] own w by auto
qed (use mt_invD [OF inv] own w in \<open>auto\<close>)

lemma mt_inv_moved:
  assumes "mt_inv s" and "\<And>r. \<not> owns s a r"
    and "\<And>c r. owns u c r \<longleftrightarrow> c = a \<and> owns s b r \<or> c \<noteq> b \<and> owns s c r"
    and "world u = world s"
  shows "mt_inv u"
  using assms unfolding mt_inv_def by metis

lemma mt_inv_same:
  assumes "mt_inv s" and "\<And>c r. owns u c r \<longleftrightarrow> owns s c r" and "world u = world s"
  shows "mt_inv u"
  using assms unfolding mt_inv_def by metis

text \<open>A join of the owned thread, as every operation of the class performs it.\<close>

lemma managed_join_cases:
  assumes "managed_join fin th w = r"
  obtains "th = None" "r = Gives (None, w)"
    | t where "th = Some t" "fin t" "r = Gives (None, w\<lparr>joined := joined w @ [t]\<rparr>)"
    | t where "th = Some t" "\<not> fin t" "r = Blocks"
  using assms by (cases th) (auto simp: mt_defs split: if_splits)

lemma mt_inv_drop:
  assumes "mt_inv s" and "objs s a = Some th" and "managed_join fin th (world s) = Gives (th1, w)"
    and "x = None \<or> x = Some None"
  shows "mt_inv (s\<lparr>objs := (objs s)(a := x), world := w\<rparr>)"
  using assms(3)
proof (cases rule: managed_join_cases)
  case 1
  then show ?thesis
    using assms by (intro mt_inv_same [OF assms(1)]) (auto simp: owns_def)
next
  case (2 t)
  then show ?thesis
    using assms by (intro mt_inv_joined [OF assms(1), of a t]) (auto simp: owns_def)
qed simp

lemma mt_inv_assign:
  assumes "mt_inv s" and "objs s a = Some th" and "objs s b = Some th'"
    and "managed_assign fin a b th th' s = Gives u"
  shows "mt_inv u"
proof (cases "a = b")
  case True
  then show ?thesis using assms by (simp add: managed_assign_def)
next
  case False
  obtain th1 w where j: "managed_join fin th (world s) = Gives (th1, w)"
    using assms(4) False by (cases "managed_join fin th (world s)") (auto simp: managed_assign_def)
  then have th1: "th1 = None" by (cases rule: managed_join_cases) auto
  define m where "m = s\<lparr>objs := (objs s)(a := Some None), world := w\<rparr>"
  have "mt_inv m" unfolding m_def by (rule mt_inv_drop [OF assms(1,2) j]) simp
  moreover have "u = m\<lparr>objs := (objs m)(a := Some th', b := Some None)\<rparr>"
    using assms(4) False j th1 by (simp add: mt_defs m_def)
  ultimately show ?thesis
    using False assms(3)
    by (intro mt_inv_moved [of m a u b]) (auto simp: owns_def m_def)
qed

lemma exec_mt_inv:
  assumes "mt_inv s" and "exec_mt fin x s = Some (Gives u)"
  shows "mt_inv u"
proof (cases x)
  case (Default a)
  then show ?thesis
    using assms by (intro mt_inv_same [OF assms(1)]) (auto simp: owns_def mt_defs split: if_splits)
next
  case (Start a)
  then show ?thesis
    using assms
    by (intro mt_inv_started [OF assms(1), of u a]) (auto simp: owns_def mt_defs split: if_splits)
next
  case (MoveConstruct a b)
  then show ?thesis
    using assms
    by (intro mt_inv_moved [OF assms(1), of a u b])
      (auto simp: owns_def mt_defs split: if_splits option.splits)
next
  case (MoveAssign a b)
  then show ?thesis
    using assms by (auto intro: mt_inv_assign split: option.splits)
next
  case (Join a)
  with assms(2) obtain th th1 w where "objs s a = Some th"
    and j: "managed_join fin th (world s) = Gives (th1, w)" and u: "u = set_obj a th1 (s\<lparr>world := w\<rparr>)"
    by (cases "managed_join fin (the (objs s a)) (world s)") auto
  moreover from j have "th1 = None" by (cases rule: managed_join_cases) auto
  ultimately show ?thesis
    using mt_inv_drop [OF assms(1), of a th fin th1 w "Some None"]
    by (simp add: set_obj_def) (metis mt_state.surjective mt_state.update_convs)
next
  case (Destroy a)
  with assms(2) obtain th th1 w where th: "objs s a = Some th"
    and j: "managed_join fin th (world s) = Gives (th1, w)"
    by (cases "managed_join fin (the (objs s a)) (world s)") (auto simp: managed_destroy_def)
  moreover from j have "th1 = None" by (cases rule: managed_join_cases) auto
  ultimately show ?thesis
    using mt_inv_drop [OF assms(1) th j, of None] Destroy assms(2)
    by (simp add: managed_destroy_def thread_destroy_def thread_joinable_def)
qed

definition mt_step :: "mt_state \<Rightarrow> mt_state \<Rightarrow> bool" where
  "mt_step s u \<longleftrightarrow> (\<exists>fin x. exec_mt fin x s = Some (Gives u))"

interpretation mt: invariant_system "\<lambda>s. s = mt_empty" mt_step mt_inv
proof unfold_locales
  show "mt_inv s" if "s = mt_empty" for s
    using that by (simp add: mt_empty_def mt_inv_def owns_def)
qed (auto simp: mt_step_def intro: exec_mt_inv)

lemma exec_mt_safe:
  assumes "exec_mt fin x s = Some r"
  shows "r = Blocks \<or> (\<exists>u. r = Gives u)"
proof -
  have safe: "managed_join fin th w = Blocks \<or> (\<exists>w'. managed_join fin th w = Gives (None, w'))"
    for th w by (rule managed_join_cases [of fin th w, OF refl]) auto
  show ?thesis
  proof (cases x)
    case (MoveAssign a b)
    with assms obtain th th' where "r = managed_assign fin a b th th' s"
      by (auto split: option.splits)
    then show ?thesis using safe [of th "world s"]
      by (auto simp: managed_assign_def thread_assign_def thread_joinable_def)
  next
    case (Destroy a)
    then show ?thesis using assms safe [of "the (objs s a)" "world s"]
      by (auto simp: managed_destroy_def thread_destroy_def thread_joinable_def)
  next
    case (Join a)
    then show ?thesis using assms safe [of "the (objs s a)" "world s"] by auto
  qed (use assms in \<open>auto split: if_splits option.splits prod.splits\<close>)
qed

section \<open>Properties\<close>

text \<open>C30: No thread is leaked, joined twice or detached. Whatever sequence of ManagedThread
  operations a program performs, each allowed operation either completes or waits for a running
  thread (it never calls terminate on a joinable thread and never throws), a completed one leaves
  every started thread either owned by exactly one object and not yet joined, or joined exactly
  once and owned by none.\<close>

theorem managed_threads_joined_once:
  assumes "reaches (\<lambda>s. s = mt_empty) mt_step s" and "exec_mt fin x s = Some r"
  shows "r = Blocks \<or> (\<exists>u. r = Gives u \<and> distinct (joined (world u))
    \<and> (\<forall>t < started (world u). (t \<in> set (joined (world u))) \<noteq> (\<exists>!a. owns u a t)))"
proof (cases r)
  case (Gives u)
  with assms have inv: "mt_inv u"
    by (blast intro: exec_mt_inv mt.reaches_invar)
  have "(t \<in> set (joined (world u))) \<noteq> (\<exists>!a. owns u a t)" if "t < started (world u)" for t
    using mt_invD(1,3,4) [OF inv] that by metis
  with Gives mt_invD(5) [OF inv] show ?thesis by blast
qed (use exec_mt_safe [OF assms(2)] in auto)

theorem managed_threads_joined_once_witness:
  "\<exists>s r. exec_mt (\<lambda>_. True) (MoveAssign 0 1) s = Some r
    \<and> objs s 0 = Some (Some 0) \<and> objs s 1 = Some (Some 1)
    \<and> (r = Blocks \<or> (\<exists>u. r = Gives u \<and> distinct (joined (world u))
      \<and> (\<forall>t < started (world u). (t \<in> set (joined (world u))) \<noteq> (\<exists>!a. owns u a t))))"
proof -
  let ?one = "set_obj 0 (Some 0) (mt_empty\<lparr>world := \<lparr>started = 1, joined = []\<rparr>\<rparr>)"
  let ?two = "set_obj 1 (Some 1) (?one\<lparr>world := \<lparr>started = 2, joined = []\<rparr>\<rparr>)"
  have "mt_step mt_empty ?one"
    unfolding mt_step_def
    by (intro exI [of _ "\<lambda>_. True"] exI [of _ "Start 0"]) (simp add: mt_empty_def mt_defs)
  moreover have "mt_step ?one ?two"
    unfolding mt_step_def
    by (intro exI [of _ "\<lambda>_. True"] exI [of _ "Start 1"]) (simp add: mt_empty_def mt_defs)
  ultimately have reach: "reaches (\<lambda>s. s = mt_empty) mt_step ?two"
    by (blast intro: reaches.intros)
  have "exec_mt (\<lambda>_. True) (MoveAssign 0 1) ?two =
    Some (managed_assign (\<lambda>_. True) 0 1 (Some 0) (Some 1) ?two)"
    by (simp add: set_obj_def)
  with managed_threads_joined_once [OF reach this] show ?thesis
    by (intro exI [of _ ?two]) (simp add: set_obj_def)
qed

end
