(* ===== verification/Thread_Lifecycle.thy ===== *)
theory Thread_Lifecycle
  imports Managed_Thread
begin

text \<open>
  The owners of the program's threads: \<^verbatim>\<open>start\<close> and \<^verbatim>\<open>join\<close> of the producer, the logger, the watchdog
  and the pool, \<^verbatim>\<open>Application::startThreads\<close>, the joins of \<^verbatim>\<open>Application::shutdown\<close> and the
  destruction of the application, as operations on the \<^verbatim>\<open>ManagedThread\<close> objects they hold. Creating
  a thread may fail, as decided by \<open>created\<close> for the number of the thread; the operation then throws
  and the object it was for does not exist.
\<close>

section \<open>The objects\<close>

definition producer_slot :: address where "producer_slot = 0"
definition logger_slot :: address where "logger_slot = 1"
definition watchdog_slot :: address where "watchdog_slot = 2"
definition temporary :: address where "temporary = 3"
definition worker_slot :: "nat \<Rightarrow> address" where "worker_slot i = 4 + i"

lemmas slot_defs = producer_slot_def logger_slot_def watchdog_slot_def temporary_def worker_slot_def

section \<open>Operations\<close>

text \<open>A sequence of operations; \<open>None\<close> is a sequence the language does not allow.\<close>

fun run_mt :: "(thread_id \<Rightarrow> bool) \<Rightarrow> mt_op list \<Rightarrow> mt_state \<Rightarrow> mt_state call option" where
  "run_mt fin [] s = Some (Gives s)"
| "run_mt fin (x # xs) s =
     (case exec_mt fin x s of
        None \<Rightarrow> None
      | Some (Gives u) \<Rightarrow> run_mt fin xs u
      | Some r \<Rightarrow> Some r)"

text \<open>
  \<^verbatim>\<open>thread_ = ManagedThread(\<dots>)\<close>: a temporary is constructed, move-assigned and destroyed. The result
  says whether the thread was created, or the constructor threw.
\<close>

definition start_thread :: "(nat \<Rightarrow> bool) \<Rightarrow> (thread_id \<Rightarrow> bool) \<Rightarrow> address \<Rightarrow> mt_state
    \<Rightarrow> (bool \<times> mt_state) call option" where
  "start_thread created fin a s =
     (if created (started (world s))
      then map_option (\<lambda>r. bind_call r (\<lambda>u. Gives (True, u)))
             (run_mt fin [Start temporary, MoveAssign a temporary, Destroy temporary] s)
      else Some (Gives (False, s)))"

definition RadarProducer_start where
  "RadarProducer_start created fin = start_thread created fin producer_slot"

definition RadarProducer_join where
  "RadarProducer_join fin = exec_mt fin (Join producer_slot)"

definition Logger_start where
  "Logger_start created fin = start_thread created fin logger_slot"

definition Logger_join where
  "Logger_join fin = exec_mt fin (Join logger_slot)"

definition Watchdog_start where
  "Watchdog_start created fin = start_thread created fin watchdog_slot"

definition Watchdog_join where
  "Watchdog_join fin = exec_mt fin (Join watchdog_slot)"

text \<open>
  \<^verbatim>\<open>ThreadPool::start\<close> constructs the threads in place, one after the other; \<open>k\<close> is the size the
  vector has reached. An exception leaves the threads constructed so far in the vector.
\<close>

fun ThreadPool_start :: "(nat \<Rightarrow> bool) \<Rightarrow> (thread_id \<Rightarrow> bool) \<Rightarrow> nat \<Rightarrow> nat \<Rightarrow> mt_state
    \<Rightarrow> (bool \<times> nat \<times> mt_state) call option" where
  "ThreadPool_start created fin 0 k s = Some (Gives (True, k, s))"
| "ThreadPool_start created fin (Suc n) k s =
     (if created (started (world s))
      then (case exec_mt fin (Start (worker_slot k)) s of
              Some (Gives u) \<Rightarrow> ThreadPool_start created fin n (Suc k) u
            | _ \<Rightarrow> None)
      else Some (Gives (False, k, s)))"

definition ThreadPool_join :: "(thread_id \<Rightarrow> bool) \<Rightarrow> nat \<Rightarrow> mt_state \<Rightarrow> mt_state call option" where
  "ThreadPool_join fin k = run_mt fin (map (\<lambda>i. Join (worker_slot i)) [0 ..< k])"

text \<open>Sequencing: an exception or a blocked call ends the sequence.\<close>

fun and_then :: "(bool \<times> 's) call option \<Rightarrow> ('s \<Rightarrow> (bool \<times> 't) call option) \<Rightarrow> ('s \<Rightarrow> 't)
    \<Rightarrow> (bool \<times> 't) call option" where
  "and_then (Some (Gives (True, s))) f g = f s"
| "and_then (Some (Gives (False, s))) f g = Some (Gives (False, g s))"
| "and_then (Some Blocks) f g = Some Blocks"
| "and_then (Some (Throws e)) f g = Some (Throws e)"
| "and_then (Some Terminates) f g = Some Terminates"
| "and_then None f g = None"

definition startThreads :: "(nat \<Rightarrow> bool) \<Rightarrow> (thread_id \<Rightarrow> bool) \<Rightarrow> nat \<Rightarrow> mt_state
    \<Rightarrow> (bool \<times> nat \<times> mt_state) call option" where
  "startThreads created fin n s =
     and_then (Logger_start created fin s) (\<lambda>s1.
       and_then (Watchdog_start created fin s1) (\<lambda>s2.
         and_then (ThreadPool_start created fin n 0 s2) (\<lambda>(k, s3).
           and_then (RadarProducer_start created fin s3) (\<lambda>s4. Some (Gives (True, k, s4))) (Pair k))
         id) (Pair 0)) (Pair 0)"

fun then_do :: "('s \<Rightarrow> 's call option) \<Rightarrow> ('s \<Rightarrow> 's call option) \<Rightarrow> 's \<Rightarrow> 's call option" where
  "then_do f g s = (case f s of Some (Gives u) \<Rightarrow> g u | r \<Rightarrow> r)"

text \<open>The joins of \<^verbatim>\<open>Application::shutdown\<close>, between which it closes the queues.\<close>

definition shutdown_joins :: "(thread_id \<Rightarrow> bool) \<Rightarrow> nat \<Rightarrow> mt_state \<Rightarrow> mt_state call option" where
  "shutdown_joins fin k =
     then_do (RadarProducer_join fin) (then_do (ThreadPool_join fin k) (then_do (Logger_join fin) (Watchdog_join fin)))"

text \<open>Construction and destruction of the members; the latter in the reverse order of declaration.\<close>

definition members_constructed :: mt_state where
  "members_constructed = mt_empty\<lparr>objs := [producer_slot \<mapsto> None, logger_slot \<mapsto> None, watchdog_slot \<mapsto> None]\<rparr>"

definition members_destroyed :: "(thread_id \<Rightarrow> bool) \<Rightarrow> nat \<Rightarrow> mt_state \<Rightarrow> mt_state call option" where
  "members_destroyed fin k =
     run_mt fin (Destroy watchdog_slot # Destroy logger_slot
       # map (\<lambda>i. Destroy (worker_slot i)) [0 ..< k] @ [Destroy producer_slot])"

section \<open>Starting\<close>

definition thread_effect :: "address \<Rightarrow> mt_state \<Rightarrow> mt_state \<Rightarrow> bool" where
  "thread_effect a s u \<longleftrightarrow> mt_inv u \<and> dom (objs u) = dom (objs s) \<and> (\<forall>b. b \<noteq> a \<longrightarrow> objs u b = objs s b)
     \<and> started (world u) = Suc (started (world s)) \<and> joined (world u) = joined (world s)"

lemma start_thread_effect:
  assumes "mt_inv s" and "objs s a = Some None" and "objs s temporary = None"
    and "created (started (world s))"
  shows "\<exists>u. start_thread created fin a s = Some (Gives (True, u)) \<and> thread_effect a s u"
proof -
  let ?u = "s\<lparr>objs := (objs s)(a \<mapsto> Some (started (world s))),
    world := (world s)\<lparr>started := Suc (started (world s))\<rparr>\<rparr>"
  have a: "a \<noteq> temporary" using assms(2,3) by auto
  have "(objs s)(a \<mapsto> Some (started (world s)), temporary := None) = (objs s)(a \<mapsto> Some (started (world s)))"
    using a assms(3) by (auto simp: fun_eq_iff)
  then have "start_thread created fin a s = Some (Gives (True, ?u))"
    using assms a by (simp add: start_thread_def mt_defs fun_upd_twist)
  moreover have "mt_inv ?u"
    by (rule mt_inv_started [OF assms(1), of _ a]) (use assms(2) in \<open>auto simp: owns_def\<close>)
  ultimately show ?thesis using assms(2) by (auto simp: thread_effect_def)
qed

text \<open>What starting \<open>n\<close> workers, from slot \<open>k\<close> on, does.\<close>

definition pool_effect :: "(nat \<Rightarrow> bool) \<Rightarrow> nat \<Rightarrow> nat \<Rightarrow> mt_state \<Rightarrow> bool \<Rightarrow> nat \<Rightarrow> mt_state \<Rightarrow> bool" where
  "pool_effect created n k s ok k' u \<longleftrightarrow> mt_inv u \<and> k \<le> k'
     \<and> dom (objs u) = dom (objs s) \<union> worker_slot ` {k ..< k'}
     \<and> (\<forall>b. b \<notin> range worker_slot \<longrightarrow> objs u b = objs s b)
     \<and> started (world u) = started (world s) + (k' - k) \<and> joined (world u) = joined (world s)
     \<and> (ok \<longleftrightarrow> (\<forall>t \<in> {started (world s) ..< started (world s) + n}. created t)) \<and> (ok \<longrightarrow> k' = k + n)"

lemma ThreadPool_start_effect:
  assumes "mt_inv s" and "\<And>i. k \<le> i \<Longrightarrow> objs s (worker_slot i) = None"
  shows "\<exists>ok k' u. ThreadPool_start created fin n k s = Some (Gives (ok, k', u)) \<and> pool_effect created n k s ok k' u"
  using assms
proof (induction n arbitrary: k s)
  case 0
  then show ?case by (auto simp: pool_effect_def)
next
  case (Suc n)
  show ?case
  proof (cases "created (started (world s))")
    case False
    then show ?thesis using Suc.prems(1) by (simp add: pool_effect_def) (meson atLeastLessThan_iff le_refl less_add_Suc1)
  next
    case True
    let ?u = "s\<lparr>objs := (objs s)(worker_slot k \<mapsto> Some (started (world s))),
      world := (world s)\<lparr>started := Suc (started (world s))\<rparr>\<rparr>"
    have step: "exec_mt fin (Start (worker_slot k)) s = Some (Gives ?u)"
      using Suc.prems(2) [of k] by (simp add: mt_defs)
    have "objs ?u (worker_slot i) = None" if "Suc k \<le> i" for i
      using Suc.prems(2) [of i] that by (simp add: slot_defs)
    from Suc.IH [OF exec_mt_inv [OF Suc.prems(1) step] this] obtain ok k' u where
      u: "ThreadPool_start created fin n (Suc k) ?u = Some (Gives (ok, k', u))" "pool_effect created n (Suc k) ?u ok k' u"
      by blast
    let ?t = "started (world s)"
    have "{k ..< k'} = insert k {Suc k ..< k'}" using u(2) by (auto simp: pool_effect_def)
    moreover have "{?t ..< ?t + Suc n} = insert ?t {Suc ?t ..< Suc ?t + n}" by auto
    moreover have "k < k'" using u(2) by (simp add: pool_effect_def)
    ultimately have "pool_effect created (Suc n) k s ok k' u"
      using u(2) True by (auto simp: pool_effect_def)
    with u(1) True step show ?thesis by (simp del: exec_mt.simps)
  qed
qed

section \<open>Startup as a whole\<close>

lemma members_constructed_inv:
  "mt_inv members_constructed" "dom (objs members_constructed) = {producer_slot, logger_slot, watchdog_slot}"
  "world members_constructed = \<lparr>started = 0, joined = []\<rparr>"
  by (auto simp: members_constructed_def mt_empty_def mt_inv_def owns_def slot_defs split: if_splits)

definition started_up :: "(nat \<Rightarrow> bool) \<Rightarrow> nat \<Rightarrow> bool \<Rightarrow> nat \<Rightarrow> mt_state \<Rightarrow> bool" where
  "started_up created n ok k s \<longleftrightarrow> mt_inv s \<and> joined (world s) = []
     \<and> dom (objs s) = {producer_slot, logger_slot, watchdog_slot} \<union> worker_slot ` {0 ..< k}
     \<and> (ok \<longleftrightarrow> (\<forall>t < n + 3. created t)) \<and> (ok \<longrightarrow> k = n \<and> started (world s) = n + 3)"

lemma slots_distinct [simp]:
  "producer_slot \<notin> range worker_slot" "logger_slot \<notin> range worker_slot" "watchdog_slot \<notin> range worker_slot"
  "temporary \<notin> range worker_slot" "producer_slot \<noteq> logger_slot" "producer_slot \<noteq> watchdog_slot"
  "producer_slot \<noteq> temporary" "logger_slot \<noteq> watchdog_slot" "logger_slot \<noteq> temporary" "watchdog_slot \<noteq> temporary"
  "logger_slot \<noteq> producer_slot" "watchdog_slot \<noteq> producer_slot" "watchdog_slot \<noteq> logger_slot"
  "temporary \<noteq> producer_slot" "temporary \<noteq> logger_slot" "temporary \<noteq> watchdog_slot"
  by (auto simp: slot_defs)

lemma all_created:
  fixes n :: nat
  shows "(\<forall>t < n + 3. created t) \<longleftrightarrow> created 0 \<and> created 1 \<and> (\<forall>t \<in> {2 ..< 2 + n}. created t) \<and> created (n + 2)"
proof -
  have "t < n + 3 \<longleftrightarrow> t = 0 \<or> t = 1 \<or> t \<in> {2 ..< 2 + n} \<or> t = n + 2" for t :: nat by auto
  then have "(\<forall>t < n + 3. created t) \<longleftrightarrow> (\<forall>t. t = 0 \<or> t = 1 \<or> t \<in> {2 ..< 2 + n} \<or> t = n + 2 \<longrightarrow> created t)"
    by (simp only:)
  then show ?thesis by blast
qed

lemma startThreads_effect:
  "\<exists>ok k s. startThreads created fin n members_constructed = Some (Gives (ok, k, s)) \<and> started_up created n ok k s"
proof -
  let ?c = members_constructed
  note c = members_constructed_inv
  have slots: "objs ?c producer_slot = Some None" "objs ?c logger_slot = Some None" "objs ?c watchdog_slot = Some None"
    "objs ?c temporary = None" "\<And>i. objs ?c (worker_slot i) = None"
    by (simp_all add: members_constructed_def slot_defs)
  note starts = startThreads_def Logger_start_def Watchdog_start_def RadarProducer_start_def start_thread_def
  show ?thesis
  proof (cases "created 0")
    case False
    then show ?thesis using c by (auto simp: starts started_up_def all_created)
  next
    case True
    with start_thread_effect [OF c(1) slots(2,4), of created fin] c(3) obtain s1 where
      s1: "start_thread created fin logger_slot ?c = Some (Gives (True, s1))" "thread_effect logger_slot ?c s1" by auto
    have o1: "mt_inv s1" "started (world s1) = 1" "objs s1 temporary = None" "objs s1 watchdog_slot = Some None"
      using s1(2) c(3) slots by (simp_all add: thread_effect_def)
    show ?thesis
    proof (cases "created 1")
      case False
      with s1 o1 c(2,3) show ?thesis
        by (auto simp: startThreads_def Logger_start_def Watchdog_start_def start_thread_def [of _ _ watchdog_slot]
            started_up_def all_created thread_effect_def)
    next
      case True
      with start_thread_effect [OF o1(1,4,3), of created fin] o1(2) obtain s2 where
        s2: "start_thread created fin watchdog_slot s1 = Some (Gives (True, s2))" "thread_effect watchdog_slot s1 s2" by auto
      have o2: "mt_inv s2" "started (world s2) = 2" "objs s2 temporary = None" "objs s2 producer_slot = Some None"
        "joined (world s2) = []" "dom (objs s2) = dom (objs ?c)"
        using s1(2) s2(2) c(3) slots by (simp_all add: thread_effect_def)
      have "objs s2 (worker_slot i) = objs ?c (worker_slot i)" for i
        using s1(2) s2(2) by (simp add: thread_effect_def slot_defs)
      then have "objs s2 (worker_slot i) = None" for i using slots(5) by simp
      from ThreadPool_start_effect [OF o2(1) this] obtain ok k s3 where
        s3: "ThreadPool_start created fin n 0 s2 = Some (Gives (ok, k, s3))" "pool_effect created n 0 s2 ok k s3" by blast
      show ?thesis
      proof (cases "ok \<and> created (n + 2)")
        case True
        then have k: "k = n" "started (world s3) = n + 2" using s3(2) o2(2) by (simp_all add: pool_effect_def)
        have p: "objs s3 producer_slot = Some None" "objs s3 temporary = None" "mt_inv s3" "created (started (world s3))"
          using s3(2) o2 k True by (simp_all add: pool_effect_def)
        from start_thread_effect [OF p(3,1,2), where created = created and fin = fin, OF p(4)] obtain s4 where
          "start_thread created fin producer_slot s3 = Some (Gives (True, s4))" "thread_effect producer_slot s3 s4" by blast
        with s1(1) s2(1) s3 o2(2,5,6) k True c(2) \<open>created 0\<close> \<open>created 1\<close> show ?thesis
          by (simp add: startThreads_def Logger_start_def Watchdog_start_def RadarProducer_start_def started_up_def
              pool_effect_def thread_effect_def all_created) blast
      next
        case False
        then have "ok \<longrightarrow> \<not> created (started (world s3))" using s3(2) o2(2) by (auto simp: pool_effect_def add.commute)
        then have "startThreads created fin n ?c = Some (Gives (False, k, s3))"
          using s1(1) s2(1) s3(1)
          by (cases ok) (simp_all add: startThreads_def Logger_start_def Watchdog_start_def RadarProducer_start_def
              start_thread_def [of _ _ producer_slot])
        with o2(2,5,6) s3(2) False c(2) show ?thesis by (auto simp: started_up_def pool_effect_def all_created)
      qed
    qed
  qed
qed

section \<open>Joining and destroying\<close>

lemma run_mt_Cons: "run_mt fin (x # xs) = then_do (exec_mt fin x) (run_mt fin xs)"
  by (auto simp: fun_eq_iff split: option.splits call.splits)

lemma run_mt_append: "run_mt fin (xs @ ys) = then_do (run_mt fin xs) (run_mt fin ys)"
proof
  show "run_mt fin (xs @ ys) s = then_do (run_mt fin xs) (run_mt fin ys) s" for s
    by (induction xs arbitrary: s) (auto split: option.splits call.splits)
qed

lemma then_do_Nil: "then_do f (run_mt fin []) = f"
  by (auto simp: fun_eq_iff split: option.splits call.splits)

lemma run_joins:
  assumes "mt_inv s" and "\<forall>a \<in> set as. objs s a \<noteq> None"
  shows "\<exists>u. run_mt (\<lambda>_. True) (map Join as) s = Some (Gives u) \<and> mt_inv u
    \<and> started (world u) = started (world s) \<and> objs u = (\<lambda>a. if a \<in> set as then Some None else objs s a)"
  using assms
proof (induction as arbitrary: s)
  case (Cons a as)
  then obtain th where th: "objs s a = Some th" by auto
  obtain w where w: "managed_join (\<lambda>_. True) th (world s) = Gives (None, w)" "started w = started (world s)"
    by (rule managed_join_cases [of "\<lambda>_. True" th "world s", OF refl]) auto
  let ?u = "set_obj a None (s\<lparr>world := w\<rparr>)"
  have step: "exec_mt (\<lambda>_. True) (Join a) s = Some (Gives ?u)" using th w by simp
  have "\<forall>b \<in> set as. objs ?u b \<noteq> None" using Cons.prems(2) by (simp add: set_obj_def)
  from Cons.IH [OF exec_mt_inv [OF Cons.prems(1) step] this] step th w(2) show ?case
    by (auto simp: set_obj_def fun_eq_iff simp del: exec_mt.simps)
qed auto

lemma run_destroys:
  assumes "\<forall>a \<in> set as. objs s a = Some None" and "distinct as"
  shows "\<exists>u. run_mt fin (map Destroy as) s = Some (Gives u) \<and> world u = world s
    \<and> objs u = (\<lambda>a. if a \<in> set as then None else objs s a)"
  using assms
proof (induction as arbitrary: s)
  case (Cons a as)
  let ?u = "s\<lparr>objs := (objs s)(a := None)\<rparr>"
  have step: "exec_mt fin (Destroy a) s = Some (Gives ?u)" using Cons.prems(1) by (simp add: mt_defs)
  have "\<forall>b \<in> set as. objs ?u b = Some None" using Cons.prems by auto
  from Cons.IH [OF this] Cons.prems(2) step show ?case
    by (auto simp: fun_eq_iff simp del: exec_mt.simps)
qed (simp add: fun_eq_iff)

lemma shutdown_joins_ops:
  "shutdown_joins fin k = run_mt fin (map Join (producer_slot # map worker_slot [0 ..< k] @ [logger_slot, watchdog_slot]))"
  unfolding shutdown_joins_def RadarProducer_join_def ThreadPool_join_def Logger_join_def Watchdog_join_def
  by (simp add: run_mt_Cons run_mt_append then_do_Nil comp_def del: run_mt.simps then_do.simps)

section \<open>Properties\<close>

text \<open>C25: A failed start leaks no thread. Starting the logger, the watchdog, the workers and the
  producer succeeds exactly when every thread can be created. Whether it succeeds or throws half
  way, the joins of the shutdown, once the threads have finished, complete; every thread that was
  started has then been joined exactly once, and the destruction of the application completes and
  leaves no thread object behind.\<close>

theorem failed_start_leaks_no_thread:
  "\<exists>ok k s u v. startThreads created fin n members_constructed = Some (Gives (ok, k, s))
     \<and> (ok \<longleftrightarrow> (\<forall>t < n + 3. created t)) \<and> (ok \<longrightarrow> started (world s) = n + 3)
     \<and> shutdown_joins (\<lambda>_. True) k s = Some (Gives u)
     \<and> distinct (joined (world u)) \<and> set (joined (world u)) = {..< started (world s)}
     \<and> members_destroyed fin k u = Some (Gives v) \<and> objs v = Map.empty \<and> world v = world u"
proof -
  obtain ok k s where s: "startThreads created fin n members_constructed = Some (Gives (ok, k, s))"
    "started_up created n ok k s" using startThreads_effect by blast
  let ?as = "producer_slot # map worker_slot [0 ..< k] @ [logger_slot, watchdog_slot]"
  have inv: "mt_inv s" and dom: "dom (objs s) = set ?as" using s(2) by (auto simp: started_up_def)
  have "\<forall>a \<in> set ?as. objs s a \<noteq> None" using dom by blast
  from run_joins [OF inv this] obtain u where
    u: "run_mt (\<lambda>_. True) (map Join ?as) s = Some (Gives u)" "mt_inv u" "started (world u) = started (world s)"
      "objs u = (\<lambda>a. if a \<in> set ?as then Some None else objs s a)" by blast
  have none: "objs u a = (if a \<in> set ?as then Some None else None)" for a
    using dom by (auto simp: u(4))
  then have "\<not> owns u a t" for a t by (simp add: owns_def)
  then have j: "set (joined (world u)) = {..< started (world s)}"
    using mt_invD(4,6) [OF u(2)] u(3) by auto
  let ?ds = "watchdog_slot # logger_slot # map worker_slot [0 ..< k] @ [producer_slot]"
  have "distinct ?ds" by (auto simp: slot_defs distinct_map inj_on_def)
  moreover have "\<forall>a \<in> set ?ds. objs u a = Some None" using none by auto
  ultimately obtain v where v: "run_mt fin (map Destroy ?ds) u = Some (Gives v)" "world v = world u"
    "objs v = (\<lambda>a. if a \<in> set ?ds then None else objs u a)" using run_destroys [of ?ds u fin] by blast
  have "objs v = Map.empty" using none by (auto simp: v(3) fun_eq_iff)
  moreover have "members_destroyed fin k u = Some (Gives v)" using v(1) by (simp add: members_destroyed_def comp_def)
  ultimately show ?thesis
    using s u(1) j mt_invD(5) [OF u(2)] v(2) by (auto simp: shutdown_joins_ops started_up_def)
qed

theorem failed_start_leaks_no_thread_witness:
  "(\<exists>k s u. startThreads (\<lambda>_. True) (\<lambda>_. False) 2 members_constructed = Some (Gives (True, k, s))
      \<and> shutdown_joins (\<lambda>_. True) k s = Some (Gives u) \<and> set (joined (world u)) = {..< 5})
   \<and> (\<exists>k s u. startThreads (\<lambda>t. t < 3) (\<lambda>_. False) 2 members_constructed = Some (Gives (False, k, s))
      \<and> shutdown_joins (\<lambda>_. True) k s = Some (Gives u) \<and> distinct (joined (world u))
      \<and> set (joined (world u)) = {..< started (world s)})"
proof
  from failed_start_leaks_no_thread [of "\<lambda>_. True" "\<lambda>_. False" 2] obtain ok k s u where
    "startThreads (\<lambda>_. True) (\<lambda>_. False) 2 members_constructed = Some (Gives (ok, k, s))" "ok"
    "ok \<longrightarrow> started (world s) = 2 + 3" "shutdown_joins (\<lambda>_. True) k s = Some (Gives u)"
    "set (joined (world u)) = {..< started (world s)}" by blast
  then show "\<exists>k s u. startThreads (\<lambda>_. True) (\<lambda>_. False) 2 members_constructed = Some (Gives (True, k, s))
      \<and> shutdown_joins (\<lambda>_. True) k s = Some (Gives u) \<and> set (joined (world u)) = {..< 5}" by auto
next
  from failed_start_leaks_no_thread [of "\<lambda>t. t < 3" "\<lambda>_. False" 2] obtain ok k s u where
    s: "startThreads (\<lambda>t. t < 3) (\<lambda>_. False) 2 members_constructed = Some (Gives (ok, k, s))"
      "ok \<longleftrightarrow> (\<forall>t < 2 + 3. t < (3::nat))" "shutdown_joins (\<lambda>_. True) k s = Some (Gives u)"
      "distinct (joined (world u))" "set (joined (world u)) = {..< started (world s)}" by blast
  have "\<not> ok" using s(2) by (auto dest: spec [of _ 4])
  with s show "\<exists>k s u. startThreads (\<lambda>t. t < 3) (\<lambda>_. False) 2 members_constructed = Some (Gives (False, k, s))
      \<and> shutdown_joins (\<lambda>_. True) k s = Some (Gives u) \<and> distinct (joined (world u))
      \<and> set (joined (world u)) = {..< started (world s)}" by auto
qed

end
