(* ===== verification/Fair_Runs.thy ===== *)
theory Fair_Runs
  imports Radar_Prelude
begin

text \<open>
  Infinite runs of a transition system, in which the whole may also pause, and runs that are weakly
  fair to one of its agents: an agent that could always move from some point on does move. The
  rule \<open>progress\<close> turns a rank that the agent decreases into the arrival at a goal.
\<close>

locale infinite_run = invariant_system +
  fixes \<sigma> :: "nat \<Rightarrow> 's"
  assumes start: "init (\<sigma> 0)"
    and moves_on: "\<sigma> (Suc n) = \<sigma> n \<or> step (\<sigma> n) (\<sigma> (Suc n))"
begin

lemma run_reaches: "reaches init step (\<sigma> n)"
proof (induction n)
  case 0
  show ?case using start by (rule reaches_init)
next
  case (Suc n)
  then show ?case using moves_on [of n] reaches_step by metis
qed

lemma run_invar: "invar (\<sigma> n)"
  using run_reaches by (rule reaches_invar)

text \<open>What every step preserves from its state to the next holds between any state and a later one.\<close>

lemma run_preserves:
  assumes "\<And>s t. step s t \<Longrightarrow> invar s \<Longrightarrow> R s t" and "\<And>s. R s s" and "\<And>s t u. R s t \<Longrightarrow> R t u \<Longrightarrow> R s u" and "n \<le> m"
  shows "R (\<sigma> n) (\<sigma> m)"
  using \<open>n \<le> m\<close>
proof (induction m rule: dec_induct)
  case base
  show ?case by (rule assms(2))
next
  case (step m)
  have "R (\<sigma> m) (\<sigma> (Suc m))" using moves_on [of m] assms(1) [OF _ run_invar] assms(2) by metis
  with step.IH show ?case by (rule assms(3))
qed

end

locale weakly_fair_run = infinite_run +
  fixes can :: "'s \<Rightarrow> bool" and does :: "'s \<Rightarrow> 's \<Rightarrow> bool"
  assumes fair: "(\<And>m. n \<le> m \<Longrightarrow> can (\<sigma> m)) \<Longrightarrow> \<exists>m \<ge> n. does (\<sigma> m) (\<sigma> (Suc m))"
begin

lemma progress:
  fixes rank :: "'s \<Rightarrow> nat"
  assumes can: "\<And>m. n \<le> m \<Longrightarrow> \<not> goal (\<sigma> m) \<Longrightarrow> can (\<sigma> m)"
    and does: "\<And>m. n \<le> m \<Longrightarrow> \<not> goal (\<sigma> m) \<Longrightarrow> does (\<sigma> m) (\<sigma> (Suc m)) \<Longrightarrow>
      goal (\<sigma> (Suc m)) \<or> rank (\<sigma> (Suc m)) < rank (\<sigma> m)"
    and others: "\<And>m. n \<le> m \<Longrightarrow> \<not> goal (\<sigma> m) \<Longrightarrow> goal (\<sigma> (Suc m)) \<or> rank (\<sigma> (Suc m)) \<le> rank (\<sigma> m)"
  shows "\<exists>m \<ge> n. goal (\<sigma> m)"
proof (rule ccontr)
  assume "\<not> (\<exists>m \<ge> n. goal (\<sigma> m))"
  then have never: "\<not> goal (\<sigma> m)" if "n \<le> m" for m using that by blast
  have falls: "rank (\<sigma> k) \<le> rank (\<sigma> m)" if "n \<le> m" "m \<le> k" for m k
    using that(2)
  proof (induction k rule: dec_induct)
    case (step k)
    have "rank (\<sigma> (Suc k)) \<le> rank (\<sigma> k)" using others never that(1) step.hyps by (meson le_SucI le_trans)
    with step.IH show ?case by simp
  qed simp
  have "n \<le> m \<Longrightarrow> False" for m
  proof (induction "rank (\<sigma> m)" arbitrary: m rule: less_induct)
    case less
    obtain k where k: "m \<le> k" "does (\<sigma> k) (\<sigma> (Suc k))" using fair [of m] can never less.prems by (meson le_trans)
    then have nk: "n \<le> k" using less.prems by simp
    have "rank (\<sigma> (Suc k)) < rank (\<sigma> k)" using does [OF nk never [OF nk] k(2)] never [of "Suc k"] nk by simp
    also have "\<dots> \<le> rank (\<sigma> m)" using falls less.prems k(1) by simp
    finally show False using less.hyps [of "Suc k"] nk by simp
  qed
  then show False by blast
qed

end

end
