(* ===== verification/Shutdown_Token.thy ===== *)
theory Shutdown_Token
  imports Radar_Prelude
begin

text \<open>
  The shutdown token of \<^verbatim>\<open>include/radar/shutdown_token.hpp\<close> and \<^verbatim>\<open>src/shutdown_token.cpp\<close>: an atomic
  flag that is only ever set, and a wait that a request cuts short. The first section is the token
  as its clients see it; the rest is the protocol behind it, with the mutex as an explicit resource:
  testing the flag and going to sleep are two steps of a waiter, during which it holds the mutex,
  and a request sets the flag while holding the same mutex and notifies after releasing it.
\<close>

section \<open>The token as its clients see it\<close>

record token =
  tok_requested :: bool

definition new_token :: token where
  "new_token = \<lparr>tok_requested = False\<rparr>"

definition requestShutdown :: "token \<Rightarrow> token" where
  "requestShutdown t = t\<lparr>tok_requested := True\<rparr>"

definition shutdownRequested :: "token \<Rightarrow> bool" where
  "shutdownRequested t = tok_requested t"

text \<open>
  \<^verbatim>\<open>waitFor\<close> returns true as soon as the flag is set, and false once the timeout has elapsed with
  the flag still unset; \<open>None\<close> is a wait that goes on.
\<close>

definition waitFor :: "bool \<Rightarrow> token \<Rightarrow> bool option" where
  "waitFor elapsed t =
     (if tok_requested t then Some True else if elapsed then Some False else None)"

lemma token_simps [simp]:
  "tok_requested (requestShutdown t)" "shutdownRequested (requestShutdown t)"
  "requestShutdown (requestShutdown t) = requestShutdown t" "\<not> shutdownRequested new_token"
  by (simp_all add: requestShutdown_def shutdownRequested_def new_token_def)

section \<open>The protocol\<close>

text \<open>
  A thread is outside, in \<^verbatim>\<open>waitFor\<close> (wanting the mutex, holding it before and after the test,
  asleep, or back from a timeout), or in \<^verbatim>\<open>requestShutdown\<close> (wanting the mutex, holding it before
  and after the store, or about to notify).
\<close>

datatype tpc =
    Out | WaitEnter | WaitTest | WaitTested | Asleep | TimedEnter | TimedTest | WaitReturned bool
  | ReqEnter | ReqHold | ReqStored | ReqNotify

record token_sys =
  ts_token :: token
  ts_mutex :: "thread_id option"
  ts_pcs :: "tpc list"

definition holds_mutex :: "tpc \<Rightarrow> bool" where
  "holds_mutex p \<longleftrightarrow> p = WaitTest \<or> p = WaitTested \<or> p = TimedTest \<or> p = ReqHold \<or> p = ReqStored"

definition wake :: "tpc \<Rightarrow> tpc" where
  "wake p = (if p = Asleep then WaitEnter else p)"

definition at :: "token_sys \<Rightarrow> nat \<Rightarrow> tpc \<Rightarrow> bool" where
  "at s i p \<longleftrightarrow> i < length (ts_pcs s) \<and> ts_pcs s ! i = p"

definition tgoto :: "nat \<Rightarrow> tpc \<Rightarrow> token_sys \<Rightarrow> token_sys" where
  "tgoto i p s = s\<lparr>ts_pcs := (ts_pcs s)[i := p]\<rparr>"

text \<open>Calls, spurious wake-ups and timeouts come from outside; the rest is what the threads inside do.\<close>

inductive tenv :: "token_sys \<Rightarrow> token_sys \<Rightarrow> bool" where
  call_wait: "at s i Out \<or> (\<exists>b. at s i (WaitReturned b)) \<Longrightarrow> tenv s (tgoto i WaitEnter s)"
| call_request: "at s i Out \<or> (\<exists>b. at s i (WaitReturned b)) \<Longrightarrow> tenv s (tgoto i ReqEnter s)"
| spurious: "at s i Asleep \<Longrightarrow> tenv s (tgoto i WaitEnter s)"
| timeout: "at s i Asleep \<Longrightarrow> tenv s (tgoto i TimedEnter s)"

inductive trun :: "token_sys \<Rightarrow> token_sys \<Rightarrow> bool" where
  lock_wait: "at s i WaitEnter \<Longrightarrow> ts_mutex s = None \<Longrightarrow>
    trun s (tgoto i WaitTest (s\<lparr>ts_mutex := Some i\<rparr>))"
| test_true: "at s i WaitTest \<Longrightarrow> shutdownRequested (ts_token s) \<Longrightarrow>
    trun s (tgoto i (WaitReturned True) (s\<lparr>ts_mutex := None\<rparr>))"
| test_false: "at s i WaitTest \<Longrightarrow> \<not> shutdownRequested (ts_token s) \<Longrightarrow> trun s (tgoto i WaitTested s)"
| sleep: "at s i WaitTested \<Longrightarrow> trun s (tgoto i Asleep (s\<lparr>ts_mutex := None\<rparr>))"
| lock_timed: "at s i TimedEnter \<Longrightarrow> ts_mutex s = None \<Longrightarrow>
    trun s (tgoto i TimedTest (s\<lparr>ts_mutex := Some i\<rparr>))"
| timed_return: "at s i TimedTest \<Longrightarrow>
    trun s (tgoto i (WaitReturned (shutdownRequested (ts_token s))) (s\<lparr>ts_mutex := None\<rparr>))"
| lock_request: "at s i ReqEnter \<Longrightarrow> ts_mutex s = None \<Longrightarrow>
    trun s (tgoto i ReqHold (s\<lparr>ts_mutex := Some i\<rparr>))"
| store: "at s i ReqHold \<Longrightarrow>
    trun s (tgoto i ReqStored (s\<lparr>ts_token := requestShutdown (ts_token s)\<rparr>))"
| unlock_request: "at s i ReqStored \<Longrightarrow> trun s (tgoto i ReqNotify (s\<lparr>ts_mutex := None\<rparr>))"
| notify_all: "at s i ReqNotify \<Longrightarrow>
    trun s (tgoto i Out (s\<lparr>ts_pcs := map wake (ts_pcs s)\<rparr>))"

definition tstep :: "token_sys \<Rightarrow> token_sys \<Rightarrow> bool" where
  "tstep s t \<longleftrightarrow> tenv s t \<or> trun s t"

definition token_init :: "nat \<Rightarrow> token_sys \<Rightarrow> bool" where
  "token_init n s \<longleftrightarrow> s = \<lparr>ts_token = new_token, ts_mutex = None, ts_pcs = replicate n Out\<rparr>"

text \<open>Every thread is outside, has its result, or is asleep.\<close>

definition settled :: "token_sys \<Rightarrow> bool" where
  "settled s \<longleftrightarrow> (\<forall>i p. at s i p \<longrightarrow> p = Out \<or> p = Asleep \<or> (\<exists>b. p = WaitReturned b))"

section \<open>The invariant\<close>

definition mutex_inv :: "token_sys \<Rightarrow> bool" where
  "mutex_inv s \<longleftrightarrow> (\<forall>i < length (ts_pcs s). holds_mutex (ts_pcs s ! i) \<longleftrightarrow> ts_mutex s = Some i)
     \<and> (\<forall>i. ts_mutex s = Some i \<longrightarrow> i < length (ts_pcs s))"

text \<open>
  Between its test and its sleep a waiter excludes requests, so the flag is still unset; a sleeper
  that misses the flag is owed a notification; and true is only returned when the flag is set.
\<close>

definition owes_notify :: "token_sys \<Rightarrow> bool" where
  "owes_notify s \<longleftrightarrow> ReqStored \<in> set (ts_pcs s) \<or> ReqNotify \<in> set (ts_pcs s)"

definition flag_inv :: "token_sys \<Rightarrow> bool" where
  "flag_inv s \<longleftrightarrow>
     (shutdownRequested (ts_token s) \<longrightarrow> WaitTested \<notin> set (ts_pcs s)) \<and>
     (WaitReturned True \<in> set (ts_pcs s) \<longrightarrow> shutdownRequested (ts_token s)) \<and>
     (Asleep \<in> set (ts_pcs s) \<and> shutdownRequested (ts_token s) \<longrightarrow> owes_notify s)"

lemma tgoto_simps [simp]:
  "ts_mutex (tgoto i p s) = ts_mutex s" "ts_token (tgoto i p s) = ts_token s"
  "ts_pcs (tgoto i p s) = (ts_pcs s)[i := p]"
  by (simp_all add: tgoto_def)

lemma mutex_inv_keep:
  "mutex_inv s \<Longrightarrow> at s i p \<Longrightarrow> holds_mutex p = holds_mutex r \<Longrightarrow> mutex_inv (tgoto i r s)"
  by (auto simp: mutex_inv_def at_def nth_list_update)

lemma mutex_inv_lock:
  "mutex_inv s \<Longrightarrow> at s i p \<Longrightarrow> ts_mutex s = None \<Longrightarrow> holds_mutex r \<Longrightarrow>
    mutex_inv (tgoto i r (s\<lparr>ts_mutex := Some i\<rparr>))"
  by (auto simp: mutex_inv_def at_def nth_list_update)

lemma mutex_inv_unlock:
  "mutex_inv s \<Longrightarrow> at s i p \<Longrightarrow> holds_mutex p \<Longrightarrow> \<not> holds_mutex r \<Longrightarrow>
    mutex_inv (tgoto i r (s\<lparr>ts_mutex := None\<rparr>))"
  by (auto simp: mutex_inv_def at_def nth_list_update)

lemma mutex_inv_wake: "mutex_inv s \<Longrightarrow> mutex_inv (s\<lparr>ts_pcs := map wake (ts_pcs s)\<rparr>)"
  by (auto simp: mutex_inv_def wake_def holds_mutex_def)

lemma mutex_inv_token [simp]: "mutex_inv (s\<lparr>ts_token := t\<rparr>) = mutex_inv s"
  by (simp add: mutex_inv_def)

lemma at_wake: "at s i p \<Longrightarrow> at (s\<lparr>ts_pcs := map wake (ts_pcs s)\<rparr>) i (wake p)"
  by (auto simp: at_def)

lemma at_token [simp]: "at (s\<lparr>ts_token := t\<rparr>) i p = at s i p"
  by (simp add: at_def)

lemma holds_mutex_simps [simp]:
  "holds_mutex WaitTest" "holds_mutex WaitTested" "holds_mutex TimedTest" "holds_mutex ReqHold"
  "holds_mutex ReqStored" "\<not> holds_mutex Out" "\<not> holds_mutex WaitEnter" "\<not> holds_mutex Asleep"
  "\<not> holds_mutex TimedEnter" "\<not> holds_mutex (WaitReturned b)" "\<not> holds_mutex ReqEnter"
  "\<not> holds_mutex ReqNotify"
  by (simp_all add: holds_mutex_def)

lemma mutex_inv_tenv: "tenv s t \<Longrightarrow> mutex_inv s \<Longrightarrow> mutex_inv t"
  by (induction rule: tenv.induct) (auto intro: mutex_inv_keep)

lemma mutex_inv_trun: "trun s t \<Longrightarrow> mutex_inv s \<Longrightarrow> mutex_inv t"
proof (induction rule: trun.induct)
  case (store s i)
  then show ?case by (intro mutex_inv_keep [where p = ReqHold]) simp_all
next
  case (notify_all s i)
  then show ?case
    using at_wake [of s i ReqNotify]
    by (intro mutex_inv_keep [where p = ReqNotify] mutex_inv_wake) (simp_all add: wake_def)
qed (auto intro: mutex_inv_keep mutex_inv_lock mutex_inv_unlock)

text \<open>
  The steps of the flag invariant. Only the holder of the mutex stores the flag, so no other thread
  is between its test and its sleep at that moment.
\<close>

lemma no_tested_at_store:
  assumes "mutex_inv s" and "at s i ReqHold"
  shows "WaitTested \<notin> set (ts_pcs s)"
proof
  assume "WaitTested \<in> set (ts_pcs s)"
  then obtain j where "j < length (ts_pcs s)" and "ts_pcs s ! j = WaitTested"
    by (auto simp: in_set_conv_nth)
  moreover from this assms have "ts_mutex s = Some j" and "ts_mutex s = Some i"
    by (auto simp: mutex_inv_def at_def)
  ultimately show False using assms(2) by (simp add: at_def)
qed

lemma set_update: "i < length xs \<Longrightarrow> x \<in> set (xs[i := y]) \<Longrightarrow> x = y \<or> x \<in> set xs"
  using set_update_subset_insert [of xs i y] by auto

lemma set_update_keep: "x \<in> set xs \<Longrightarrow> x \<noteq> xs ! i \<Longrightarrow> x \<in> set (xs[i := y])"
  by (metis in_set_conv_nth length_list_update nth_list_update_neq)

lemma flag_inv_move:
  assumes "flag_inv s" and "at s i p" and "ts_token t = ts_token s"
    and "ts_pcs t = (ts_pcs s)[i := r]"
    and "r = WaitTested \<longrightarrow> \<not> shutdownRequested (ts_token s)"
    and "r = WaitReturned True \<longrightarrow> shutdownRequested (ts_token s)"
    and "r = Asleep \<longrightarrow> p = WaitTested"
    and "p = ReqStored \<longrightarrow> r = ReqNotify" and "p \<noteq> ReqNotify"
  shows "flag_inv t"
proof -
  have i: "i < length (ts_pcs s)" and p: "ts_pcs s ! i = p" using assms(2) by (simp_all add: at_def)
  have tested: "p = WaitTested \<longrightarrow> \<not> shutdownRequested (ts_token s)"
    using assms(1) i p by (metis flag_inv_def nth_mem)
  have "owes_notify s \<Longrightarrow> owes_notify t"
    using assms(4,8,9) p i set_update_keep [of _ "ts_pcs s" i r] set_update_memI [OF i, of r]
    by (auto simp: owes_notify_def)
  moreover have "x \<in> set (ts_pcs t) \<Longrightarrow> x = r \<or> x \<in> set (ts_pcs s)" for x
    using assms(4) set_update [OF i] by simp
  ultimately show ?thesis
    using assms(1,3,5-7) tested unfolding flag_inv_def by metis
qed

lemma flag_inv_store:
  assumes "flag_inv s" and "mutex_inv s" and "at s i ReqHold"
  shows "flag_inv (tgoto i ReqStored (s\<lparr>ts_token := requestShutdown (ts_token s)\<rparr>))"
proof -
  have i: "i < length (ts_pcs s)" using assms(3) by (simp add: at_def)
  from no_tested_at_store [OF assms(2,3)] set_update [OF i, of WaitTested ReqStored]
  show ?thesis
    using set_update_memI [OF i, of ReqStored] by (auto simp: flag_inv_def owes_notify_def)
qed

lemma flag_inv_notify:
  assumes "flag_inv s" and "at s i ReqNotify"
  shows "flag_inv (tgoto i Out (s\<lparr>ts_pcs := map wake (ts_pcs s)\<rparr>))"
proof -
  have "i < length (map wake (ts_pcs s))" using assms(2) by (simp add: at_def)
  from set_update [OF this, of _ Out] have
    "x \<in> set ((map wake (ts_pcs s))[i := Out]) \<Longrightarrow> x = Out \<or> x = WaitEnter \<or> x \<in> set (ts_pcs s) \<and> x \<noteq> Asleep"
    for x by (auto simp: wake_def split: if_splits)
  with assms(1) show ?thesis by (force simp: flag_inv_def)
qed

lemma flag_inv_tenv: "tenv s t \<Longrightarrow> flag_inv s \<Longrightarrow> flag_inv t"
  by (induction rule: tenv.induct) (auto elim!: flag_inv_move)

lemma flag_inv_trun: "trun s t \<Longrightarrow> mutex_inv s \<Longrightarrow> flag_inv s \<Longrightarrow> flag_inv t"
proof (induction rule: trun.induct)
  case (store s i)
  then show ?case by (intro flag_inv_store)
next
  case (notify_all s i)
  then show ?case by (intro flag_inv_notify)
qed (auto elim!: flag_inv_move)

definition token_inv :: "token_sys \<Rightarrow> bool" where
  "token_inv s \<longleftrightarrow> mutex_inv s \<and> flag_inv s"

lemma token_inv_init: "token_init n s \<Longrightarrow> token_inv s"
  by (auto simp: token_init_def token_inv_def mutex_inv_def flag_inv_def)

lemma token_inv_step: "tstep s t \<Longrightarrow> token_inv s \<Longrightarrow> token_inv t"
  by (auto simp: token_inv_def tstep_def
      intro: mutex_inv_tenv mutex_inv_trun flag_inv_tenv flag_inv_trun)

interpretation tok: invariant_system "token_init n" tstep token_inv for n
  by unfold_locales (auto intro: token_inv_init token_inv_step)

section \<open>Properties\<close>

text \<open>The mutex is never held for ever: its holder can always go on.\<close>

lemma token_progress:
  assumes "mutex_inv s" and "\<not> settled s"
  shows "\<exists>t. trun s t"
proof (cases "ts_mutex s")
  case None
  from assms(2) obtain i p where p: "at s i p" "p \<noteq> Out" "p \<noteq> Asleep" "\<forall>b. p \<noteq> WaitReturned b"
    by (auto simp: settled_def)
  moreover from assms(1) None p(1) have "\<not> holds_mutex p" by (auto simp: mutex_inv_def at_def)
  ultimately show ?thesis
    using None by (cases p) (auto intro: trun.intros)
next
  case (Some i)
  with assms(1) have "at s i (ts_pcs s ! i)" and "holds_mutex (ts_pcs s ! i)"
    by (auto simp: mutex_inv_def at_def)
  then show ?thesis
    by (cases "ts_pcs s ! i"; cases "shutdownRequested (ts_token s)")
      (auto intro: trun.intros)
qed

text \<open>C27: The wakeable sleep. Once shutdown has been requested, no thread sleeps through it: when
  every thread is outside, has returned or is asleep, none is asleep; waitFor returns true only if
  shutdown was requested; and until then there is always a thread inside that can move without
  help from outside, so the mutex of the token never deadlocks.\<close>

theorem token_wakes_sleepers:
  assumes "reaches (token_init n) tstep s"
  shows "(shutdownRequested (ts_token s) \<and> settled s \<longrightarrow> \<not> at s i Asleep)
    \<and> (at s i (WaitReturned True) \<longrightarrow> shutdownRequested (ts_token s))
    \<and> (settled s \<or> (\<exists>t. trun s t))"
proof -
  from assms have inv: "mutex_inv s" "flag_inv s"
    using tok.reaches_invar by (auto simp: token_inv_def)
  have "\<not> owes_notify s" if "settled s"
    using that by (auto simp: settled_def owes_notify_def at_def in_set_conv_nth)
  moreover have "at s i p \<Longrightarrow> p \<in> set (ts_pcs s)" for p
    by (auto simp: at_def)
  ultimately show ?thesis
    using inv(2) token_progress [OF inv(1)] unfolding flag_inv_def by blast
qed

text \<open>A thread goes to sleep, another requests shutdown, the sleeper is woken and returns true.\<close>

abbreviation token_state :: "token \<Rightarrow> thread_id option \<Rightarrow> tpc list \<Rightarrow> token_sys" where
  "token_state t m ps \<equiv> \<lparr>ts_token = t, ts_mutex = m, ts_pcs = ps\<rparr>"

lemma reaches_two_steps:
  "reaches init step s \<Longrightarrow> step s t \<Longrightarrow> step t u \<Longrightarrow> reaches init step u"
  by (blast intro: reaches_step)

lemma sleeper_sleeps: "reaches (token_init 2) tstep (token_state new_token None [Asleep, Out])"
proof -
  have start: "reaches (token_init 2) tstep (token_state new_token None [Out, Out])"
    by (rule reaches_init) (simp add: token_init_def numeral_2_eq_2)
  have "tstep (token_state new_token None [Out, Out]) (token_state new_token None [WaitEnter, Out])"
    using tenv.call_wait [of "token_state new_token None [Out, Out]" 0] by (simp add: at_def tgoto_def tstep_def)
  moreover have "tstep (token_state new_token None [WaitEnter, Out]) (token_state new_token (Some 0) [WaitTest, Out])"
    using lock_wait [of "token_state new_token None [WaitEnter, Out]" 0] by (simp add: at_def tgoto_def tstep_def)
  ultimately have "reaches (token_init 2) tstep (token_state new_token (Some 0) [WaitTest, Out])"
    using start reaches_two_steps by metis
  moreover have "tstep (token_state new_token (Some 0) [WaitTest, Out]) (token_state new_token (Some 0) [WaitTested, Out])"
    using test_false [of "token_state new_token (Some 0) [WaitTest, Out]" 0]
    by (simp add: at_def tgoto_def tstep_def shutdownRequested_def new_token_def)
  moreover have "tstep (token_state new_token (Some 0) [WaitTested, Out]) (token_state new_token None [Asleep, Out])"
    using sleep [of "token_state new_token (Some 0) [WaitTested, Out]" 0] by (simp add: at_def tgoto_def tstep_def)
  ultimately show ?thesis using reaches_two_steps by metis
qed

lemma request_wakes:
  "reaches (token_init 2) tstep (token_state (requestShutdown new_token) None [WaitReturned True, Out])"
proof -
  let ?t = "requestShutdown new_token"
  have "tstep (token_state new_token None [Asleep, Out]) (token_state new_token None [Asleep, ReqEnter])"
    using tenv.call_request [of "token_state new_token None [Asleep, Out]" 1] by (simp add: at_def tgoto_def tstep_def)
  moreover have "tstep (token_state new_token None [Asleep, ReqEnter]) (token_state new_token (Some 1) [Asleep, ReqHold])"
    using lock_request [of "token_state new_token None [Asleep, ReqEnter]" 1] by (simp add: at_def tgoto_def tstep_def)
  ultimately have "reaches (token_init 2) tstep (token_state new_token (Some 1) [Asleep, ReqHold])"
    using sleeper_sleeps reaches_two_steps by metis
  moreover have "tstep (token_state new_token (Some 1) [Asleep, ReqHold]) (token_state ?t (Some 1) [Asleep, ReqStored])"
    using store [of "token_state new_token (Some 1) [Asleep, ReqHold]" 1] by (simp add: at_def tgoto_def tstep_def)
  moreover have "tstep (token_state ?t (Some 1) [Asleep, ReqStored]) (token_state ?t None [Asleep, ReqNotify])"
    using unlock_request [of "token_state ?t (Some 1) [Asleep, ReqStored]" 1] by (simp add: at_def tgoto_def tstep_def)
  ultimately have "reaches (token_init 2) tstep (token_state ?t None [Asleep, ReqNotify])"
    using reaches_two_steps by metis
  moreover have "tstep (token_state ?t None [Asleep, ReqNotify]) (token_state ?t None [WaitEnter, Out])"
    using notify_all [of "token_state ?t None [Asleep, ReqNotify]" 1] by (simp add: at_def tgoto_def tstep_def wake_def)
  moreover have "tstep (token_state ?t None [WaitEnter, Out]) (token_state ?t (Some 0) [WaitTest, Out])"
    using lock_wait [of "token_state ?t None [WaitEnter, Out]" 0] by (simp add: at_def tgoto_def tstep_def)
  ultimately have "reaches (token_init 2) tstep (token_state ?t (Some 0) [WaitTest, Out])"
    using reaches_two_steps by metis
  moreover have "tstep (token_state ?t (Some 0) [WaitTest, Out]) (token_state ?t None [WaitReturned True, Out])"
    using test_true [of "token_state ?t (Some 0) [WaitTest, Out]" 0]
    by (simp add: at_def tgoto_def tstep_def shutdownRequested_def requestShutdown_def)
  ultimately show ?thesis by (blast intro: reaches_step)
qed

theorem token_wakes_sleepers_witness:
  "let s = token_state (requestShutdown new_token) None [WaitReturned True, Out]
   in reaches (token_init 2) tstep s \<and> settled s \<and> shutdownRequested (ts_token s) \<and> \<not> at s 0 Asleep"
proof -
  let ?s = "token_state (requestShutdown new_token) None [WaitReturned True, Out]"
  have "settled ?s" by (auto simp: settled_def at_def less_Suc_eq numeral_2_eq_2)
  moreover have "at ?s 0 (WaitReturned True)" by (simp add: at_def)
  ultimately show ?thesis using token_wakes_sleepers [OF request_wakes, of 0] request_wakes unfolding Let_def by blast
qed

end
