(* ===== verification/Radar_Metrics.thy ===== *)
theory Radar_Metrics
  imports Radar_Prelude
begin

text \<open>
  The counters and gauges of \<^verbatim>\<open>include/radar/metrics.hpp\<close> and \<^verbatim>\<open>src/metrics.cpp\<close>. An event counter is
  a \<^verbatim>\<open>fetch_add\<close> on a 64-bit unsigned atomic, a gauge a plain store; each is one indivisible
  operation, so a run of any number of threads is a list of operations in the order in which they
  took effect.
\<close>

section \<open>State and operations\<close>

record metrics =
  m_signalsProduced :: u64
  m_signalsProcessed :: u64
  m_inputDrops :: u64
  m_logDrops :: u64
  m_deadlineMisses :: u64
  m_watchdogStalls :: u64
  m_threadExceptions :: u64
  m_inputQueueDepth :: nat
  m_outputQueueDepth :: nat
  m_lastProcessingLatencyTicks :: int

definition new_metrics :: metrics where
  "new_metrics =
     \<lparr>m_signalsProduced = 0, m_signalsProcessed = 0, m_inputDrops = 0, m_logDrops = 0,
      m_deadlineMisses = 0, m_watchdogStalls = 0, m_threadExceptions = 0,
      m_inputQueueDepth = 0, m_outputQueueDepth = 0, m_lastProcessingLatencyTicks = 0\<rparr>"

definition recordSignalProduced :: "metrics \<Rightarrow> metrics" where
  [metrics_simps]: "recordSignalProduced m = m\<lparr>m_signalsProduced := m_signalsProduced m + 1\<rparr>"

definition recordSignalProcessed :: "metrics \<Rightarrow> metrics" where
  [metrics_simps]: "recordSignalProcessed m = m\<lparr>m_signalsProcessed := m_signalsProcessed m + 1\<rparr>"

definition recordDeadlineMiss :: "metrics \<Rightarrow> metrics" where
  [metrics_simps]: "recordDeadlineMiss m = m\<lparr>m_deadlineMisses := m_deadlineMisses m + 1\<rparr>"

definition recordWatchdogStall :: "metrics \<Rightarrow> metrics" where
  [metrics_simps]: "recordWatchdogStall m = m\<lparr>m_watchdogStalls := m_watchdogStalls m + 1\<rparr>"

definition recordThreadException :: "metrics \<Rightarrow> metrics" where
  [metrics_simps]: "recordThreadException m = m\<lparr>m_threadExceptions := m_threadExceptions m + 1\<rparr>"

definition setInputQueueDepth :: "nat \<Rightarrow> metrics \<Rightarrow> metrics" where
  [metrics_simps]: "setInputQueueDepth d m = m\<lparr>m_inputQueueDepth := d\<rparr>"

definition setOutputQueueDepth :: "nat \<Rightarrow> metrics \<Rightarrow> metrics" where
  [metrics_simps]: "setOutputQueueDepth d m = m\<lparr>m_outputQueueDepth := d\<rparr>"

definition setInputDrops :: "u64 \<Rightarrow> metrics \<Rightarrow> metrics" where
  [metrics_simps]: "setInputDrops d m = m\<lparr>m_inputDrops := d\<rparr>"

definition setLogDrops :: "u64 \<Rightarrow> metrics \<Rightarrow> metrics" where
  [metrics_simps]: "setLogDrops d m = m\<lparr>m_logDrops := d\<rparr>"

definition recordProcessingLatency :: "duration \<Rightarrow> metrics \<Rightarrow> metrics" where
  [metrics_simps]: "recordProcessingLatency d m = m\<lparr>m_lastProcessingLatencyTicks := d\<rparr>"

text \<open>The acquire loads; the latency is wrapped back into a duration.\<close>

definition signalsProduced :: "metrics \<Rightarrow> u64" where "signalsProduced m = m_signalsProduced m"

definition signalsProcessed :: "metrics \<Rightarrow> u64" where "signalsProcessed m = m_signalsProcessed m"

definition inputDrops :: "metrics \<Rightarrow> u64" where "inputDrops m = m_inputDrops m"

definition logDrops :: "metrics \<Rightarrow> u64" where "logDrops m = m_logDrops m"

definition deadlineMisses :: "metrics \<Rightarrow> u64" where "deadlineMisses m = m_deadlineMisses m"

definition watchdogStalls :: "metrics \<Rightarrow> u64" where "watchdogStalls m = m_watchdogStalls m"

definition threadExceptions :: "metrics \<Rightarrow> u64" where "threadExceptions m = m_threadExceptions m"

definition inputQueueDepth :: "metrics \<Rightarrow> nat" where "inputQueueDepth m = m_inputQueueDepth m"

definition outputQueueDepth :: "metrics \<Rightarrow> nat" where "outputQueueDepth m = m_outputQueueDepth m"

definition lastProcessingLatency :: "metrics \<Rightarrow> duration" where
  "lastProcessingLatency m = m_lastProcessingLatencyTicks m"

lemmas metrics_loads = signalsProduced_def signalsProcessed_def inputDrops_def logDrops_def deadlineMisses_def
  watchdogStalls_def threadExceptions_def inputQueueDepth_def outputQueueDepth_def lastProcessingLatency_def

section \<open>Runs of operations\<close>

datatype metric_op =
    SignalProduced | SignalProcessed | DeadlineMiss | WatchdogStall | ThreadException
  | InputDepth nat | OutputDepth nat | InputDrops u64 | LogDrops u64 | Latency duration

fun exec_metric :: "metric_op \<Rightarrow> metrics \<Rightarrow> metrics" where
  "exec_metric SignalProduced m = recordSignalProduced m"
| "exec_metric SignalProcessed m = recordSignalProcessed m"
| "exec_metric DeadlineMiss m = recordDeadlineMiss m"
| "exec_metric WatchdogStall m = recordWatchdogStall m"
| "exec_metric ThreadException m = recordThreadException m"
| "exec_metric (InputDepth d) m = setInputQueueDepth d m"
| "exec_metric (OutputDepth d) m = setOutputQueueDepth d m"
| "exec_metric (InputDrops d) m = setInputDrops d m"
| "exec_metric (LogDrops d) m = setLogDrops d m"
| "exec_metric (Latency d) m = recordProcessingLatency d m"

abbreviation exec_metrics :: "metric_op list \<Rightarrow> metrics \<Rightarrow> metrics" where
  "exec_metrics ops m \<equiv> fold exec_metric ops m"

text \<open>The last value a gauge was set to, or what it held before.\<close>

definition last_set :: "('o \<Rightarrow> 'v option) \<Rightarrow> 'o list \<Rightarrow> 'v \<Rightarrow> 'v" where
  "last_set sel ops v = fold (\<lambda>x acc. case sel x of None \<Rightarrow> acc | Some w \<Rightarrow> w) ops v"

fun latency_of :: "metric_op \<Rightarrow> duration option" where
  "latency_of (Latency d) = Some d"
| "latency_of _ = None"

fun logDrops_of :: "metric_op \<Rightarrow> u64 option" where
  "logDrops_of (LogDrops d) = Some d"
| "logDrops_of _ = None"

fun outputDepth_of :: "metric_op \<Rightarrow> nat option" where
  "outputDepth_of (OutputDepth d) = Some d"
| "outputDepth_of _ = None"

section \<open>Properties\<close>

lemma counter_fold:
  fixes get :: "metrics \<Rightarrow> u64"
  assumes "\<And>x m. get (exec_metric x m) = get m + (if x = e then 1 else 0)"
  shows "get (exec_metrics ops m) = get m + of_nat (count_list ops e)"
  by (induction ops arbitrary: m) (auto simp: assms)

lemma counter_step:
  "m_signalsProduced (exec_metric x m) = m_signalsProduced m + (if x = SignalProduced then 1 else 0)"
  "m_signalsProcessed (exec_metric x m) = m_signalsProcessed m + (if x = SignalProcessed then 1 else 0)"
  "m_deadlineMisses (exec_metric x m) = m_deadlineMisses m + (if x = DeadlineMiss then 1 else 0)"
  "m_watchdogStalls (exec_metric x m) = m_watchdogStalls m + (if x = WatchdogStall then 1 else 0)"
  "m_threadExceptions (exec_metric x m) = m_threadExceptions m + (if x = ThreadException then 1 else 0)"
  by (cases x; simp add: metrics_simps)+

lemmas counters_fold = counter_step [THEN counter_fold]

lemma gauges_fold:
  "m_logDrops (exec_metrics ops m) = last_set logDrops_of ops (m_logDrops m)"
  "m_outputQueueDepth (exec_metrics ops m) = last_set outputDepth_of ops (m_outputQueueDepth m)"
  "lastProcessingLatency (exec_metrics ops m) = last_set latency_of ops (lastProcessingLatency m)"
proof (induction ops arbitrary: m)
  case (Cons x xs)
  case 1 show ?case by (cases x) (simp_all add: Cons last_set_def metrics_simps)
  case 2 show ?case by (cases x) (simp_all add: Cons last_set_def metrics_simps)
  case 3 show ?case
    by (cases x) (simp_all add: Cons last_set_def metrics_simps, simp_all add: lastProcessingLatency_def)
qed (simp_all add: last_set_def)

text \<open>Two threads' operations in any interleaving give each counter the sum of both threads'
  events.\<close>

lemma count_list_shuffles: "zs \<in> shuffles xs ys \<Longrightarrow> count_list zs x = count_list xs x + count_list ys x"
  by (induction xs ys arbitrary: zs rule: shuffles.induct) auto

text \<open>No event is lost. Whatever the order in which concurrent threads update the metrics,
  each event counter is the number of its events, summed over the threads and modulo 2^64, and no
  operation on one counter or gauge disturbs another counter. A gauge shared by several threads
  holds whatever was stored last.\<close>

lemma counters_count_events:
  "\<forall>ops \<in> shuffles xs ys.
     m_signalsProduced (exec_metrics ops new_metrics)
       = of_nat (count_list xs SignalProduced + count_list ys SignalProduced)
   \<and> m_signalsProcessed (exec_metrics ops new_metrics)
       = of_nat (count_list xs SignalProcessed + count_list ys SignalProcessed)
   \<and> m_deadlineMisses (exec_metrics ops new_metrics)
       = of_nat (count_list xs DeadlineMiss + count_list ys DeadlineMiss)
   \<and> m_watchdogStalls (exec_metrics ops new_metrics)
       = of_nat (count_list xs WatchdogStall + count_list ys WatchdogStall)
   \<and> m_threadExceptions (exec_metrics ops new_metrics)
       = of_nat (count_list xs ThreadException + count_list ys ThreadException)
   \<and> m_logDrops (exec_metrics ops new_metrics) = last_set logDrops_of ops 0
   \<and> m_outputQueueDepth (exec_metrics ops new_metrics) = last_set outputDepth_of ops 0
   \<and> lastProcessingLatency (exec_metrics ops new_metrics) = last_set latency_of ops 0"
  by (simp add: counters_fold gauges_fold count_list_shuffles)
    (simp add: new_metrics_def lastProcessingLatency_def)

lemma counters_count_events_example:
  "[SignalProduced, LogDrops 7, SignalProduced] \<in> shuffles [SignalProduced, SignalProduced] [LogDrops 7]
   \<and> m_signalsProduced (exec_metrics [SignalProduced, LogDrops 7, SignalProduced] new_metrics) = 2"
proof -
  have m: "[SignalProduced, LogDrops 7, SignalProduced]
      \<in> shuffles [SignalProduced, SignalProduced] [LogDrops 7]"
    by simp
  from m counters_count_events [of "[SignalProduced, SignalProduced]" "[LogDrops 7]"]
  show ?thesis by (auto dest!: bspec [OF _ m])
qed

end
