(* ===== verification/Heartbeats.thy ===== *)
theory Heartbeats
  imports Radar_Prelude
begin

text \<open>
  \<^verbatim>\<open>include/radar/heartbeat.hpp\<close>, \<^verbatim>\<open>include/radar/heartbeat_registry.hpp\<close> and
  \<^verbatim>\<open>src/heartbeat_registry.cpp\<close>: the two atomics of a heartbeat, the registry that owns the
  heartbeats, and the release/acquire argument the comments in the source make about the order in
  which the watchdog reads them.
\<close>

section \<open>Heartbeat\<close>

datatype HeartbeatState = Running | WaitingForInput

record heartbeat =
  hb_timestamp :: time_point
  hb_state :: HeartbeatState

definition new_heartbeat :: heartbeat where
  "new_heartbeat = \<lparr>hb_timestamp = 0, hb_state = WaitingForInput\<rparr>"

definition markRunning :: "time_point \<Rightarrow> heartbeat \<Rightarrow> heartbeat" where
  "markRunning now hb = (hb\<lparr>hb_timestamp := now\<rparr>)\<lparr>hb_state := Running\<rparr>"

definition markWaiting :: "heartbeat \<Rightarrow> heartbeat" where
  "markWaiting hb = hb\<lparr>hb_state := WaitingForInput\<rparr>"

section \<open>Registry\<close>

text \<open>
  Entries are owned by a deque that only grows at its end, so a reference to the entry stays valid:
  it is modelled by the entry's index.
\<close>

type_synonym registry = "(string \<times> heartbeat) list"

definition registerHeartbeat :: "string \<Rightarrow> registry \<Rightarrow> nat \<times> registry" where
  "registerHeartbeat name reg = (length reg, reg @ [(name, new_heartbeat)])"

definition registry_size :: "registry \<Rightarrow> nat" where
  "registry_size reg = length reg"

definition forEach :: "(string \<Rightarrow> heartbeat \<Rightarrow> 's \<Rightarrow> 's) \<Rightarrow> registry \<Rightarrow> 's \<Rightarrow> 's" where
  "forEach visitor reg s = fold (\<lambda>(name, hb). visitor name hb) reg s"

definition beat :: "nat \<Rightarrow> (heartbeat \<Rightarrow> heartbeat) \<Rightarrow> registry \<Rightarrow> registry" where
  "beat i f reg = reg[i := (fst (reg ! i), f (snd (reg ! i)))]"

lemma length_beat [simp]: "length (beat i f reg) = length reg"
  by (simp add: beat_def)

lemma names_beat [simp]: "map fst (beat i f reg) = map fst reg"
  by (cases "i < length reg") (simp_all add: beat_def map_update list_update_same_conv list_update_beyond not_less)

lemma beat_nth: "i < length reg \<Longrightarrow> snd (beat i f reg ! j) = (if i = j then f (snd (reg ! i)) else snd (reg ! j))"
  by (auto simp: beat_def nth_list_update)

text \<open>Names registered one after the other, as the application does before any thread starts.\<close>

fun register_all :: "string list \<Rightarrow> registry \<Rightarrow> nat list \<times> registry" where
  "register_all [] reg = ([], reg)"
| "register_all (n # ns) reg =
     (let (i, reg1) = registerHeartbeat n reg; (is, reg2) = register_all ns reg1 in (i # is, reg2))"

lemma register_all_eq:
  "register_all ns reg =
     ([length reg ..< length reg + length ns], reg @ map (\<lambda>n. (n, new_heartbeat)) ns)"
  by (induction ns arbitrary: reg)
    (simp_all add: registerHeartbeat_def upt_conv_Cons [of "length _"] del: upt_Suc)

section \<open>What a lock-free reader can see\<close>

text \<open>
  Each of the two atomics has a modification order: the list of the values stored into it. Every
  store is a release, so a stored state carries the writer's view: the index of the last timestamp
  it had stored. An acquire load may return any value not older than what the reader has seen of
  that atomic, and takes over the view of the store it reads from. The state entries keep, beside
  the state, the call that stored it; this is a history variable, never read by the program.
\<close>

datatype hb_call = MarkRunning time_point | MarkWaiting

fun state_of :: "hb_call \<Rightarrow> HeartbeatState" where
  "state_of (MarkRunning t) = Running"
| "state_of MarkWaiting = WaitingForInput"

datatype hb_store = StoreTimestamp time_point | StoreState hb_call

fun stores_of :: "hb_call \<Rightarrow> hb_store list" where
  "stores_of (MarkRunning t) = [StoreTimestamp t, StoreState (MarkRunning t)]"
| "stores_of MarkWaiting = [StoreState MarkWaiting]"

record hb_mem =
  ts_order :: "time_point list"
  st_order :: "(hb_call \<times> nat) list"
  pending :: "hb_store list"
  seen_ts :: nat
  seen_st :: nat
  read_state :: "hb_call option"
  read_ts :: "time_point option"

definition hb_mem_init :: "hb_mem \<Rightarrow> bool" where
  "hb_mem_init m \<longleftrightarrow> m = \<lparr>ts_order = [0], st_order = [(MarkWaiting, 0)], pending = [],
     seen_ts = 0, seen_st = 0, read_state = None, read_ts = None\<rparr>"

fun do_store :: "hb_store \<Rightarrow> hb_mem \<Rightarrow> hb_mem" where
  "do_store (StoreTimestamp t) m = m\<lparr>ts_order := ts_order m @ [t]\<rparr>"
| "do_store (StoreState c) m = m\<lparr>st_order := st_order m @ [(c, length (ts_order m) - 1)]\<rparr>"

text \<open>
  The worker's clock is monotonic, so the argument of \<^verbatim>\<open>markRunning\<close> never lies before a timestamp
  it has already published. A reading of the heartbeat is a load of the state and, in the order the
  source prescribes, a load of the timestamp.
\<close>

inductive hb_step :: "hb_mem \<Rightarrow> hb_mem \<Rightarrow> bool" where
  hb_running: "pending m = [] \<Longrightarrow> last (ts_order m) \<le> t
     \<Longrightarrow> hb_step m (m\<lparr>pending := stores_of (MarkRunning t)\<rparr>)"
| hb_waiting: "pending m = [] \<Longrightarrow> hb_step m (m\<lparr>pending := stores_of MarkWaiting\<rparr>)"
| hb_write: "pending m = s # ss \<Longrightarrow> hb_step m (do_store s (m\<lparr>pending := ss\<rparr>))"
| hb_load_state: "seen_st m \<le> i \<Longrightarrow> i < length (st_order m)
     \<Longrightarrow> hb_step m (m\<lparr>seen_st := i, seen_ts := max (seen_ts m) (snd (st_order m ! i)),
                       read_state := Some (fst (st_order m ! i)), read_ts := None\<rparr>)"
| hb_load_timestamp: "seen_ts m \<le> j \<Longrightarrow> j < length (ts_order m)
     \<Longrightarrow> hb_step m (m\<lparr>seen_ts := j, read_ts := Some (ts_order m ! j)\<rparr>)"

text \<open>
  The invariant: timestamps are stored in ascending order, every Running entry points at the
  timestamp of its own call, and so does a Running store that is still pending.
\<close>

definition hb_inv :: "hb_mem \<Rightarrow> bool" where
  "hb_inv m \<longleftrightarrow> ts_order m \<noteq> [] \<and> sorted (ts_order m)
     \<and> (\<forall>(c, v) \<in> set (st_order m). v < length (ts_order m)
          \<and> (\<forall>t. c = MarkRunning t \<longrightarrow> ts_order m ! v = t))
     \<and> (\<forall>t. pending m = stores_of (MarkRunning t) \<longrightarrow> last (ts_order m) \<le> t)
     \<and> (\<forall>t. pending m = [StoreState (MarkRunning t)] \<longrightarrow> last (ts_order m) = t)
     \<and> (pending m = [] \<or> pending m = [StoreState MarkWaiting]
          \<or> (\<exists>t. pending m = stores_of (MarkRunning t) \<or> pending m = [StoreState (MarkRunning t)]))
     \<and> seen_ts m < length (ts_order m)
     \<and> (\<forall>t. read_state m = Some (MarkRunning t) \<longrightarrow> t \<le> ts_order m ! seen_ts m)
     \<and> (\<forall>t x. read_state m = Some (MarkRunning t) \<and> read_ts m = Some x \<longrightarrow> t \<le> x)"

lemma sorted_le_last: "sorted xs \<Longrightarrow> x \<in> set xs \<Longrightarrow> x \<le> last xs"
  by (induction xs) auto

lemma hb_inv_write_ts:
  assumes "hb_inv m" and "pending m = StoreTimestamp t # ss"
  shows "hb_inv (do_store (StoreTimestamp t) (m\<lparr>pending := ss\<rparr>))"
proof -
  have p: "last (ts_order m) \<le> t" "ss = [StoreState (MarkRunning t)]"
    using assms by (auto simp: hb_inv_def)
  have "x \<le> t" if "x \<in> set (ts_order m)" for x
    using sorted_le_last [of "ts_order m" x] assms(1) that p(1) by (auto simp: hb_inv_def)
  then show ?thesis
    using assms p by (auto simp: hb_inv_def sorted_append nth_append)
qed

lemma hb_inv_write_st:
  assumes "hb_inv m" and "pending m = StoreState c # ss"
  shows "hb_inv (do_store (StoreState c) (m\<lparr>pending := ss\<rparr>))"
proof -
  have ss: "ss = []" using assms by (auto simp: hb_inv_def)
  have "last (ts_order m) = t" if "c = MarkRunning t" for t
    using assms that ss by (simp add: hb_inv_def)
  with assms ss show ?thesis by (auto simp: hb_inv_def last_conv_nth)
qed

lemma hb_inv_load_state:
  assumes inv: "hb_inv m" and i: "i < length (st_order m)"
  shows "hb_inv (m\<lparr>seen_st := i, seen_ts := max (seen_ts m) (snd (st_order m ! i)),
                    read_state := Some (fst (st_order m ! i)), read_ts := None\<rparr>)"
proof -
  obtain c v where e: "st_order m ! i = (c, v)" by fastforce
  have "(c, v) \<in> set (st_order m)" using i e by (metis nth_mem)
  then have v: "v < length (ts_order m)" "\<And>t. c = MarkRunning t \<Longrightarrow> ts_order m ! v = t"
    using inv by (auto simp: hb_inv_def)
  moreover have "seen_ts m < length (ts_order m)" "sorted (ts_order m)"
    using inv by (auto simp: hb_inv_def)
  ultimately have "t \<le> ts_order m ! max (seen_ts m) v" if "c = MarkRunning t" for t
    using that by (metis linorder_linear max_def sorted_nth_mono)
  with v inv e show ?thesis by (simp add: hb_inv_def)
qed

lemma hb_inv_load_timestamp:
  assumes inv: "hb_inv m" and j: "seen_ts m \<le> j" "j < length (ts_order m)"
  shows "hb_inv (m\<lparr>seen_ts := j, read_ts := Some (ts_order m ! j)\<rparr>)"
proof -
  have "ts_order m ! seen_ts m \<le> ts_order m ! j"
    using inv j by (simp add: hb_inv_def sorted_nth_mono)
  with inv j show ?thesis by (fastforce simp: hb_inv_def)
qed

lemma hb_inv_step: "hb_step m m' \<Longrightarrow> hb_inv m \<Longrightarrow> hb_inv m'"
proof (induction rule: hb_step.induct)
  case (hb_write m s ss)
  then show ?case
    by (cases s) (simp_all only: hb_inv_write_ts hb_inv_write_st)
next
  case (hb_load_state m i)
  then show ?case by (blast intro: hb_inv_load_state)
next
  case (hb_load_timestamp m j)
  then show ?case by (blast intro: hb_inv_load_timestamp)
qed (simp_all add: hb_inv_def)

interpretation hb: invariant_system hb_mem_init hb_step hb_inv
proof unfold_locales
  show "hb_inv m" if "hb_mem_init m" for m
    using that by (auto simp: hb_mem_init_def hb_inv_def)
qed (rule hb_inv_step)

section \<open>Properties\<close>

text \<open>C28: Lock-free heartbeat reads. A reader that loads the state before the timestamp, under the
  release/acquire ordering of the source and with the worker running at any speed in between,
  never pairs a Running with a timestamp older than the one published by the very markRunning call
  it read.\<close>

theorem running_never_paired_with_stale_timestamp:
  assumes "reaches hb_mem_init hb_step m"
    and "read_state m = Some (MarkRunning t)" and "read_ts m = Some x"
  shows "t \<le> x"
  using hb.reaches_invar [OF assms(1)] assms(2,3) by (simp add: hb_inv_def)

abbreviation one_beat :: hb_mem where
  "one_beat \<equiv> \<lparr>ts_order = [0, 5], st_order = [(MarkWaiting, 0), (MarkRunning 5, 1)], pending = [],
     seen_ts = 0, seen_st = 0, read_state = None, read_ts = None\<rparr>"

lemma one_beat_reached: "reaches hb_mem_init hb_step one_beat"
proof -
  let ?start = "\<lparr>ts_order = [0], st_order = [(MarkWaiting, 0)], pending = [],
     seen_ts = 0, seen_st = 0, read_state = None, read_ts = None\<rparr> :: hb_mem"
  have "hb_step ?start (?start\<lparr>pending := stores_of (MarkRunning 5)\<rparr>)"
    by (rule hb_running) simp_all
  moreover have "hb_step (?start\<lparr>pending := stores_of (MarkRunning 5)\<rparr>)
      (?start\<lparr>ts_order := [0, 5], pending := [StoreState (MarkRunning 5)]\<rparr>)"
    using hb_write [of "?start\<lparr>pending := stores_of (MarkRunning 5)\<rparr>"] by simp
  moreover have "hb_step (?start\<lparr>ts_order := [0, 5], pending := [StoreState (MarkRunning 5)]\<rparr>) one_beat"
    using hb_write [of "?start\<lparr>ts_order := [0, 5], pending := [StoreState (MarkRunning 5)]\<rparr>"] by simp
  moreover have "reaches hb_mem_init hb_step ?start"
    by (rule reaches_init) (simp add: hb_mem_init_def)
  ultimately show ?thesis by (blast intro: reaches_step)
qed

theorem running_never_paired_with_stale_timestamp_witness:
  "\<exists>m. read_state m = Some (MarkRunning 5) \<and> read_ts m = Some 5 \<and> reaches hb_mem_init hb_step m
     \<and> (5::time_point) \<le> 5"
proof -
  let ?loaded = "one_beat\<lparr>seen_st := 1, seen_ts := 1, read_state := Some (MarkRunning 5)\<rparr>"
  have "hb_step one_beat ?loaded"
    using hb_load_state [of one_beat 1] by simp
  moreover have "hb_step ?loaded (?loaded\<lparr>read_ts := Some 5\<rparr>)"
    using hb_load_timestamp [of ?loaded 1] by simp
  ultimately have r: "reaches hb_mem_init hb_step (?loaded\<lparr>read_ts := Some 5\<rparr>)"
    using one_beat_reached by (blast intro: reaches_step)
  from running_never_paired_with_stale_timestamp [OF r] r show ?thesis
    by (intro exI [of _ "?loaded\<lparr>read_ts := Some 5\<rparr>"]) simp
qed

text \<open>
  The order of the two loads matters, as the comment in the source says: a reader that takes the
  timestamp first can still see the old timestamp and then a fresh Running.
\<close>

lemma opposite_order_pairs_stale_timestamp:
  "\<exists>m m' t x. reaches hb_mem_init hb_step m \<and> read_ts m = Some x \<and> hb_step m m'
     \<and> read_state m' = Some (MarkRunning t) \<and> x < t"
proof -
  let ?early = "one_beat\<lparr>read_ts := Some 0\<rparr>"
  have "hb_step one_beat ?early"
    using hb_load_timestamp [of one_beat 0] by simp
  moreover have "hb_step ?early
      (?early\<lparr>seen_st := 1, seen_ts := 1, read_state := Some (MarkRunning 5), read_ts := None\<rparr>)"
    using hb_load_state [of ?early 1] by simp
  ultimately show ?thesis
    using one_beat_reached
    by (intro exI [of _ ?early] exI [of _ "5::int"] exI [of _ "0::int"] exI) (auto intro: reaches_step)
qed

end
