(* ===== verification/Data_Model.thy ===== *)
theory Data_Model
  imports Radar_Prelude
begin

text \<open>
  The value types that travel through the queues: \<^verbatim>\<open>RadarSignal\<close>, \<^verbatim>\<open>ProcessedSignal\<close> and
  \<^verbatim>\<open>LogRecord\<close>. The single-precision numbers they carry are a type parameter, because no code
  outside the signal processing computes with them.
\<close>

definition kRadarSampleCount :: nat where "kRadarSampleCount = 256"

record 'f radar_signal =
  sig_timestamp :: time_point
  sig_samples :: "'f list"

definition RadarSignal :: "time_point \<Rightarrow> 'f list \<Rightarrow> 'f radar_signal" where
  "RadarSignal t xs = \<lparr>sig_timestamp = t, sig_samples = xs\<rparr>"

record 'f processed_signal =
  ps_timestamp :: time_point
  ps_targetDetected :: bool
  ps_peakMagnitude :: 'f

definition ProcessedSignal :: "time_point \<Rightarrow> bool \<Rightarrow> 'f \<Rightarrow> 'f processed_signal" where
  "ProcessedSignal t d p = \<lparr>ps_timestamp = t, ps_targetDetected = d, ps_peakMagnitude = p\<rparr>"

datatype LogLevel = Info | Warning | Error

datatype LogSource = Producer | Dsp | Watchdog

record 'f log_result =
  r_targetDetected :: bool
  r_peakMagnitude :: 'f

record 'f log_record =
  lr_level :: LogLevel
  lr_timestamp :: time_point
  lr_source :: LogSource
  lr_result :: "'f log_result option"
  lr_message :: string

text \<open>The two constructors: a result payload with an empty message, or a message without result.\<close>

definition result_record :: "LogLevel \<Rightarrow> time_point \<Rightarrow> LogSource \<Rightarrow> 'f log_result \<Rightarrow> 'f log_record" where
  "result_record lv t src r =
     \<lparr>lr_level = lv, lr_timestamp = t, lr_source = src, lr_result = Some r, lr_message = []\<rparr>"

definition message_record :: "LogLevel \<Rightarrow> time_point \<Rightarrow> LogSource \<Rightarrow> string \<Rightarrow> 'f log_record" where
  "message_record lv t src m =
     \<lparr>lr_level = lv, lr_timestamp = t, lr_source = src, lr_result = None, lr_message = m\<rparr>"

end
