(* ===== verification/Radar_Config.thy ===== *)
theory Radar_Config
  imports Radar_Prelude
begin

text \<open>
  The injected configuration of \<^verbatim>\<open>include/radar/config.hpp\<close>: one record per nested struct, the
  \<^verbatim>\<open>Params\<close> record that groups them, their default member initialisers, and the accessors. The
  units are those of the source: microseconds for the sample period, milliseconds elsewhere.
\<close>

record producer_cfg =
  samplePeriod :: int

record queues_cfg =
  inputCapacity :: nat
  outputCapacity :: nat

record pool_cfg =
  workerCount :: nat

record watchdog_cfg =
  scanInterval :: int
  livenessTimeout :: int
  escalateToShutdown :: bool

record realtime_cfg =
  rt_enabled :: bool
  lockMemory :: bool
  producerPriority :: int
  dspPriority :: int
  watchdogPriority :: int
  loggerPriority :: int

record logging_cfg =
  filePath :: string
  console :: bool

record signal_cfg =
  pollInterval :: int

record config =
  producer :: producer_cfg
  queues :: queues_cfg
  pool :: pool_cfg
  watchdog :: watchdog_cfg
  realtime :: realtime_cfg
  logging :: logging_cfg
  signal :: signal_cfg

definition default_config :: config where
  "default_config =
     \<lparr>producer = \<lparr>samplePeriod = 1000\<rparr>,
      queues = \<lparr>inputCapacity = 256, outputCapacity = 1024\<rparr>,
      pool = \<lparr>workerCount = 4\<rparr>,
      watchdog = \<lparr>scanInterval = 100, livenessTimeout = 500, escalateToShutdown = False\<rparr>,
      realtime = \<lparr>rt_enabled = True, lockMemory = True, producerPriority = 80, dspPriority = 70,
                  watchdogPriority = 60, loggerPriority = 40\<rparr>,
      logging = \<lparr>filePath = ''radar.log'', console = True\<rparr>,
      signal = \<lparr>pollInterval = 100\<rparr>\<rparr>"

text \<open>The durations the subsystems derive from it, in nanoseconds.\<close>

definition period_of :: "config \<Rightarrow> duration" where
  "period_of cfg = of_us (samplePeriod (producer cfg))"

definition timeout_of :: "config \<Rightarrow> duration" where
  "timeout_of cfg = of_ms (livenessTimeout (watchdog cfg))"

definition scan_interval_of :: "config \<Rightarrow> duration" where
  "scan_interval_of cfg = of_ms (scanInterval (watchdog cfg))"

end
