(* ===== verification/Realtime_Manager.thy ===== *)
theory Realtime_Manager
  imports Radar_Config Radar_Exceptions
begin

text \<open>
  \<^verbatim>\<open>src/realtime_manager.cpp\<close> and \<^verbatim>\<open>src/diagnostics.cpp\<close>. The operating system is a parameter: a
  record with the results of the calls the code makes. What they did to the process is not
  modelled; which of them are made, what the code concludes from their results, which bytes the
  prefaulting loops touch and what is printed are.
\<close>

section \<open>The results of the system calls\<close>

text \<open>
  \<^verbatim>\<open>mlockall\<close> returns a value and sets \<^verbatim>\<open>errno\<close>; the \<^verbatim>\<open>pthread\<close> calls return the error number.
  \<^verbatim>\<open>sysconf\<close> returns a signed 64-bit \<^verbatim>\<open>long\<close>.
\<close>

record os =
  os_pagesize :: "64 word"
  os_mlockall :: "int \<times> int"
  os_malloc :: bool
  os_setschedparam :: "int \<Rightarrow> int"
  os_setaffinity :: "nat set \<Rightarrow> int"

section \<open>RealtimeResult\<close>

record realtime_result =
  rt_applied :: bool
  rt_failedCall :: "string option"
  rt_errorNumber :: int

definition ok :: "realtime_result \<Rightarrow> bool" where
  "ok r \<longleftrightarrow> rt_failedCall r = None"

definition applied :: realtime_result where
  "applied = \<lparr>rt_applied = True, rt_failedCall = None, rt_errorNumber = 0\<rparr>"

definition skipped :: realtime_result where
  "skipped = \<lparr>rt_applied = False, rt_failedCall = None, rt_errorNumber = 0\<rparr>"

definition failure :: "string \<Rightarrow> int \<Rightarrow> realtime_result" where
  "failure call err = \<lparr>rt_applied = False, rt_failedCall = Some call, rt_errorNumber = err\<rparr>"

section \<open>Prefaulting\<close>

definition pageSize :: "os \<Rightarrow> u64" where
  "pageSize sys = (if 0 < sint (os_pagesize sys) then os_pagesize sys else 4096)"

text \<open>
  The touching loop, with the \<^verbatim>\<open>std::size_t\<close> offset that may wrap: the offsets it writes to, or
  \<open>None\<close> when it does not end.
\<close>

partial_function (option) touch_loop :: "u64 \<Rightarrow> u64 \<Rightarrow> u64 \<Rightarrow> u64 list option" where
  "touch_loop bytes page offset =
     (if offset < bytes
      then Option.bind (touch_loop bytes page (offset + page)) (\<lambda>touched. Some (offset # touched))
      else Some [])"

definition stack_bytes :: u64 where "stack_bytes = 128 * 1024"
definition heap_bytes :: u64 where "heap_bytes = 8 * 1024 * 1024"

definition prefaultStack :: "u64 \<Rightarrow> u64 list option" where
  "prefaultStack page =
     (case touch_loop stack_bytes page 0 of None \<Rightarrow> None | Some os \<Rightarrow> Some (os @ [stack_bytes - 1]))"

definition prefaultHeap :: "os \<Rightarrow> u64 \<Rightarrow> u64 list option" where
  "prefaultHeap sys page = (if \<not> os_malloc sys then Some [] else touch_loop heap_bytes page 0)"

text \<open>The result, with the stack and heap offsets that were touched.\<close>

definition lockProcessMemory :: "config \<Rightarrow> os \<Rightarrow> (realtime_result \<times> u64 list \<times> u64 list) option" where
  "lockProcessMemory cfg sys =
     (if \<not> lockMemory (realtime cfg) then Some (skipped, [], [])
      else if fst (os_mlockall sys) \<noteq> 0
      then Some (failure ''mlockall'' (snd (os_mlockall sys)), [], [])
      else (case (prefaultStack (pageSize sys), prefaultHeap sys (pageSize sys)) of
              (Some st, Some hp) \<Rightarrow> Some (applied, st, hp)
            | _ \<Rightarrow> None))"

section \<open>Per-thread configuration\<close>

text \<open>\<^verbatim>\<open>CPU_SET\<close> ignores an index beyond the size of the set.\<close>

definition cpu_setsize :: nat where "cpu_setsize = 1024"

definition cpu_set :: "nat \<Rightarrow> nat set" where
  "cpu_set cpu = (if cpu < cpu_setsize then {cpu} else {})"

definition configureCurrentThread :: "config \<Rightarrow> os \<Rightarrow> int \<Rightarrow> nat option \<Rightarrow> realtime_result" where
  "configureCurrentThread cfg sys priority cpuAffinity =
     (if \<not> rt_enabled (realtime cfg) then skipped
      else let scheduleResult = os_setschedparam sys priority in
        if scheduleResult \<noteq> 0 then failure ''pthread_setschedparam'' scheduleResult
        else (case cpuAffinity of
                None \<Rightarrow> applied
              | Some cpu \<Rightarrow>
                  (let affinityResult = os_setaffinity sys (cpu_set cpu) in
                     if affinityResult \<noteq> 0 then failure ''pthread_setaffinity_np'' affinityResult
                     else applied)))"

section \<open>Diagnostics on the standard error stream\<close>

text \<open>
  Each function appends at most one line, built beforehand; building it may run out of memory,
  which is caught, so the flag \<open>built\<close> says whether the line could be built.
\<close>

definition degradation_line :: "realtime_result \<Rightarrow> string \<Rightarrow> string" where
  "degradation_line r role =
     ''[radar] realtime ('' @ role @ ''): '' @ the (rt_failedCall r) @ '' failed (errno ''
       @ string_of_int (rt_errorNumber r) @ ''); continuing at default scheduling'' @ [CHR 0x0A]"

definition reportRealtimeDegradation ::
    "bool \<Rightarrow> realtime_result \<Rightarrow> string \<Rightarrow> string list \<Rightarrow> string list" where
  "reportRealtimeDegradation built r role err =
     (if ok r then err else if built then err @ [degradation_line r role] else err)"

definition exception_detail :: "exn option \<Rightarrow> string" where
  "exception_detail e =
     (case e of
        None \<Rightarrow> ''no active exception''
      | Some ex \<Rightarrow> if is_std_exception ex then what ex else ''unknown (non-std::exception) type'')"

definition exception_line :: "exn option \<Rightarrow> string \<Rightarrow> string" where
  "exception_line e role =
     ''[radar] thread '' @ [CHR 0x27] @ role @ [CHR 0x27] @ '' terminated by exception: ''
       @ exception_detail e @ ''; requesting graceful shutdown'' @ [CHR 0x0A]"

definition reportUnhandledException ::
    "bool \<Rightarrow> exn option \<Rightarrow> string \<Rightarrow> string list \<Rightarrow> string list" where
  "reportUnhandledException built e role err =
     (if built then err @ [exception_line e role] else err)"

section \<open>Properties\<close>

lemma pageSize_bounds: "0 < unat (pageSize sys) \<and> unat (pageSize sys) < 2 ^ 63"
proof (cases "0 < sint (os_pagesize sys)")
  case True
  have "sint (os_pagesize sys) < 2 ^ 63"
    using sint_lt [of "os_pagesize sys"] by simp
  moreover have "uint (os_pagesize sys) = sint (os_pagesize sys)"
  proof -
    have "signed_take_bit 63 (uint (os_pagesize sys)) = sint (os_pagesize sys)"
      by (simp add: sint_uint)
    moreover have "uint (os_pagesize sys) < 2 ^ 64"
      using uint_lt2p [of "os_pagesize sys"] by simp
    moreover have "0 \<le> uint (os_pagesize sys)" by simp
    ultimately show ?thesis
      using True by (auto simp: signed_take_bit_eq_if_positive signed_take_bit_eq_take_bit_minus
          take_bit_eq_mod bit_iff_odd of_bool_def split: if_splits)
  qed
  ultimately have "0 < uint (os_pagesize sys) \<and> uint (os_pagesize sys) < 2 ^ 63"
    using True by simp
  then have "int 0 < int (unat (os_pagesize sys)) \<and> int (unat (os_pagesize sys)) < int (2 ^ 63)"
    by simp
  then have "0 < unat (os_pagesize sys) \<and> unat (os_pagesize sys) < 2 ^ 63"
    by (simp only: of_nat_less_iff)
  with True show ?thesis by (simp add: pageSize_def)
qed (simp add: pageSize_def)

text \<open>The loop writes to the multiples of the page size below the block size.\<close>

lemma touch_loop_multiples:
  assumes "0 < unat page" and "unat page < 2 ^ 63" and "unat bytes < 2 ^ 63"
    and "offset = of_nat (k * unat page)" and "k * unat page < 2 ^ 64"
  shows "\<exists>n. touch_loop bytes page offset = Some (map (\<lambda>i. of_nat (i * unat page)) [k ..< n])
    \<and> (\<forall>i. k \<le> i \<longrightarrow> (i < n \<longleftrightarrow> i * unat page < unat bytes))"
  using assms(4,5)
proof (induction "unat bytes - k * unat page" arbitrary: k offset rule: less_induct)
  case less
  have off: "unat offset = k * unat page"
    using less.prems by (simp add: unat_of_nat take_bit_nat_eq_self del: of_nat_mult)
  show ?case
  proof (cases "offset < bytes")
    case False
    then have ge: "unat bytes \<le> k * unat page" by (simp add: word_less_nat_alt off)
    have "unat bytes \<le> i * unat page" if "k \<le> i" for i
      using ge that by (meson le_trans mult_le_mono1)
    with False show ?thesis
      by (intro exI [of _ k]) (auto simp: touch_loop.simps [of bytes page offset] not_less)
  next
    case True
    then have lt: "k * unat page < unat bytes" by (simp add: word_less_nat_alt off)
    have next_ofs: "offset + page = of_nat (Suc k * unat page)"
      using less.prems by (simp add: add.commute)
    moreover have "Suc k * unat page < 2 ^ 64" using lt assms(2,3) by simp
    moreover have "unat bytes - Suc k * unat page < unat bytes - k * unat page"
      using lt assms(1) by simp
    ultimately obtain n where n:
      "touch_loop bytes page (offset + page) = Some (map (\<lambda>i. of_nat (i * unat page)) [Suc k ..< n])"
      "\<forall>i. Suc k \<le> i \<longrightarrow> (i < n \<longleftrightarrow> i * unat page < unat bytes)"
      using less.hyps [of "Suc k" "offset + page"] by blast
    have *: "i < max n (Suc k) \<longleftrightarrow> i * unat page < unat bytes" if "k \<le> i" for i
    proof (cases "i = k")
      case False
      with that have "Suc k \<le> i" by simp
      with n(2) show ?thesis by auto
    qed (use lt in auto)
    have "[k ..< max n (Suc k)] = k # [Suc k ..< n]"
      by (cases "Suc k \<le> n") (simp_all add: upt_conv_Cons max_def)
    moreover have "touch_loop bytes page offset =
        Some (offset # map (\<lambda>i. of_nat (i * unat page)) [Suc k ..< n])"
      using True n(1) by (simp add: touch_loop.simps [of bytes page offset])
    ultimately show ?thesis
      using less.prems(1) * by (intro exI [of _ "max n (Suc k)"]) simp
  qed
qed

lemma touch_loop_covers:
  assumes "0 < unat page" and "unat page < 2 ^ 63" and "unat bytes < 2 ^ 63"
  obtains os where "touch_loop bytes page 0 = Some os" and "\<forall>x \<in> set os. x < bytes"
    and "\<forall>i. i * unat page < unat bytes \<longrightarrow> of_nat (i * unat page) \<in> set os"
proof -
  obtain n where n: "touch_loop bytes page 0 = Some (map (\<lambda>i. of_nat (i * unat page)) [0 ..< n])"
    "\<forall>i. i < n \<longleftrightarrow> i * unat page < unat bytes"
    using touch_loop_multiples [OF assms, of 0 0] by auto
  have "of_nat (i * unat page) < bytes" if "i < n" for i
    using n(2) that assms(3)
    by (auto simp: word_less_nat_alt unat_of_nat take_bit_nat_eq_self simp del: of_nat_mult)
  with n show thesis
    by (intro that [of "map (\<lambda>i. of_nat (i * unat page)) [0 ..< n]"]) auto
qed

text \<open>C32: Locking the process memory always returns, whatever the operating system answers: the
  prefault loops end without wrapping their offset, they write only inside their blocks, and when
  the lock was granted the stack block is touched on every page. Memory is reported as locked
  exactly when it was asked for and granted, and an error carries the number of the failed call.\<close>

theorem lock_memory_touches_in_bounds:
  "\<exists>r st hp. lockProcessMemory cfg sys = Some (r, st, hp)
    \<and> (\<forall>x \<in> set st. x < stack_bytes) \<and> (\<forall>x \<in> set hp. x < heap_bytes)
    \<and> (rt_applied r \<longleftrightarrow> lockMemory (realtime cfg) \<and> fst (os_mlockall sys) = 0)
    \<and> (rt_applied r \<longrightarrow> (\<forall>i. i * unat (pageSize sys) < unat stack_bytes
          \<longrightarrow> of_nat (i * unat (pageSize sys)) \<in> set st))
    \<and> (\<not> ok r \<longrightarrow> r = failure ''mlockall'' (snd (os_mlockall sys)))"
proof -
  have page: "0 < unat (pageSize sys)" "unat (pageSize sys) < 2 ^ 63"
    using pageSize_bounds [of sys] by blast+
  have "unat stack_bytes < 2 ^ 63" by (simp add: stack_bytes_def)
  from touch_loop_covers [OF page this] obtain st where
    st: "touch_loop stack_bytes (pageSize sys) 0 = Some st" "\<forall>x \<in> set st. x < stack_bytes"
    "\<forall>i. i * unat (pageSize sys) < unat stack_bytes \<longrightarrow> of_nat (i * unat (pageSize sys)) \<in> set st" .
  have "unat heap_bytes < 2 ^ 63" by (simp add: heap_bytes_def)
  from touch_loop_covers [OF page this] obtain hp where
    hp: "touch_loop heap_bytes (pageSize sys) 0 = Some hp" "\<forall>x \<in> set hp. x < heap_bytes" .
  have "stack_bytes - 1 < stack_bytes" by (simp add: stack_bytes_def)
  with st hp show ?thesis
    by (auto simp: lockProcessMemory_def prefaultStack_def prefaultHeap_def skipped_def failure_def
        applied_def ok_def)
qed

theorem lock_memory_touches_in_bounds_witness:
  "\<exists>r st hp. lockProcessMemory default_config
      \<lparr>os_pagesize = 65536, os_mlockall = (0, 0), os_malloc = False,
       os_setschedparam = (\<lambda>_. 0), os_setaffinity = (\<lambda>_. 0)\<rparr> = Some (r, st, hp)
    \<and> rt_applied r \<and> 65536 \<in> set st"
proof -
  let ?sys = "\<lparr>os_pagesize = 65536, os_mlockall = (0, 0), os_malloc = False,
       os_setschedparam = (\<lambda>_. 0), os_setaffinity = (\<lambda>_. 0)\<rparr>"
  have page: "pageSize ?sys = 65536" by (simp add: pageSize_def)
  obtain r st hp where r: "lockProcessMemory default_config ?sys = Some (r, st, hp)"
    "rt_applied r \<longleftrightarrow> lockMemory (realtime default_config) \<and> fst (os_mlockall ?sys) = 0"
    "rt_applied r \<longrightarrow> (\<forall>i. i * unat (pageSize ?sys) < unat stack_bytes
       \<longrightarrow> of_nat (i * unat (pageSize ?sys)) \<in> set st)"
    using lock_memory_touches_in_bounds [of default_config ?sys] by metis
  have applied: "rt_applied r" using r(2) by (simp add: default_config_def)
  moreover have "65536 \<in> set st"
    using spec [OF mp [OF r(3) applied], of 1] by (simp add: page stack_bytes_def)
  ultimately show ?thesis using r(1) by blast
qed

text \<open>Realtime scheduling degrades instead of failing. Configuring a thread never aborts it:
  the setting is active exactly when realtime is enabled and every call succeeded, a failure names
  the call that failed with its error number and later calls are not made, and exactly a failure
  is reported, on one line.\<close>

lemma realtime_degrades_gracefully:
  "let r = configureCurrentThread cfg sys prio None in
     (rt_applied r \<longleftrightarrow> rt_enabled (realtime cfg) \<and> os_setschedparam sys prio = 0)
   \<and> (ok r \<longleftrightarrow> (rt_enabled (realtime cfg) = rt_applied r))
   \<and> reportRealtimeDegradation True r role err =
       err @ (if rt_enabled (realtime cfg) \<and> os_setschedparam sys prio \<noteq> 0
              then [''[radar] realtime ('' @ role @ ''): pthread_setschedparam failed (errno ''
                @ string_of_int (os_setschedparam sys prio)
                @ ''); continuing at default scheduling'' @ [CHR 0x0A]]
              else [])"
  by (simp add: configureCurrentThread_def reportRealtimeDegradation_def degradation_line_def
      ok_def applied_def skipped_def failure_def Let_def)

end
