(* ===== verification/Shared_State.thy ===== *)
theory Shared_State
  imports Thread_Safe_Queue Shutdown_Token Radar_Metrics Heartbeats Data_Model Realtime_Manager
begin

text \<open>
  The state the subsystems share by reference, as the members of \<^verbatim>\<open>Application\<close> hold it: the two
  queues, the shutdown token, the metrics, the heartbeat registry, the log sinks
  (\<^verbatim>\<open>console_sink.cpp\<close>, \<^verbatim>\<open>file_sink.cpp\<close>) and the lines on the standard error stream. The
  subsystems' theories describe each of their threads as a step relation on this state, one step
  per access to a shared object; theory \<open>Radar_Application\<close> interleaves them.
\<close>

section \<open>Log sinks\<close>

text \<open>
  A sink remembers what was written to it and how much of it has been flushed. The stream behind it
  may flush earlier by itself.
\<close>

record sink =
  sink_lines :: "string list"
  sink_flushed :: nat

definition new_sink :: sink where
  "new_sink = \<lparr>sink_lines = [], sink_flushed = 0\<rparr>"

definition sink_write :: "string \<Rightarrow> sink \<Rightarrow> sink" where
  "sink_write line k = k\<lparr>sink_lines := sink_lines k @ [line]\<rparr>"

definition sink_flush :: "sink \<Rightarrow> sink" where
  "sink_flush k = k\<lparr>sink_flushed := length (sink_lines k)\<rparr>"

text \<open>The file sink opens its file in its constructor; \<open>opened\<close> is whether that succeeded.\<close>

definition FileSink :: "bool \<Rightarrow> string \<Rightarrow> exn + sink" where
  "FileSink opened path =
     (if \<not> opened
      then Inl (RadarException (''FileSink: failed to open log file '' @ [CHR 0x27] @ path @ [CHR 0x27]))
      else Inr new_sink)"

section \<open>The shared objects\<close>

record 'f shared =
  inputQueue :: "'f radar_signal tsq"
  outputQueue :: "'f log_record tsq"
  shutdownToken :: token
  sh_metrics :: metrics
  heartbeatRegistry :: registry
  sinks :: "sink list"
  cerr :: "string list"

definition on_metrics :: "(metrics \<Rightarrow> metrics) \<Rightarrow> 'f shared \<Rightarrow> 'f shared" where
  [step_defs]: "on_metrics f s = s\<lparr>sh_metrics := f (sh_metrics s)\<rparr>"

definition on_heartbeat :: "nat \<Rightarrow> (heartbeat \<Rightarrow> heartbeat) \<Rightarrow> 'f shared \<Rightarrow> 'f shared" where
  [step_defs]: "on_heartbeat i f s = s\<lparr>heartbeatRegistry := beat i f (heartbeatRegistry s)\<rparr>"

definition on_sink :: "nat \<Rightarrow> (sink \<Rightarrow> sink) \<Rightarrow> 'f shared \<Rightarrow> 'f shared" where
  [step_defs]: "on_sink k f s = s\<lparr>sinks := (sinks s)[k := f (sinks s ! k)]\<rparr>"

definition request_shutdown :: "'f shared \<Rightarrow> 'f shared" where
  [step_defs]: "request_shutdown s = s\<lparr>shutdownToken := requestShutdown (shutdownToken s)\<rparr>"

section \<open>The start and the end of every thread\<close>

text \<open>The per-thread realtime stage, with its warning.\<close>

definition configure_thread ::
    "config \<Rightarrow> os \<Rightarrow> bool \<Rightarrow> int \<Rightarrow> string \<Rightarrow> 'f shared \<Rightarrow> 'f shared" where
  [step_defs]: "configure_thread cfg sys built priority role s =
     s\<lparr>cerr := reportRealtimeDegradation built (configureCurrentThread cfg sys priority None) role
                (cerr s)\<rparr>"

text \<open>
  The top-level exception boundary: report, count, request shutdown. In a thread these are three
  steps, between which the others run; the calls do not throw. \<open>unwinding\<close> is where the handler is,
  and no successor is its end.
\<close>

datatype unwinding = UReport exn | UCount | URequest

fun boundary_step :: "bool \<Rightarrow> string \<Rightarrow> unwinding \<Rightarrow> 'f shared \<Rightarrow> unwinding option \<times> 'f shared" where
  "boundary_step built role (UReport e) s =
     (Some UCount, s\<lparr>cerr := reportUnhandledException built (Some e) role (cerr s)\<rparr>)"
| "boundary_step built role UCount s = (Some URequest, on_metrics recordThreadException s)"
| "boundary_step built role URequest s = (None, request_shutdown s)"

lemma boundary_step_frame [simp]:
  "inputQueue (snd (boundary_step built role u s)) = inputQueue s"
  "outputQueue (snd (boundary_step built role u s)) = outputQueue s"
  "heartbeatRegistry (snd (boundary_step built role u s)) = heartbeatRegistry s"
  "sinks (snd (boundary_step built role u s)) = sinks s"
  "tok_requested (shutdownToken s) \<Longrightarrow> tok_requested (shutdownToken (snd (boundary_step built role u s)))"
  by (cases u; simp add: on_metrics_def request_shutdown_def)+

lemma boundary_step_metrics [simp]:
  "sh_metrics (snd (boundary_step built role u s)) =
     (if u = UCount then recordThreadException (sh_metrics s) else sh_metrics s)"
  by (cases u) (simp_all add: on_metrics_def request_shutdown_def)

text \<open>The handler as a whole, undisturbed: its three steps in a row.\<close>

definition exception_boundary :: "bool \<Rightarrow> exn \<Rightarrow> string \<Rightarrow> 'f shared \<Rightarrow> 'f shared" where
  [step_defs]: "exception_boundary built e role s =
     snd (boundary_step built role URequest (snd (boundary_step built role UCount
       (snd (boundary_step built role (UReport e) s)))))"

section \<open>What a thread may do to the shared state\<close>

text \<open>
  Every step of a thread carries a label: a call on one of the queues with its result, the result
  of a processed signal being counted, an exception, or nothing of interest to the others. The
  labels are only for the histories in which the theorems speak; no step depends on them.
\<close>

datatype 'f event =
    Tau
  | InQ "'f radar_signal qop" "'f radar_signal qres"
  | OutQ "'f log_record qop" "'f log_record qres"
  | Counted "'f processed_signal"
  | Threw

fun queue_effect :: "'f event \<Rightarrow> 'f shared \<Rightarrow> 'f shared \<Rightarrow> bool" where
  "queue_effect (InQ x r) s s' \<longleftrightarrow>
     exec_op x (inputQueue s) = Returns (r, inputQueue s') \<and> outputQueue s' = outputQueue s"
| "queue_effect (OutQ x r) s s' \<longleftrightarrow>
     exec_op x (outputQueue s) = Returns (r, outputQueue s') \<and> inputQueue s' = inputQueue s"
| "queue_effect _ s s' \<longleftrightarrow> inputQueue s' = inputQueue s \<and> outputQueue s' = outputQueue s"

text \<open>
  The interface of a subsystem thread to the rest of the application: it changes the queues only
  through their operations, which its labels announce, it never closes them, it only ever sets the
  shutdown token, it neither registers heartbeats nor adds sinks, an exception takes it to its
  handler, which runs to its end and ends the thread, and once it has ended it does nothing.
\<close>

locale pipeline_thread =
  fixes tstep :: "'f event \<Rightarrow> 'p \<times> 'f shared \<Rightarrow> 'p \<times> 'f shared \<Rightarrow> bool"
    and finished :: "'p \<Rightarrow> bool"
    and handler :: "'p \<Rightarrow> unwinding option"
  assumes step_queues: "tstep ev (p, s) (p', s') \<Longrightarrow> queue_effect ev s s'"
    and step_no_close: "tstep ev (p, s) (p', s') \<Longrightarrow> ev \<noteq> InQ Close r \<and> ev \<noteq> OutQ Close r'"
    and step_token: "tstep ev (p, s) (p', s') \<Longrightarrow> tok_requested (shutdownToken s)
      \<Longrightarrow> tok_requested (shutdownToken s')"
    and step_sizes: "tstep ev (p, s) (p', s') \<Longrightarrow> length (heartbeatRegistry s') = length (heartbeatRegistry s)
      \<and> length (sinks s') = length (sinks s)"
    and step_throws: "tstep Threw (p, s) (p', s') \<Longrightarrow> handler p = None
      \<Longrightarrow> s' = s \<and> (\<exists>e. handler p' = Some (UReport e))"
    and step_handles: "tstep ev (p, s) (p', s') \<Longrightarrow> handler p = Some u
      \<Longrightarrow> ev = Threw \<and> (\<exists>built role. handler p' = fst (boundary_step built role u s) \<and> s' = snd (boundary_step built role u s))
        \<and> (handler p' = None \<longrightarrow> finished p')"
    and step_handler: "tstep ev (p, s) (p', s') \<Longrightarrow> ev \<noteq> Threw \<Longrightarrow> handler p' = None"
    and finished_handler: "finished p \<Longrightarrow> handler p = None"
    and finished_final: "finished p \<Longrightarrow> \<not> tstep ev (p, s) (p', s')"
begin

lemma step_closed:
  assumes "tstep ev (p, s) (p', s')"
  shows "q_closed (inputQueue s') = q_closed (inputQueue s)"
    and "q_closed (outputQueue s') = q_closed (outputQueue s)"
proof -
  note eff = step_queues [OF assms] and no = step_no_close [OF assms]
  show "q_closed (inputQueue s') = q_closed (inputQueue s)"
    using eff no by (cases ev) (auto dest: exec_op_frame(3))
  show "q_closed (outputQueue s') = q_closed (outputQueue s)"
    using eff no by (cases ev) (auto dest: exec_op_frame(3))
qed

end

section \<open>Properties\<close>

text \<open>The exception boundary of every thread turns any exception, of whatever type, into a
  graceful shutdown: the token is set, exactly one exception is counted, one line naming the
  thread and the exception's text is printed, and nothing else that the threads share changes.\<close>

lemma boundary_requests_shutdown:
  "let s' = exception_boundary True e role s in
     shutdownRequested (shutdownToken s')
   \<and> sh_metrics s' = (sh_metrics s)\<lparr>m_threadExceptions := m_threadExceptions (sh_metrics s) + 1\<rparr>
   \<and> cerr s' = cerr s @ [''[radar] thread '' @ [CHR 0x27] @ role @ [CHR 0x27]
        @ '' terminated by exception: ''
        @ (if e = OtherException then ''unknown (non-std::exception) type'' else what e)
        @ ''; requesting graceful shutdown'' @ [CHR 0x0A]]
   \<and> inputQueue s' = inputQueue s \<and> outputQueue s' = outputQueue s
   \<and> heartbeatRegistry s' = heartbeatRegistry s \<and> sinks s' = sinks s"
  by (simp add: step_defs metrics_simps reportUnhandledException_def exception_line_def
      exception_detail_def is_std_exception_def Let_def)

end
