(* ===== verification/Radar_Producer.thy ===== *)
theory Radar_Producer
  imports Shared_State
begin

text \<open>
  The producer of \<^verbatim>\<open>src/radar_producer.cpp\<close>: the signal it generates, the arithmetic of its
  deadlines, and its thread as a step relation on the shared state. The random engine and its
  distribution come from the standard library through \<^verbatim>\<open>src/random_generator.cpp\<close>; one draw from
  it is a parameter that maps an engine state to a sample and the next state.
\<close>

section \<open>Generating a signal\<close>

fun draws :: "('e \<Rightarrow> 'f \<times> 'e) \<Rightarrow> nat \<Rightarrow> 'e \<Rightarrow> 'f list \<times> 'e" where
  "draws draw 0 e = ([], e)"
| "draws draw (Suc n) e =
     (let (x, e1) = draw e; (xs, e2) = draws draw n e1 in (x # xs, e2))"

definition generateSignal :: "('e \<Rightarrow> 'f \<times> 'e) \<Rightarrow> time_point \<Rightarrow> 'e \<Rightarrow> 'f radar_signal \<times> 'e" where
  "generateSignal draw t e =
     (let (samples, e') = draws draw kRadarSampleCount e in (RadarSignal t samples, e'))"

section \<open>Deadlines\<close>

text \<open>
  The end of an iteration: the new deadline, and the time to wait until it, or \<open>None\<close> when it has
  been missed and the schedule is realigned.
\<close>

definition next_deadline :: "duration \<Rightarrow> time_point \<Rightarrow> time_point \<Rightarrow> duration option \<times> time_point" where
  "next_deadline period nextDeadline now =
     (let nextDeadline = nextDeadline + period;
          remaining = nextDeadline - now
      in if remaining \<le> 0 then (None, now) else (Some remaining, nextDeadline))"

section \<open>The producer thread\<close>

datatype 'f ppc =
    PInit
  | PClock
  | PCheck time_point
  | PSample time_point
  | PPush time_point "'f radar_signal"
  | PCount time_point
  | PDepth time_point
  | PStoreDepth time_point nat
  | PDrops time_point
  | PStoreDrops time_point u64
  | PDeadline time_point
  | PMissed time_point
  | PRest time_point
  | PWait time_point
  | PUnwind unwinding
  | PDone

text \<open>Where the handler of an exception goes on.\<close>

fun producer_resume :: "unwinding option \<Rightarrow> 'f ppc" where
  "producer_resume None = PDone"
| "producer_resume (Some u) = PUnwind u"

inductive producer_step :: "config \<Rightarrow> os \<Rightarrow> ('e \<Rightarrow> 'f \<times> 'e) \<Rightarrow> nat
    \<Rightarrow> 'f event \<Rightarrow> 'f ppc \<times> 'f shared \<Rightarrow> 'f ppc \<times> 'f shared \<Rightarrow> bool"
  for cfg :: config and sys :: os and draw :: "'e \<Rightarrow> 'f \<times> 'e" and hb :: nat where
  pr_init: "producer_step cfg sys draw hb Tau (PInit, s)
     (PClock, configure_thread cfg sys built (producerPriority (realtime cfg)) ''producer'' s)"
| pr_clock: "producer_step cfg sys draw hb Tau (PClock, s) (PCheck now, s)"
| pr_stop: "shutdownRequested (shutdownToken s)
     \<Longrightarrow> producer_step cfg sys draw hb Tau (PCheck nd, s) (PDone, s)"
| pr_go: "\<not> shutdownRequested (shutdownToken s)
     \<Longrightarrow> producer_step cfg sys draw hb Tau (PCheck nd, s) (PSample nd, s)"
| pr_sample: "generateSignal draw sampleTime e = (sig, e')
     \<Longrightarrow> producer_step cfg sys draw hb Tau (PSample nd, s)
           (PPush nd sig, on_heartbeat hb (markRunning sampleTime) s)"
| pr_push: "push sig (inputQueue s) = Returns (True, q)
     \<Longrightarrow> producer_step cfg sys draw hb (InQ (Push sig) (Stored True)) (PPush nd sig, s) (PCount nd, s\<lparr>inputQueue := q\<rparr>)"
| pr_refused: "push sig (inputQueue s) = Returns (False, q)
     \<Longrightarrow> producer_step cfg sys draw hb (InQ (Push sig) (Stored False)) (PPush nd sig, s) (PDone, s\<lparr>inputQueue := q\<rparr>)"
| pr_count: "producer_step cfg sys draw hb Tau (PCount nd, s) (PDepth nd, on_metrics recordSignalProduced s)"
| pr_depth: "producer_step cfg sys draw hb Tau (PDepth nd, s) (PStoreDepth nd (size_tsq (inputQueue s)), s)"
| pr_store_depth: "producer_step cfg sys draw hb Tau (PStoreDepth nd d, s)
     (PDrops nd, on_metrics (setInputQueueDepth d) s)"
| pr_drops: "producer_step cfg sys draw hb Tau (PDrops nd, s) (PStoreDrops nd (droppedCount (inputQueue s)), s)"
| pr_store_drops: "producer_step cfg sys draw hb Tau (PStoreDrops nd n, s)
     (PDeadline nd, on_metrics (setInputDrops n) s)"
| pr_late: "next_deadline (period_of cfg) nd now = (None, nd')
     \<Longrightarrow> producer_step cfg sys draw hb Tau (PDeadline nd, s) (PMissed nd', s)"
| pr_missed: "producer_step cfg sys draw hb Tau (PMissed nd, s) (PCheck nd, on_metrics recordDeadlineMiss s)"
| pr_early: "next_deadline (period_of cfg) nd now = (Some remaining, nd')
     \<Longrightarrow> producer_step cfg sys draw hb Tau (PDeadline nd, s) (PRest nd', s)"
| pr_rest: "producer_step cfg sys draw hb Tau (PRest nd, s) (PWait nd, on_heartbeat hb markWaiting s)"
| pr_elapsed: "waitFor elapsed (shutdownToken s) = Some False
     \<Longrightarrow> producer_step cfg sys draw hb Tau (PWait nd, s) (PCheck nd, s)"
| pr_woken: "waitFor elapsed (shutdownToken s) = Some True
     \<Longrightarrow> producer_step cfg sys draw hb Tau (PWait nd, s) (PDone, s)"
| pr_throw: "p \<noteq> PDone \<Longrightarrow> \<forall>u. p \<noteq> PUnwind u
     \<Longrightarrow> producer_step cfg sys draw hb Threw (p, s) (PUnwind (UReport e), s)"
| pr_handle: "producer_step cfg sys draw hb Threw (PUnwind u, s)
     (producer_resume (fst (boundary_step built ''producer'' u s)), snd (boundary_step built ''producer'' u s))"

fun producer_handler :: "'f ppc \<Rightarrow> unwinding option" where
  "producer_handler (PUnwind u) = Some u"
| "producer_handler _ = None"

lemma producer_handler_iff [simp]: "producer_handler p = Some u \<longleftrightarrow> p = PUnwind u"
  by (cases p) auto

lemma producer_handler_resume [simp]: "producer_handler (producer_resume x) = x"
  by (cases x) auto

section \<open>The thread keeps the contract of the pipeline\<close>

interpretation producer_thread: pipeline_thread "producer_step cfg sys draw hb" "\<lambda>p. p = PDone" producer_handler for cfg sys draw hb
proof unfold_locales
  fix ev p s p' s' r r'
  assume step: "producer_step cfg sys draw hb ev (p, s) (p', s')"
  from step show "queue_effect ev s s'"
    by (cases rule: producer_step.cases) (simp_all add: step_defs)
  from step show "ev \<noteq> InQ Close r \<and> ev \<noteq> OutQ Close r'"
    by (cases rule: producer_step.cases) simp_all
  from step show "tok_requested (shutdownToken s')" if "tok_requested (shutdownToken s)"
    using that by (cases rule: producer_step.cases) (simp_all add: step_defs)
  from step show "length (heartbeatRegistry s') = length (heartbeatRegistry s)
      \<and> length (sinks s') = length (sinks s)"
    by (cases rule: producer_step.cases) (simp_all add: step_defs)
next
  fix p s p' s'
  assume "producer_step cfg sys draw hb Threw (p, s) (p', s')" and "producer_handler p = None"
  then show "s' = s \<and> (\<exists>e. producer_handler p' = Some (UReport e))"
    by (cases rule: producer_step.cases) simp_all
next
  fix ev p s p' s' u
  assume "producer_step cfg sys draw hb ev (p, s) (p', s')" and "producer_handler p = Some u"
  then show "ev = Threw \<and> (\<exists>built role. producer_handler p' = fst (boundary_step built role u s)
        \<and> s' = snd (boundary_step built role u s))
      \<and> (producer_handler p' = None \<longrightarrow> p' = PDone)"
    by (cases rule: producer_step.cases) (simp_all, metis producer_resume.simps(1))
next
  fix ev p s p' s'
  assume "producer_step cfg sys draw hb ev (p, s) (p', s')" and "ev \<noteq> Threw"
  then show "producer_handler p' = None" by (cases rule: producer_step.cases) simp_all
next
  show "producer_handler p = None" if "p = PDone" for p
    using that by simp
next
  show "\<not> producer_step cfg sys draw hb ev (p, s) (p', s')" if "p = PDone" for ev p s p' s'
    using that by (auto elim: producer_step.cases)
qed

section \<open>Properties\<close>

lemma length_draws: "length (fst (draws draw n e)) = n"
  by (induction n arbitrary: e) (simp_all add: Let_def split: prod.splits, metis fst_conv)

lemma generateSignal_shape:
  "generateSignal draw t e = (sig, e')
     \<Longrightarrow> length (sig_samples sig) = kRadarSampleCount \<and> sig_timestamp sig = t"
  using length_draws [of draw kRadarSampleCount e]
  by (auto simp: generateSignal_def RadarSignal_def Let_def split: prod.splits)

text \<open>The iterations one after the other, given the clock reading at the end of each.\<close>

fun schedule :: "duration \<Rightarrow> time_point \<Rightarrow> time_point list \<Rightarrow> duration option list \<times> time_point" where
  "schedule period nd [] = ([], nd)"
| "schedule period nd (now # nows) =
     (let (r, nd1) = next_deadline period nd now; (rs, nd2) = schedule period nd1 nows in (r # rs, nd2))"

lemma schedule_append:
  "schedule period nd (xs @ ys) =
     (let (rs, nd1) = schedule period nd xs; (rs', nd2) = schedule period nd1 ys in (rs @ rs', nd2))"
  by (induction xs arbitrary: nd) (simp_all add: Let_def split: prod.splits)

lemma next_deadline_simps:
  "now < nd + period \<Longrightarrow> next_deadline period nd now = (Some (nd + period - now), nd + period)"
  "nd + period \<le> now \<Longrightarrow> next_deadline period nd now = (None, now)"
  by (simp_all add: next_deadline_def Let_def)

text \<open>
  Whatever the clock reads at the end of each iteration, the deadline in force is the anchor plus a
  whole number of periods, one per iteration since: the anchor is the start as long as no deadline
  has been missed, and otherwise the instant at which the last miss was noticed.
\<close>

lemma deadlines_from_last_miss:
  "\<exists>missed kept. nows = missed @ kept
     \<and> (let anchor = if missed = [] then start else last missed in
          schedule period start nows =
            (fst (schedule period start missed)
               @ map (\<lambda>k. Some (anchor + (int k + 1) * period - kept ! k)) [0 ..< length kept],
             anchor + int (length kept) * period)
        \<and> (\<forall>k < length kept. kept ! k < anchor + (int k + 1) * period)
        \<and> (missed \<noteq> [] \<longrightarrow> last (fst (schedule period start missed)) = None))"
proof (induction nows rule: rev_induct)
  case Nil
  then show ?case by (simp add: Let_def)
next
  case (snoc now nows)
  then obtain missed kept where split: "nows = missed @ kept"
    and sched: "schedule period start nows =
        (fst (schedule period start missed)
           @ map (\<lambda>k. Some ((if missed = [] then start else last missed) + (int k + 1) * period - kept ! k))
               [0 ..< length kept],
         (if missed = [] then start else last missed) + int (length kept) * period)"
    and kept: "\<forall>k < length kept. kept ! k < (if missed = [] then start else last missed) + (int k + 1) * period"
    and last: "missed \<noteq> [] \<longrightarrow> last (fst (schedule period start missed)) = None"
    by (auto simp only: Let_def)
  let ?anchor = "if missed = [] then start else last missed"
  let ?nd = "?anchor + int (length kept) * period"
  show ?case
  proof (cases "now < ?nd + period")
    case True
    have bound: "now < ?anchor + (int (length kept) + 1) * period"
      using True by (simp add: algebra_simps)
    have "schedule period start (nows @ [now]) =
      (fst (schedule period start nows) @ [Some (?nd + period - now)], ?nd + period)"
      using sched True by (simp add: schedule_append next_deadline_simps(1) Let_def split: prod.splits)
    with sched have "schedule period start (nows @ [now]) =
      (fst (schedule period start missed)
         @ map (\<lambda>k. Some (?anchor + (int k + 1) * period - (kept @ [now]) ! k)) [0 ..< length (kept @ [now])],
       ?anchor + int (length (kept @ [now])) * period)"
      by (simp add: nth_append algebra_simps)
    moreover have "\<forall>k < length (kept @ [now]). (kept @ [now]) ! k < ?anchor + (int k + 1) * period"
      using kept bound by (auto simp: nth_append less_Suc_eq)
    ultimately show ?thesis
      using split last by (intro exI [of _ missed] exI [of _ "kept @ [now]"]) (simp only: Let_def append_assoc simp_thms)
  next
    case False
    then have "schedule period start (nows @ [now]) = (fst (schedule period start nows) @ [None], now)"
      using sched by (simp add: schedule_append next_deadline_simps(2) Let_def split: prod.splits)
    then show ?thesis
      by (intro exI [of _ "nows @ [now]"] exI [of _ "[]"]) (simp add: Let_def)
  qed
qed

end
