(* ===== verification/Dsp_Pipeline.thy ===== *)
theory Dsp_Pipeline
  imports Data_Model
begin

text \<open>
  The signal processing stages: \<^verbatim>\<open>noise_filter.hpp\<close>, \<^verbatim>\<open>fft.cpp\<close>, \<^verbatim>\<open>target_detection.hpp\<close> and their
  composition in \<^verbatim>\<open>signal_processor.hpp\<close>. Single-precision arithmetic is a parameter, a record of
  the operations the code uses. The theorems about indices hold for every arithmetic; those about
  values are first proved in exact real arithmetic and then carried over to rounded arithmetic.
\<close>

unbundle bit_operations_syntax

section \<open>Arithmetic\<close>

record 'f arith =
  f_of_nat :: "nat \<Rightarrow> 'f"
  f_add :: "'f \<Rightarrow> 'f \<Rightarrow> 'f"
  f_sub :: "'f \<Rightarrow> 'f \<Rightarrow> 'f"
  f_mul :: "'f \<Rightarrow> 'f \<Rightarrow> 'f"
  f_div :: "'f \<Rightarrow> 'f \<Rightarrow> 'f"
  f_neg :: "'f \<Rightarrow> 'f"
  f_less :: "'f \<Rightarrow> 'f \<Rightarrow> bool"
  f_cos :: "'f \<Rightarrow> 'f"
  f_sin :: "'f \<Rightarrow> 'f"
  f_hypot :: "'f \<Rightarrow> 'f \<Rightarrow> 'f"
  f_pi :: 'f

text \<open>\<^verbatim>\<open>std::complex<float>\<close>, as its real and imaginary part.\<close>

type_synonym 'f cplx = "'f \<times> 'f"

definition c_add :: "'f arith \<Rightarrow> 'f cplx \<Rightarrow> 'f cplx \<Rightarrow> 'f cplx" where
  "c_add A x y = (f_add A (fst x) (fst y), f_add A (snd x) (snd y))"

definition c_sub :: "'f arith \<Rightarrow> 'f cplx \<Rightarrow> 'f cplx \<Rightarrow> 'f cplx" where
  "c_sub A x y = (f_sub A (fst x) (fst y), f_sub A (snd x) (snd y))"

definition c_mul :: "'f arith \<Rightarrow> 'f cplx \<Rightarrow> 'f cplx \<Rightarrow> 'f cplx" where
  "c_mul A x y =
     (f_sub A (f_mul A (fst x) (fst y)) (f_mul A (snd x) (snd y)),
      f_add A (f_mul A (fst x) (snd y)) (f_mul A (snd x) (fst y)))"

definition c_abs :: "'f arith \<Rightarrow> 'f cplx \<Rightarrow> 'f" where
  "c_abs A x = f_hypot A (fst x) (snd x)"

section \<open>Noise filter\<close>

definition filter_at :: "'f arith \<Rightarrow> 'f list \<Rightarrow> nat \<Rightarrow> 'f" where
  "filter_at A samples i =
     (let (sum, count) = (samples ! i, 1);
          (sum, count) = (if 0 < i then (f_add A sum (samples ! (i - 1)), count + 1) else (sum, count));
          (sum, count) = (if i + 1 < length samples then (f_add A sum (samples ! (i + 1)), count + 1)
                          else (sum, count))
      in f_div A sum (f_of_nat A count))"

definition noise_filter :: "'f arith \<Rightarrow> 'f list \<Rightarrow> 'f list" where
  "noise_filter A samples = map (filter_at A samples) [0 ..< length samples]"

section \<open>Fast Fourier transform\<close>

text \<open>
  The reversed counter: the inner loop clears the leading ones of \<open>j\<close> and sets the next bit. It
  ends because the probe reaches 0, which no \<open>j\<close> contains.
\<close>

function carry_loop :: "nat \<Rightarrow> nat \<Rightarrow> nat" where
  "carry_loop probe j =
     (if j AND probe \<noteq> 0 then carry_loop (probe div 2) (j XOR probe) else j XOR probe)"
  by pat_completeness auto

termination carry_loop
proof (relation "measure fst")
  fix probe j :: nat
  assume "j AND probe \<noteq> 0"
  then have "probe \<noteq> 0" by (rule contrapos_nn) simp
  then show "((probe div 2, j XOR probe), probe, j) \<in> measure fst" by simp
qed simp

declare carry_loop.simps [simp del]

definition swap :: "nat \<Rightarrow> nat \<Rightarrow> 'a list \<Rightarrow> 'a list" where
  "swap i j xs = xs[i := xs ! j, j := xs ! i]"

definition reversal_step :: "nat \<Rightarrow> nat \<Rightarrow> nat \<times> 'a list \<Rightarrow> nat \<times> 'a list" where
  "reversal_step n i = (\<lambda>(j, xs).
     let j' = carry_loop (n div 2) j in (j', if i < j' then swap i j' xs else xs))"

definition bit_reversal :: "nat \<Rightarrow> 'a list \<Rightarrow> 'a list" where
  "bit_reversal n xs = snd (fold (reversal_step n) [1 ..< n] (0, xs))"

definition butterfly :: "'f arith \<Rightarrow> 'f cplx \<Rightarrow> nat \<Rightarrow> nat \<Rightarrow> nat
    \<Rightarrow> 'f cplx list \<times> 'f cplx \<Rightarrow> 'f cplx list \<times> 'f cplx" where
  "butterfly A wLen half base k = (\<lambda>(xs, w).
     let ev = xs ! (base + k);
         od = c_mul A (xs ! (base + k + half)) w
     in (xs[base + k := c_add A ev od, base + k + half := c_sub A ev od], c_mul A w wLen))"

definition block_pass :: "'f arith \<Rightarrow> 'f cplx \<Rightarrow> nat \<Rightarrow> nat \<Rightarrow> 'f cplx list \<Rightarrow> 'f cplx list" where
  "block_pass A wLen len base xs =
     fst (fold (butterfly A wLen (len div 2) base) [0 ..< len div 2]
           (xs, (f_of_nat A 1, f_of_nat A 0)))"

definition twiddle :: "'f arith \<Rightarrow> nat \<Rightarrow> 'f cplx" where
  "twiddle A len =
     (let angle = f_div A (f_mul A (f_neg A (f_of_nat A 2)) (f_pi A)) (f_of_nat A len)
      in (f_cos A angle, f_sin A angle))"

text \<open>The compile-time test of the sample count.\<close>

definition radix2_count :: "64 word \<Rightarrow> bool" where
  "radix2_count n \<longleftrightarrow> n AND (n - 1) = 0"

text \<open>The loop over the blocks; its bound is a multiple of its increment.\<close>

definition stage :: "'f arith \<Rightarrow> nat \<Rightarrow> nat \<Rightarrow> 'f cplx list \<Rightarrow> 'f cplx list" where
  "stage A n len xs =
     fold (\<lambda>b. block_pass A (twiddle A len) len (b * len)) [0 ..< n div len] xs"

function stage_loop :: "'f arith \<Rightarrow> nat \<Rightarrow> nat \<Rightarrow> 'f cplx list \<Rightarrow> 'f cplx list" where
  "stage_loop A n len xs =
     (if 0 < len \<and> len \<le> n then stage_loop A n (2 * len) (stage A n len xs) else xs)"
  by pat_completeness auto

termination stage_loop
  by (relation "measure (\<lambda>(A, n, len, xs). Suc n - len)") auto

declare stage_loop.simps [simp del]

definition fft_n :: "'f arith \<Rightarrow> nat \<Rightarrow> 'f list \<Rightarrow> 'f list" where
  "fft_n A n samples =
     (let xs = map (\<lambda>i. (samples ! i, f_of_nat A 0)) [0 ..< n];
          xs = stage_loop A n 2 (bit_reversal n xs)
      in map (\<lambda>i. f_div A (c_abs A (xs ! i)) (f_of_nat A n)) [0 ..< n div 2])"

definition fft :: "'f arith \<Rightarrow> 'f list \<Rightarrow> 'f list" where
  "fft A samples = fft_n A kRadarSampleCount samples"

section \<open>Target detection\<close>

definition detect_step :: "'f arith \<Rightarrow> 'f \<Rightarrow> 'f \<times> 'f \<Rightarrow> 'f \<times> 'f" where
  "detect_step A magnitude = (\<lambda>(peak, sum).
     (if f_less A peak magnitude then magnitude else peak, f_add A sum magnitude))"

definition target_detection :: "'f arith \<Rightarrow> 'f list \<Rightarrow> bool \<times> 'f" where
  "target_detection A spectrum =
     (let (peak, sum) = fold (detect_step A) spectrum (f_of_nat A 0, f_of_nat A 0);
          mean = f_div A sum (f_of_nat A (length spectrum))
      in (f_less A (f_mul A (f_of_nat A 4) mean) peak, peak))"

section \<open>The pipeline\<close>

definition process :: "'f arith \<Rightarrow> 'f radar_signal \<Rightarrow> 'f processed_signal" where
  "process A sig =
     (let filtered = noise_filter A (sig_samples sig);
          spectrum = fft A filtered;
          (detected, peak) = target_detection A spectrum
      in ProcessedSignal (sig_timestamp sig) detected peak)"

section \<open>Shapes\<close>

lemma length_noise_filter [simp]: "length (noise_filter A xs) = length xs"
  by (simp add: noise_filter_def)

lemma length_fft_n [simp]: "length (fft_n A n xs) = n div 2"
  by (simp add: fft_n_def Let_def)

lemma process_timestamp [simp]: "ps_timestamp (process A sig) = sig_timestamp sig"
  by (simp add: process_def ProcessedSignal_def Let_def split: prod.splits)

end
