(* ===== verification/Thread_Pool.thy ===== *)
theory Thread_Pool
  imports Shared_State Dsp_Pipeline
begin

text \<open>
  The pool of \<^verbatim>\<open>src/thread_pool.cpp\<close>: the registration of its heartbeats, the work on one signal and
  each worker's thread as a step relation on the shared state.
\<close>

section \<open>Registration\<close>

definition worker_name :: "nat \<Rightarrow> string" where
  "worker_name i = ''dsp-worker-'' @ string_of_nat i"

definition ThreadPool :: "config \<Rightarrow> registry \<Rightarrow> nat list \<times> registry" where
  "ThreadPool cfg reg = register_all (map worker_name [0 ..< workerCount (pool cfg)]) reg"

section \<open>Work on one signal\<close>

definition toLogRecord :: "'f processed_signal \<Rightarrow> 'f log_record" where
  "toLogRecord res =
     result_record Info (ps_timestamp res) Dsp
       \<lparr>r_targetDetected = ps_targetDetected res, r_peakMagnitude = ps_peakMagnitude res\<rparr>"

section \<open>A worker thread\<close>

datatype 'f kpc =
    KInit
  | KWait
  | KPop
  | KDepth "'f radar_signal"
  | KStoreDepth "'f radar_signal" nat
  | KRun "'f radar_signal"
  | KProcess "'f radar_signal"
  | KCount "'f processed_signal"
  | KLatency "'f processed_signal"
  | KPush "'f log_record"
  | KOutDepth
  | KStoreOutDepth nat
  | KDrops
  | KStoreDrops u64
  | KUnwind unwinding
  | KDone

text \<open>Where the handler of an exception goes on.\<close>

fun worker_resume :: "unwinding option \<Rightarrow> 'f kpc" where
  "worker_resume None = KDone"
| "worker_resume (Some u) = KUnwind u"

inductive worker_step :: "config \<Rightarrow> os \<Rightarrow> 'f arith \<Rightarrow> nat
    \<Rightarrow> 'f event \<Rightarrow> 'f kpc \<times> 'f shared \<Rightarrow> 'f kpc \<times> 'f shared \<Rightarrow> bool"
  for cfg :: config and sys :: os and A :: "'f arith" and hb :: nat where
  wk_init: "worker_step cfg sys A hb Tau (KInit, s)
     (KWait, configure_thread cfg sys built (dspPriority (realtime cfg)) ''dsp-worker'' s)"
| wk_wait: "worker_step cfg sys A hb Tau (KWait, s) (KPop, on_heartbeat hb markWaiting s)"
| wk_pop: "waitAndPop (inputQueue s) = Returns (Some sig, q)
     \<Longrightarrow> worker_step cfg sys A hb (InQ WaitAndPop (Got (Some sig))) (KPop, s) (KDepth sig, s\<lparr>inputQueue := q\<rparr>)"
| wk_end: "waitAndPop (inputQueue s) = Returns (None, q)
     \<Longrightarrow> worker_step cfg sys A hb (InQ WaitAndPop (Got None)) (KPop, s) (KDone, s\<lparr>inputQueue := q\<rparr>)"
| wk_depth: "worker_step cfg sys A hb Tau (KDepth sig, s) (KStoreDepth sig (size_tsq (inputQueue s)), s)"
| wk_store_depth: "worker_step cfg sys A hb Tau (KStoreDepth sig d, s)
     (KRun sig, on_metrics (setInputQueueDepth d) s)"
| wk_run: "worker_step cfg sys A hb Tau (KRun sig, s) (KProcess sig, on_heartbeat hb (markRunning now) s)"
| wk_process: "worker_step cfg sys A hb Tau (KProcess sig, s) (KCount (process A sig), s)"
| wk_count: "worker_step cfg sys A hb (Counted res) (KCount res, s) (KLatency res, on_metrics recordSignalProcessed s)"
| wk_latency: "worker_step cfg sys A hb Tau (KLatency res, s)
     (KPush (toLogRecord res), on_metrics (recordProcessingLatency (now - ps_timestamp res)) s)"
| wk_push: "push r (outputQueue s) = Returns (b, q)
     \<Longrightarrow> worker_step cfg sys A hb (OutQ (Push r) (Stored b)) (KPush r, s) (KOutDepth, s\<lparr>outputQueue := q\<rparr>)"
| wk_out_depth: "worker_step cfg sys A hb Tau (KOutDepth, s) (KStoreOutDepth (size_tsq (outputQueue s)), s)"
| wk_store_out_depth: "worker_step cfg sys A hb Tau (KStoreOutDepth d, s)
     (KDrops, on_metrics (setOutputQueueDepth d) s)"
| wk_drops: "worker_step cfg sys A hb Tau (KDrops, s) (KStoreDrops (droppedCount (outputQueue s)), s)"
| wk_store_drops: "worker_step cfg sys A hb Tau (KStoreDrops n, s) (KWait, on_metrics (setLogDrops n) s)"
| wk_throw: "p \<noteq> KDone \<Longrightarrow> \<forall>u. p \<noteq> KUnwind u
     \<Longrightarrow> worker_step cfg sys A hb Threw (p, s) (KUnwind (UReport e), s)"
| wk_handle: "worker_step cfg sys A hb Threw (KUnwind u, s)
     (worker_resume (fst (boundary_step built ''dsp-worker'' u s)), snd (boundary_step built ''dsp-worker'' u s))"

fun worker_handler :: "'f kpc \<Rightarrow> unwinding option" where
  "worker_handler (KUnwind u) = Some u"
| "worker_handler _ = None"

lemma worker_handler_iff [simp]: "worker_handler p = Some u \<longleftrightarrow> p = KUnwind u"
  by (cases p) auto

lemma worker_handler_resume [simp]: "worker_handler (worker_resume x) = x"
  by (cases x) auto

section \<open>The thread keeps the contract of the pipeline\<close>

interpretation worker_thread: pipeline_thread "worker_step cfg sys A hb" "\<lambda>p. p = KDone" worker_handler for cfg sys A hb
proof unfold_locales
  fix ev p s p' s' r r'
  assume step: "worker_step cfg sys A hb ev (p, s) (p', s')"
  from step show "queue_effect ev s s'"
    by (cases rule: worker_step.cases) (simp_all add: step_defs)
  from step show "ev \<noteq> InQ Close r \<and> ev \<noteq> OutQ Close r'"
    by (cases rule: worker_step.cases) simp_all
  from step show "tok_requested (shutdownToken s')" if "tok_requested (shutdownToken s)"
    using that by (cases rule: worker_step.cases) (simp_all add: step_defs)
  from step show "length (heartbeatRegistry s') = length (heartbeatRegistry s)
      \<and> length (sinks s') = length (sinks s)"
    by (cases rule: worker_step.cases) (simp_all add: step_defs)
next
  fix p s p' s'
  assume "worker_step cfg sys A hb Threw (p, s) (p', s')" and "worker_handler p = None"
  then show "s' = s \<and> (\<exists>e. worker_handler p' = Some (UReport e))"
    by (cases rule: worker_step.cases) simp_all
next
  fix ev p s p' s' u
  assume "worker_step cfg sys A hb ev (p, s) (p', s')" and "worker_handler p = Some u"
  then show "ev = Threw \<and> (\<exists>built role. worker_handler p' = fst (boundary_step built role u s)
        \<and> s' = snd (boundary_step built role u s))
      \<and> (worker_handler p' = None \<longrightarrow> p' = KDone)"
    by (cases rule: worker_step.cases) (simp_all, metis worker_resume.simps(1))
next
  fix ev p s p' s'
  assume "worker_step cfg sys A hb ev (p, s) (p', s')" and "ev \<noteq> Threw"
  then show "worker_handler p' = None" by (cases rule: worker_step.cases) simp_all
next
  show "worker_handler p = None" if "p = KDone" for p
    using that by simp
next
  show "\<not> worker_step cfg sys A hb ev (p, s) (p', s')" if "p = KDone" for ev p s p' s'
    using that by (auto elim: worker_step.cases)
qed

section \<open>Properties\<close>

lemma ThreadPool_eq:
  "ThreadPool cfg reg =
     ([length reg ..< length reg + workerCount (pool cfg)],
      reg @ map (\<lambda>i. (worker_name i, new_heartbeat)) [0 ..< workerCount (pool cfg)])"
  by (simp add: ThreadPool_def register_all_eq comp_def)

lemma worker_name_inject: "worker_name i = worker_name j \<longleftrightarrow> i = j"
  unfolding worker_name_def using nat_of_string_of_nat by (metis same_append_eq)

end
