(* ===== verification/Radar_Logger.thy ===== *)
theory Radar_Logger
  imports Shared_State
begin

text \<open>
  The logger of \<^verbatim>\<open>src/logger.cpp\<close>: the text of a record, the drain loop as a function on a queue
  that is its own, and the logger thread as a step relation on the shared state. How a
  single-precision number prints is the stream library's business and a parameter.
\<close>

section \<open>Formatting\<close>

fun levelName :: "LogLevel \<Rightarrow> string" where
  "levelName Info = ''INFO''"
| "levelName Warning = ''WARN''"
| "levelName Error = ''ERROR''"

fun sourceName :: "LogSource \<Rightarrow> string" where
  "sourceName Producer = ''Producer''"
| "sourceName Dsp = ''Dsp''"
| "sourceName Watchdog = ''Watchdog''"

definition payload_text :: "('f \<Rightarrow> string) \<Rightarrow> 'f log_record \<Rightarrow> string" where
  "payload_text show_float r =
     (case lr_result r of
        Some res \<Rightarrow> ''detected='' @ string_of_int (if r_targetDetected res then 1 else 0)
          @ '' peak='' @ show_float (r_peakMagnitude res)
      | None \<Rightarrow> lr_message r)"

definition formatLine :: "('f \<Rightarrow> string) \<Rightarrow> 'f log_record \<Rightarrow> string" where
  "formatLine show_float r =
     ''[t='' @ string_of_int (to_us (lr_timestamp r)) @ ''us] ['' @ levelName (lr_level r) @ ''] [''
       @ sourceName (lr_source r) @ ''] '' @ payload_text show_float r @ [CHR 0x0A]"

section \<open>The drain loop on its own\<close>

text \<open>
  The clock readings come as a sequence, numbered by the records. The loop marks the heartbeat as
  waiting before each pop; here this is done once before the loop and at the end of each body.
\<close>

definition write_all :: "string \<Rightarrow> 'f shared \<Rightarrow> 'f shared" where
  "write_all line s = s\<lparr>sinks := map (sink_write line) (sinks s)\<rparr>"

definition flush_all :: "'f shared \<Rightarrow> 'f shared" where
  "flush_all s = s\<lparr>sinks := map sink_flush (sinks s)\<rparr>"

definition drain_body :: "('f \<Rightarrow> string) \<Rightarrow> (nat \<Rightarrow> time_point) \<Rightarrow> nat \<Rightarrow> 'f log_record \<Rightarrow> 'f log_record tsq
    \<Rightarrow> 'f shared \<times> nat \<Rightarrow> 'f shared \<times> nat" where
  "drain_body show_float clock hb r q = (\<lambda>(s, n).
     (on_heartbeat hb markWaiting
       (write_all (formatLine show_float r)
         (on_heartbeat hb (markRunning (clock n))
           (on_metrics (setOutputQueueDepth (size_tsq q)) s))), Suc n))"

definition drainLoop :: "nat \<Rightarrow> config \<Rightarrow> os \<Rightarrow> bool \<Rightarrow> ('f \<Rightarrow> string) \<Rightarrow> (nat \<Rightarrow> time_point) \<Rightarrow> nat
    \<Rightarrow> 'f shared \<Rightarrow> 'f shared option" where
  "drainLoop fuel cfg sys built show_float clock hb s =
     (let s0 = configure_thread cfg sys built (loggerPriority (realtime cfg)) ''logger'' s;
          s1 = on_heartbeat hb markWaiting s0
      in case consume fuel waitAndPop (drain_body show_float clock hb) (outputQueue s1) (s1, 0) of
           None \<Rightarrow> None
         | Some (q, (s2, _)) \<Rightarrow> Some (flush_all (s2\<lparr>outputQueue := q\<rparr>)))"

section \<open>The logger thread\<close>

datatype 'f lpc =
    LInit
  | LWait
  | LPop
  | LDepth "'f log_record"
  | LStoreDepth "'f log_record" nat
  | LRun "'f log_record"
  | LWrite string nat
  | LFlush nat
  | LUnwind unwinding
  | LDone

text \<open>Where the handler of an exception goes on.\<close>

fun logger_resume :: "unwinding option \<Rightarrow> 'f lpc" where
  "logger_resume None = LDone"
| "logger_resume (Some u) = LUnwind u"

inductive logger_step :: "config \<Rightarrow> os \<Rightarrow> ('f \<Rightarrow> string) \<Rightarrow> nat \<Rightarrow> 'f event \<Rightarrow> 'f lpc \<times> 'f shared \<Rightarrow> 'f lpc \<times> 'f shared \<Rightarrow> bool"
  for cfg :: config and sys :: os and show_float :: "'f \<Rightarrow> string" and hb :: nat where
  lg_init: "logger_step cfg sys show_float hb Tau (LInit, s)
     (LWait, configure_thread cfg sys built (loggerPriority (realtime cfg)) ''logger'' s)"
| lg_wait: "logger_step cfg sys show_float hb Tau (LWait, s) (LPop, on_heartbeat hb markWaiting s)"
| lg_pop: "waitAndPop (outputQueue s) = Returns (Some r, q)
     \<Longrightarrow> logger_step cfg sys show_float hb (OutQ WaitAndPop (Got (Some r))) (LPop, s) (LDepth r, s\<lparr>outputQueue := q\<rparr>)"
| lg_end: "waitAndPop (outputQueue s) = Returns (None, q)
     \<Longrightarrow> logger_step cfg sys show_float hb (OutQ WaitAndPop (Got None)) (LPop, s) (LFlush 0, s\<lparr>outputQueue := q\<rparr>)"
| lg_depth: "logger_step cfg sys show_float hb Tau (LDepth r, s) (LStoreDepth r (size_tsq (outputQueue s)), s)"
| lg_store: "logger_step cfg sys show_float hb Tau (LStoreDepth r d, s)
     (LRun r, on_metrics (setOutputQueueDepth d) s)"
| lg_run: "logger_step cfg sys show_float hb Tau (LRun r, s)
     (LWrite (formatLine show_float r) 0, on_heartbeat hb (markRunning now) s)"
| lg_write: "k < length (sinks s)
     \<Longrightarrow> logger_step cfg sys show_float hb Tau (LWrite line k, s) (LWrite line (Suc k), on_sink k (sink_write line) s)"
| lg_written: "length (sinks s) \<le> k
     \<Longrightarrow> logger_step cfg sys show_float hb Tau (LWrite line k, s) (LWait, s)"
| lg_flush: "k < length (sinks s)
     \<Longrightarrow> logger_step cfg sys show_float hb Tau (LFlush k, s) (LFlush (Suc k), on_sink k sink_flush s)"
| lg_done: "length (sinks s) \<le> k
     \<Longrightarrow> logger_step cfg sys show_float hb Tau (LFlush k, s) (LDone, s)"
| lg_throw: "p \<noteq> LDone \<Longrightarrow> \<forall>u. p \<noteq> LUnwind u
     \<Longrightarrow> logger_step cfg sys show_float hb Threw (p, s) (LUnwind (UReport e), s)"
| lg_handle: "logger_step cfg sys show_float hb Threw (LUnwind u, s)
     (logger_resume (fst (boundary_step built ''logger'' u s)), snd (boundary_step built ''logger'' u s))"

fun logger_handler :: "'f lpc \<Rightarrow> unwinding option" where
  "logger_handler (LUnwind u) = Some u"
| "logger_handler _ = None"

lemma logger_handler_iff [simp]: "logger_handler p = Some u \<longleftrightarrow> p = LUnwind u"
  by (cases p) auto

lemma logger_handler_resume [simp]: "logger_handler (logger_resume x) = x"
  by (cases x) auto

section \<open>The thread keeps the contract of the pipeline\<close>

interpretation logger_thread: pipeline_thread "logger_step cfg sys show_float hb" "\<lambda>p. p = LDone" logger_handler for cfg sys show_float hb
proof unfold_locales
  fix ev p s p' s' r r'
  assume step: "logger_step cfg sys show_float hb ev (p, s) (p', s')"
  from step show "queue_effect ev s s'"
    by (cases rule: logger_step.cases) (simp_all add: step_defs)
  from step show "ev \<noteq> InQ Close r \<and> ev \<noteq> OutQ Close r'"
    by (cases rule: logger_step.cases) simp_all
  from step show "tok_requested (shutdownToken s')" if "tok_requested (shutdownToken s)"
    using that by (cases rule: logger_step.cases) (simp_all add: step_defs)
  from step show "length (heartbeatRegistry s') = length (heartbeatRegistry s)
      \<and> length (sinks s') = length (sinks s)"
    by (cases rule: logger_step.cases) (simp_all add: step_defs)
next
  fix p s p' s'
  assume "logger_step cfg sys show_float hb Threw (p, s) (p', s')" and "logger_handler p = None"
  then show "s' = s \<and> (\<exists>e. logger_handler p' = Some (UReport e))"
    by (cases rule: logger_step.cases) simp_all
next
  fix ev p s p' s' u
  assume "logger_step cfg sys show_float hb ev (p, s) (p', s')" and "logger_handler p = Some u"
  then show "ev = Threw \<and> (\<exists>built role. logger_handler p' = fst (boundary_step built role u s)
        \<and> s' = snd (boundary_step built role u s))
      \<and> (logger_handler p' = None \<longrightarrow> p' = LDone)"
    by (cases rule: logger_step.cases) (simp_all, metis logger_resume.simps(1))
next
  fix ev p s p' s'
  assume "logger_step cfg sys show_float hb ev (p, s) (p', s')" and "ev \<noteq> Threw"
  then show "logger_handler p' = None" by (cases rule: logger_step.cases) simp_all
next
  show "logger_handler p = None" if "p = LDone" for p
    using that by simp
next
  show "\<not> logger_step cfg sys show_float hb ev (p, s) (p', s')" if "p = LDone" for ev p s p' s'
    using that by (auto elim: logger_step.cases)
qed

section \<open>Properties\<close>

lemma split_at_char:
  assumes "xs @ c # ys = xs' @ c # ys'" and "c \<notin> set xs" and "c \<notin> set xs'"
  shows "xs = xs' \<and> ys = ys'"
  using assms by (induction xs arbitrary: xs') (auto simp: Cons_eq_append_conv append_eq_Cons_conv)

lemma no_u_in_int: "CHR ''u'' \<notin> set (string_of_int i)"
  using string_of_int_chars [of "CHR ''u''" i] by (auto simp: is_digit_def)

text \<open>C35: A log line is unambiguous. Two records with the same line agree on their timestamp in
  microseconds, their level, their source and the text of their payload, whatever that text is.\<close>

theorem log_line_unambiguous:
  assumes "formatLine show_float r = formatLine show_float r'"
  shows "to_us (lr_timestamp r) = to_us (lr_timestamp r') \<and> lr_level r = lr_level r'
    \<and> lr_source r = lr_source r' \<and> payload_text show_float r = payload_text show_float r'"
proof -
  let ?rest = "\<lambda>r. ''s] ['' @ levelName (lr_level r) @ ''] ['' @ sourceName (lr_source r) @ ''] ''
    @ payload_text show_float r @ [CHR 0x0A]"
  have line: "formatLine show_float x =
      ''[t='' @ string_of_int (to_us (lr_timestamp x)) @ CHR ''u'' # ?rest x" for x
    by (simp add: formatLine_def)
  have "string_of_int (to_us (lr_timestamp r)) @ CHR ''u'' # ?rest r =
      string_of_int (to_us (lr_timestamp r')) @ CHR ''u'' # ?rest r'"
    using assms unfolding line by simp
  from split_at_char [OF this no_u_in_int no_u_in_int]
  have ts: "to_us (lr_timestamp r) = to_us (lr_timestamp r')" and rest: "?rest r = ?rest r'"
    by simp_all
  from rest have lv: "lr_level r = lr_level r'"
    by (cases "lr_level r"; cases "lr_level r'") auto
  with rest have src: "lr_source r = lr_source r'"
    by (cases "lr_source r"; cases "lr_source r'") auto
  with lv rest ts show ?thesis by simp
qed

theorem log_line_unambiguous_witness:
  "formatLine (\<lambda>_. ''1'') (message_record Info 1500 Watchdog ''x'' :: nat log_record)
     = formatLine (\<lambda>_. ''1'') (message_record Info 1999 Watchdog ''x'')
   \<and> to_us 1500 = to_us 1999"
proof -
  have same: "formatLine (\<lambda>_. ''1'') (message_record Info 1500 Watchdog ''x'' :: nat log_record)
     = formatLine (\<lambda>_. ''1'') (message_record Info 1999 Watchdog ''x'')"
    by (simp add: formatLine_def payload_text_def message_record_def to_us_def tdiv_def ns_per_us_def)
  from log_line_unambiguous [OF this] same show ?thesis
    by (simp add: message_record_def)
qed

lemma drain_bodies_sinks:
  "map sink_lines (sinks (fst (bodies rest (drain_body show_float clock hb) rs q (s, n)))) =
     map (\<lambda>k. sink_lines k @ map (formatLine show_float) rs) (sinks s)"
  by (induction rs arbitrary: s n)
    (simp_all add: drain_body_def write_all_def sink_write_def step_defs comp_def)

lemma drain_bodies_frame:
  "inputQueue (fst (bodies rest (drain_body show_float clock hb) rs q (s, n))) = inputQueue s"
  "shutdownToken (fst (bodies rest (drain_body show_float clock hb) rs q (s, n))) = shutdownToken s"
  "m_threadExceptions (sh_metrics (fst (bodies rest (drain_body show_float clock hb) rs q (s, n))))
     = m_threadExceptions (sh_metrics s)"
  by (induction rs arbitrary: s n)
    (simp_all add: drain_body_def write_all_def step_defs metrics_simps)

text \<open>The logger drains completely. On a closed output queue the drain loop ends after one pop
  per buffered record and one more; every sink then holds its earlier lines followed by the
  formatted line of every buffered record, in queue order, all of it flushed, and the queue is
  empty.\<close>

lemma drain_loop_writes_everything:
  assumes "q_closed (outputQueue s)" and "length (q_queue (outputQueue s)) < fuel"
  shows "\<exists>s'. drainLoop fuel cfg sys built show_float clock hb s = Some s'
    \<and> map sink_lines (sinks s') =
        map (\<lambda>k. sink_lines k @ map (formatLine show_float) (q_queue (outputQueue s))) (sinks s)
    \<and> (\<forall>k \<in> set (sinks s'). sink_flushed k = length (sink_lines k))
    \<and> q_queue (outputQueue s') = [] \<and> inputQueue s' = inputQueue s"
proof -
  let ?start = "on_heartbeat hb markWaiting
    (configure_thread cfg sys built (loggerPriority (realtime cfg)) ''logger'' s)"
  let ?final = "bodies with_queue (drain_body show_float clock hb) (q_queue (outputQueue s))
    (outputQueue s) (?start, 0)"
  have out: "outputQueue ?start = outputQueue s" "sinks ?start = sinks s" "inputQueue ?start = inputQueue s"
    by (simp_all add: step_defs)
  have "consume fuel waitAndPop (drain_body show_float clock hb) (outputQueue ?start) (?start, 0) =
    Some (with_queue [] (outputQueue s), ?final)"
    using tsq_source.consume_closed [of "outputQueue s" fuel] assms out(1) by simp
  then have "drainLoop fuel cfg sys built show_float clock hb s =
    Some (flush_all ((fst ?final)\<lparr>outputQueue := with_queue [] (outputQueue s)\<rparr>))"
    by (simp add: drainLoop_def split: prod.splits)
  moreover have "map sink_lines (sinks (fst ?final)) =
      map (\<lambda>k. sink_lines k @ map (formatLine show_float) (q_queue (outputQueue s))) (sinks s)"
    using drain_bodies_sinks out(2) by metis
  moreover have "inputQueue (fst ?final) = inputQueue s"
    using drain_bodies_frame(1) out(3) by metis
  moreover have "sink_lines \<circ> sink_flush = sink_lines"
    by (auto simp: sink_flush_def)
  ultimately show ?thesis
    by (simp add: flush_all_def) (simp add: sink_flush_def)
qed

abbreviation plain_os :: os where
  "plain_os \<equiv> \<lparr>os_pagesize = 4096, os_mlockall = (0, 0), os_malloc = True,
     os_setschedparam = (\<lambda>_. 0), os_setaffinity = (\<lambda>_. 0)\<rparr>"

lemma drain_loop_writes_everything_example:
  "let q = \<lparr>q_queue = [message_record Error 7000 Watchdog ''x''], q_capacity = 4, q_policy = DropOldest,
            q_droppedCount = 0, q_closed = True\<rparr>;
       s = \<lparr>inputQueue = \<lparr>q_queue = [], q_capacity = 1, q_policy = Block, q_droppedCount = 0, q_closed = True\<rparr>,
            outputQueue = q, shutdownToken = new_token, sh_metrics = new_metrics,
            heartbeatRegistry = [(''logger'', new_heartbeat)], sinks = [new_sink], cerr = []\<rparr> :: nat shared
   in \<exists>s'. drainLoop 2 default_config plain_os True (\<lambda>_. ''1'') (\<lambda>_. 9000) 0 s = Some s'
        \<and> map sink_lines (sinks s') = [[formatLine (\<lambda>_. ''1'') (message_record Error 7000 Watchdog ''x'' :: nat log_record)]]"
proof -
  let ?q = "\<lparr>q_queue = [message_record Error 7000 Watchdog ''x''], q_capacity = 4, q_policy = DropOldest,
            q_droppedCount = 0, q_closed = True\<rparr> :: nat log_record tsq"
  let ?s = "\<lparr>inputQueue = \<lparr>q_queue = [], q_capacity = 1, q_policy = Block, q_droppedCount = 0, q_closed = True\<rparr>,
            outputQueue = ?q, shutdownToken = new_token, sh_metrics = new_metrics,
            heartbeatRegistry = [(''logger'', new_heartbeat)], sinks = [new_sink], cerr = []\<rparr> :: nat shared"
  have "q_closed (outputQueue ?s)" "length (q_queue (outputQueue ?s)) < 2" by simp_all
  from drain_loop_writes_everything [OF this, of default_config plain_os True "\<lambda>_. ''1''" "\<lambda>_. 9000" 0]
  show ?thesis by (auto simp: new_sink_def Let_def)
qed

end
