(* ===== verification/Watchdog_Monitor.thy ===== *)
theory Watchdog_Monitor
  imports Shared_State
begin

text \<open>
  The watchdog of \<^verbatim>\<open>src/watchdog.cpp\<close>. First a scan as one function, then its thread as a step
  relation: one step per access to a shared object.
\<close>

section \<open>A scan\<close>

definition stall_message :: "string \<Rightarrow> duration \<Rightarrow> string" where
  "stall_message name age =
     ''stalled worker '' @ [CHR 0x27] @ name @ [CHR 0x27] @ '' Running for ''
       @ string_of_int (to_ms age) @ ''ms''"

definition stall_record :: "string \<Rightarrow> duration \<Rightarrow> time_point \<Rightarrow> 'f log_record" where
  "stall_record name age now = message_record Error now Watchdog (stall_message name age)"

definition reportStall :: "string \<Rightarrow> duration \<Rightarrow> time_point \<Rightarrow> 'f shared \<Rightarrow> 'f shared outcome" where
  "reportStall name age now s =
     (let s1 = on_metrics recordWatchdogStall s in
      case push (stall_record name age now) (outputQueue s1) of
        Waits \<Rightarrow> Waits
      | Returns (_, q) \<Rightarrow> Returns (s1\<lparr>outputQueue := q\<rparr>))"

definition scan_visitor :: "duration \<Rightarrow> time_point \<Rightarrow> string \<Rightarrow> heartbeat
    \<Rightarrow> (bool \<times> 'f shared) outcome \<Rightarrow> (bool \<times> 'f shared) outcome" where
  "scan_visitor timeout now name hb r =
     (case r of
        Waits \<Rightarrow> Waits
      | Returns (stallDetected, s) \<Rightarrow>
          (if hb_state hb \<noteq> Running then Returns (stallDetected, s)
           else let age = now - hb_timestamp hb in
             if age \<le> timeout then Returns (stallDetected, s)
             else (case reportStall name age now s of
                     Waits \<Rightarrow> Waits | Returns s' \<Rightarrow> Returns (True, s'))))"

definition scanOnce :: "config \<Rightarrow> time_point \<Rightarrow> 'f shared \<Rightarrow> 'f shared outcome" where
  "scanOnce cfg now s =
     (case forEach (scan_visitor (timeout_of cfg) now) (heartbeatRegistry s) (Returns (False, s)) of
        Waits \<Rightarrow> Waits
      | Returns (stallDetected, s') \<Rightarrow>
          Returns (if stallDetected \<and> escalateToShutdown (watchdog cfg) then request_shutdown s' else s'))"

section \<open>The watchdog thread\<close>

datatype 'f wpc =
    WdInit
  | WdSleep
  | WdState time_point nat bool
  | WdAge time_point nat bool
  | WdCount "'f log_record" time_point nat
  | WdPush "'f log_record" time_point nat
  | WdEscalate bool
  | WdUnwind unwinding
  | WdDone

text \<open>Where the handler of an exception goes on.\<close>

fun watchdog_resume :: "unwinding option \<Rightarrow> 'f wpc" where
  "watchdog_resume None = WdDone"
| "watchdog_resume (Some u) = WdUnwind u"

text \<open>
  The environment supplies the clock reading \<open>now\<close>, whether the scan interval has elapsed, and the
  exceptions, which may strike anywhere.
\<close>

inductive watchdog_step :: "config \<Rightarrow> os \<Rightarrow> 'f event \<Rightarrow> 'f wpc \<times> 'f shared \<Rightarrow> 'f wpc \<times> 'f shared \<Rightarrow> bool"
  for cfg :: config and sys :: os where
  wd_init: "watchdog_step cfg sys Tau (WdInit, s)
     (WdSleep, configure_thread cfg sys built (watchdogPriority (realtime cfg)) ''watchdog'' s)"
| wd_stop: "waitFor elapsed (shutdownToken s) = Some True
     \<Longrightarrow> watchdog_step cfg sys Tau (WdSleep, s) (WdDone, s)"
| wd_scan: "waitFor elapsed (shutdownToken s) = Some False
     \<Longrightarrow> watchdog_step cfg sys Tau (WdSleep, s) (WdState now 0 False, s)"
| wd_skip: "k < length (heartbeatRegistry s) \<Longrightarrow> hb_state (snd (heartbeatRegistry s ! k)) \<noteq> Running
     \<Longrightarrow> watchdog_step cfg sys Tau (WdState now k stall, s) (WdState now (Suc k) stall, s)"
| wd_running: "k < length (heartbeatRegistry s) \<Longrightarrow> hb_state (snd (heartbeatRegistry s ! k)) = Running
     \<Longrightarrow> watchdog_step cfg sys Tau (WdState now k stall, s) (WdAge now k stall, s)"
| wd_fresh: "k < length (heartbeatRegistry s)
     \<Longrightarrow> now - hb_timestamp (snd (heartbeatRegistry s ! k)) \<le> timeout_of cfg
     \<Longrightarrow> watchdog_step cfg sys Tau (WdAge now k stall, s) (WdState now (Suc k) stall, s)"
| wd_stale: "k < length (heartbeatRegistry s)
     \<Longrightarrow> age = now - hb_timestamp (snd (heartbeatRegistry s ! k)) \<Longrightarrow> timeout_of cfg < age
     \<Longrightarrow> watchdog_step cfg sys Tau (WdAge now k stall, s)
           (WdCount (stall_record (fst (heartbeatRegistry s ! k)) age now) now k, s)"
| wd_count: "watchdog_step cfg sys Tau (WdCount r now k, s)
     (WdPush r now k, on_metrics recordWatchdogStall s)"
| wd_push: "push r (outputQueue s) = Returns (b, q)
     \<Longrightarrow> watchdog_step cfg sys (OutQ (Push r) (Stored b)) (WdPush r now k, s) (WdState now (Suc k) True, s\<lparr>outputQueue := q\<rparr>)"
| wd_end: "length (heartbeatRegistry s) \<le> k
     \<Longrightarrow> watchdog_step cfg sys Tau (WdState now k stall, s) (WdEscalate stall, s)"
| wd_escalate: "watchdog_step cfg sys Tau (WdEscalate stall, s)
     (WdSleep, if stall \<and> escalateToShutdown (watchdog cfg) then request_shutdown s else s)"
| wd_throw: "p \<noteq> WdDone \<Longrightarrow> \<forall>u. p \<noteq> WdUnwind u
     \<Longrightarrow> watchdog_step cfg sys Threw (p, s) (WdUnwind (UReport e), s)"
| wd_handle: "watchdog_step cfg sys Threw (WdUnwind u, s)
     (watchdog_resume (fst (boundary_step built ''watchdog'' u s)), snd (boundary_step built ''watchdog'' u s))"

fun watchdog_handler :: "'f wpc \<Rightarrow> unwinding option" where
  "watchdog_handler (WdUnwind u) = Some u"
| "watchdog_handler _ = None"

lemma watchdog_handler_iff [simp]: "watchdog_handler p = Some u \<longleftrightarrow> p = WdUnwind u"
  by (cases p) auto

lemma watchdog_handler_resume [simp]: "watchdog_handler (watchdog_resume x) = x"
  by (cases x) auto

section \<open>The thread keeps the contract of the pipeline\<close>

interpretation watchdog_thread: pipeline_thread "watchdog_step cfg sys" "\<lambda>p. p = WdDone" watchdog_handler for cfg sys
proof unfold_locales
  fix ev p s p' s' r r'
  assume step: "watchdog_step cfg sys ev (p, s) (p', s')"
  from step show "queue_effect ev s s'"
    by (cases rule: watchdog_step.cases) (simp_all add: step_defs)
  from step show "ev \<noteq> InQ Close r \<and> ev \<noteq> OutQ Close r'"
    by (cases rule: watchdog_step.cases) simp_all
  from step show "tok_requested (shutdownToken s')" if "tok_requested (shutdownToken s)"
    using that by (cases rule: watchdog_step.cases) (simp_all add: step_defs)
  from step show "length (heartbeatRegistry s') = length (heartbeatRegistry s)
      \<and> length (sinks s') = length (sinks s)"
    by (cases rule: watchdog_step.cases) (simp_all add: step_defs)
next
  fix p s p' s'
  assume "watchdog_step cfg sys Threw (p, s) (p', s')" and "watchdog_handler p = None"
  then show "s' = s \<and> (\<exists>e. watchdog_handler p' = Some (UReport e))"
    by (cases rule: watchdog_step.cases) simp_all
next
  fix ev p s p' s' u
  assume "watchdog_step cfg sys ev (p, s) (p', s')" and "watchdog_handler p = Some u"
  then show "ev = Threw \<and> (\<exists>built role. watchdog_handler p' = fst (boundary_step built role u s)
        \<and> s' = snd (boundary_step built role u s))
      \<and> (watchdog_handler p' = None \<longrightarrow> p' = WdDone)"
    by (cases rule: watchdog_step.cases) (simp_all, metis watchdog_resume.simps(1))
next
  fix ev p s p' s'
  assume "watchdog_step cfg sys ev (p, s) (p', s')" and "ev \<noteq> Threw"
  then show "watchdog_handler p' = None" by (cases rule: watchdog_step.cases) simp_all
next
  show "watchdog_handler p = None" if "p = WdDone" for p
    using that by simp
next
  show "\<not> watchdog_step cfg sys ev (p, s) (p', s')" if "p = WdDone" for ev p s p' s'
    using that by (auto elim: watchdog_step.cases)
qed

section \<open>Properties\<close>

definition is_stalled :: "duration \<Rightarrow> time_point \<Rightarrow> heartbeat \<Rightarrow> bool" where
  "is_stalled timeout now hb \<longleftrightarrow> hb_state hb = Running \<and> timeout < now - hb_timestamp hb"

lemma push_not_block: "q_policy q \<noteq> Block \<Longrightarrow> push v q = Returns (enqueueLocked v q)"
  by (simp add: push_def)

lemma enqueueLocked_policy: "q_policy (snd (enqueueLocked v q)) = q_policy q"
  by (simp add: enqueueLocked_def countDrop_def Let_def)

definition stalled_entries :: "duration \<Rightarrow> time_point \<Rightarrow> registry \<Rightarrow> registry" where
  "stalled_entries timeout now reg = filter (is_stalled timeout now \<circ> snd) reg"

definition records_of :: "time_point \<Rightarrow> registry \<Rightarrow> 'f log_record list" where
  "records_of now es = map (\<lambda>(n, hb). stall_record n (now - hb_timestamp hb) now) es"

text \<open>The scan, from an arbitrary point of the visit on.\<close>

lemma scan_from:
  assumes "q_policy (outputQueue s) \<noteq> Block"
  shows "\<exists>tr q. run_ops (map Push (records_of now (stalled_entries timeout now reg))) (outputQueue s)
      = Some (tr, q)
    \<and> forEach (scan_visitor timeout now) reg (Returns (b, s)) =
      Returns (b \<or> stalled_entries timeout now reg \<noteq> [],
        s\<lparr>outputQueue := q, sh_metrics := (sh_metrics s)\<lparr>m_watchdogStalls := m_watchdogStalls (sh_metrics s)
             + of_nat (length (stalled_entries timeout now reg))\<rparr>\<rparr>)"
  using assms
proof (induction reg arbitrary: s b)
  case Nil
  then show ?case by (simp add: forEach_def stalled_entries_def records_of_def)
next
  case (Cons e reg)
  obtain n hb where e: "e = (n, hb)" by fastforce
  show ?case
  proof (cases "is_stalled timeout now hb")
    case False
    then have "scan_visitor timeout now n hb (Returns (b, s)) = Returns (b, s)"
      by (auto simp: scan_visitor_def is_stalled_def Let_def)
    with Cons.IH [OF Cons.prems, of b] False e show ?thesis
      by (simp add: forEach_def stalled_entries_def records_of_def)
  next
    case True
    let ?r = "stall_record n (now - hb_timestamp hb) now :: 'a log_record"
    let ?t = "(on_metrics recordWatchdogStall s)\<lparr>outputQueue := snd (enqueueLocked ?r (outputQueue s))\<rparr>"
    have visit: "scan_visitor timeout now n hb (Returns (b, s)) = Returns (True, ?t)"
      using True Cons.prems
      by (auto simp: scan_visitor_def is_stalled_def reportStall_def push_not_block step_defs Let_def
          split: prod.splits)
    have "q_policy (outputQueue ?t) \<noteq> Block"
      using Cons.prems by (simp add: enqueueLocked_policy)
    from Cons.IH [OF this, of True] True e visit Cons.prems show ?thesis
      by (auto simp: forEach_def stalled_entries_def records_of_def push_not_block step_defs
          metrics_simps algebra_simps split: prod.splits)
  qed
qed

text \<open>C19: A scan reports exactly the stalled threads. For a log queue that does not block, a scan
  always returns; it pushes one record for each heartbeat that is Running and older than the
  timeout, in registration order and for no other (a thread waiting for input is never flagged),
  counts each once, requests shutdown exactly when escalation is configured and something stalled,
  and changes nothing else.\<close>

theorem scan_reports_exactly_stalled:
  assumes "q_policy (outputQueue s) \<noteq> Block"
  shows "\<exists>tr q. let stalled = stalled_entries (timeout_of cfg) now (heartbeatRegistry s) in
     run_ops (map Push (records_of now stalled)) (outputQueue s) = Some (tr, q)
   \<and> scanOnce cfg now s = Returns (s\<lparr>outputQueue := q,
       sh_metrics := (sh_metrics s)\<lparr>m_watchdogStalls := m_watchdogStalls (sh_metrics s) + of_nat (length stalled)\<rparr>,
       shutdownToken := (if stalled \<noteq> [] \<and> escalateToShutdown (watchdog cfg)
                         then requestShutdown (shutdownToken s) else shutdownToken s)\<rparr>)"
  using scan_from [OF assms, of now "timeout_of cfg" "heartbeatRegistry s" False]
  by (auto simp: scanOnce_def request_shutdown_def Let_def)

abbreviation one_stall :: "nat shared" where
  "one_stall \<equiv> \<lparr>inputQueue = \<lparr>q_queue = [], q_capacity = 1, q_policy = Block, q_droppedCount = 0, q_closed = False\<rparr>,
     outputQueue = \<lparr>q_queue = [], q_capacity = 1, q_policy = DropOldest, q_droppedCount = 0, q_closed = False\<rparr>,
     shutdownToken = new_token, sh_metrics = new_metrics,
     heartbeatRegistry = [(''a'', \<lparr>hb_timestamp = 0, hb_state = Running\<rparr>),
                          (''b'', \<lparr>hb_timestamp = 0, hb_state = WaitingForInput\<rparr>)],
     sinks = [], cerr = []\<rparr>"

theorem scan_reports_exactly_stalled_witness:
  "stalled_entries (timeout_of default_config) 600000000 (heartbeatRegistry one_stall)
     = [(''a'', \<lparr>hb_timestamp = 0, hb_state = Running\<rparr>)]
   \<and> (\<exists>s. scanOnce default_config 600000000 one_stall = Returns s
        \<and> m_watchdogStalls (sh_metrics s) = 1 \<and> \<not> shutdownRequested (shutdownToken s))"
proof -
  have st: "stalled_entries (timeout_of default_config) 600000000 (heartbeatRegistry one_stall)
     = [(''a'', \<lparr>hb_timestamp = 0, hb_state = Running\<rparr>)]"
    by (simp add: stalled_entries_def is_stalled_def timeout_of_def default_config_def of_ms_def
        ns_per_ms_def)
  have "q_policy (outputQueue one_stall) \<noteq> Block" by simp
  from scan_reports_exactly_stalled [OF this, of default_config 600000000] st show ?thesis
    by (auto simp: Let_def new_metrics_def default_config_def)
qed

end
