(* ===== verification/Signal_Handler.thy ===== *)
theory Signal_Handler
  imports Radar_Config Radar_Exceptions Shutdown_Token
begin

text \<open>
  \<^verbatim>\<open>src/signal_handler.cpp\<close>: arming the signal descriptor, the timeout of the kernel wait and the
  wait itself. The results of the system calls are inputs: one record per turn of the loop.
\<close>

section \<open>Construction\<close>

datatype signo = SIGINT | SIGTERM | OtherSignal nat

definition shutdownSignalSet :: "signo set" where
  "shutdownSignalSet = {SIGINT, SIGTERM}"

text \<open>
  The state of the main thread's signal mask and the descriptor; \<open>sigmask\<close> is the result of
  \<^verbatim>\<open>pthread_sigmask\<close>, \<open>fd\<close> and \<open>err\<close> those of \<^verbatim>\<open>signalfd\<close>.
\<close>

record handler =
  blocked :: "signo set"
  signalFd :: int

definition SignalHandler :: "(int \<Rightarrow> string) \<Rightarrow> int \<Rightarrow> int \<Rightarrow> int \<Rightarrow> signo set \<Rightarrow> (exn + handler) \<times> signo set" where
  "SignalHandler msg sigmask fd err masked =
     (if sigmask \<noteq> 0 then (Inl (system_call_exception msg ''pthread_sigmask'' sigmask), masked)
      else let masked' = masked \<union> shutdownSignalSet in
        if fd < 0 then (Inl (system_call_exception msg ''signalfd'' err), masked')
        else (Inr \<lparr>blocked = masked', signalFd = fd\<rparr>, masked'))"

text \<open>The descriptors the destructor closes.\<close>

definition handler_destroy :: "handler \<Rightarrow> int list" where
  "handler_destroy h = (if 0 \<le> signalFd h then [signalFd h] else [])"

section \<open>The kernel wait\<close>

definition poll_timeout :: "config \<Rightarrow> int \<times> int" where
  "poll_timeout cfg =
     (let interval = pollInterval (signal cfg);
          seconds = tdiv interval 1000;
          nanoseconds = of_ms (interval - seconds * 1000)
      in (seconds, nanoseconds))"

definition EINTR :: int where "EINTR = 4"
definition EIO :: int where "EIO = 5"
definition siginfo_size :: int where "siginfo_size = 128"

text \<open>
  One turn: whether another subsystem has set the token by now, the results of \<^verbatim>\<open>ppoll\<close> and, when
  it is reached, of \<^verbatim>\<open>read\<close>.
\<close>

record poll_input =
  token_set_elsewhere :: bool
  poll_ready :: int
  poll_errno :: int
  poll_in :: bool
  read_bytes :: int
  read_errno :: int

definition consumePendingSignal :: "(int \<Rightarrow> string) \<Rightarrow> poll_input \<Rightarrow> exn + unit" where
  "consumePendingSignal msg i =
     (if read_bytes i < 0 then Inl (system_call_exception msg ''read'' (read_errno i))
      else if read_bytes i \<noteq> siginfo_size then Inl (system_call_exception msg ''read'' EIO)
      else Inr ())"

text \<open>\<open>None\<close> is a wait that goes on after the given turns; the second part is the token.\<close>

fun waitForShutdown :: "(int \<Rightarrow> string) \<Rightarrow> poll_input list \<Rightarrow> token \<Rightarrow> (exn + unit) option \<times> token" where
  "waitForShutdown msg [] t = (if shutdownRequested t then Some (Inr ()) else None, t)"
| "waitForShutdown msg (i # is) t =
     (let t = (if token_set_elsewhere i then requestShutdown t else t) in
      if shutdownRequested t then (Some (Inr ()), t)
      else if poll_ready i < 0
      then (if poll_errno i = EINTR then waitForShutdown msg is t
            else (Some (Inl (system_call_exception msg ''ppoll'' (poll_errno i))), t))
      else if poll_ready i = 0 then waitForShutdown msg is t
      else if poll_in i
      then (case consumePendingSignal msg i of
              Inl e \<Rightarrow> (Some (Inl e), t)
            | Inr _ \<Rightarrow> (Some (Inr ()), requestShutdown t))
      else waitForShutdown msg is t)"

section \<open>Properties\<close>

text \<open>The kernel timeout is exact and acceptable: for every interval of at least zero
  milliseconds, the seconds and nanoseconds handed to ppoll add up to the configured interval and
  the nanosecond field lies in the range the kernel accepts.\<close>

lemma poll_timeout_exact:
  assumes "0 \<le> pollInterval (signal cfg)"
  shows "case poll_timeout cfg of (sec, nsec) \<Rightarrow>
    0 \<le> sec \<and> 0 \<le> nsec \<and> nsec < 1000000000
    \<and> sec * 1000000000 + nsec = of_ms (pollInterval (signal cfg))"
proof -
  define d where "d = pollInterval (signal cfg) div 1000"
  define m where "m = pollInterval (signal cfg) mod 1000"
  have i: "pollInterval (signal cfg) = 1000 * d + m" and m: "0 \<le> m" "m < 1000"
    by (simp_all add: d_def m_def)
  have d: "0 \<le> d" using assms by (simp add: d_def pos_imp_zdiv_nonneg_iff)
  have "poll_timeout cfg = (d, m * 1000000)"
    using assms i m by (simp add: poll_timeout_def tdiv_nonneg of_ms_def ns_per_ms_def d_def [symmetric])
  with i m d show ?thesis by (simp add: of_ms_def ns_per_ms_def)
qed

lemma poll_timeout_exact_example:
  "case poll_timeout (default_config\<lparr>signal := \<lparr>pollInterval = 2500\<rparr>\<rparr>) of (sec, nsec) \<Rightarrow>
    sec * 1000000000 + nsec = 2500000000 \<and> nsec < 1000000000"
proof -
  have "0 \<le> pollInterval (signal (default_config\<lparr>signal := \<lparr>pollInterval = 2500\<rparr>\<rparr>))" by simp
  from poll_timeout_exact [OF this] show ?thesis
    by (auto simp: of_ms_def ns_per_ms_def split: prod.splits)
qed

text \<open>A turn that leaves the wait as it is.\<close>

definition idle_turn :: "poll_input \<Rightarrow> bool" where
  "idle_turn i \<longleftrightarrow> \<not> token_set_elsewhere i
     \<and> (poll_ready i < 0 \<and> poll_errno i = EINTR \<or> poll_ready i = 0 \<or> 0 < poll_ready i \<and> \<not> poll_in i)"

lemma wait_idle:
  "list_all idle_turn is \<Longrightarrow> \<not> shutdownRequested t
     \<Longrightarrow> waitForShutdown msg (is @ js) t = waitForShutdown msg js t"
  by (induction "is") (auto simp: idle_turn_def Let_def)

text \<open>C33: The main thread's wait ends for the right reasons. It goes on through interruptions,
  timeouts and spurious wake-ups; it returns normally only with the token set, which a signal does
  by itself; a token set elsewhere ends it at the next turn; and it throws only what ppoll or read
  reported, without touching the token.\<close>

theorem signal_wait_outcome:
  assumes "list_all idle_turn is" and "\<not> shutdownRequested t" and "\<not> idle_turn i"
  shows "waitForShutdown msg (is @ i # js) t =
    (if token_set_elsewhere i then (Some (Inr ()), requestShutdown t)
     else if poll_ready i < 0
     then (Some (Inl (system_call_exception msg ''ppoll'' (poll_errno i))), t)
     else if read_bytes i = siginfo_size then (Some (Inr ()), requestShutdown t)
     else (Some (Inl (system_call_exception msg ''read''
                       (if read_bytes i < 0 then read_errno i else EIO))), t))
   \<and> waitForShutdown msg is t = (None, t)"
  using wait_idle [OF assms(1,2), of msg "i # js"] wait_idle [OF assms(1,2), of msg "[]"] assms(2,3)
  by (auto simp: idle_turn_def consumePendingSignal_def siginfo_size_def Let_def)

theorem signal_wait_outcome_witness:
  "let timeout = \<lparr>token_set_elsewhere = False, poll_ready = 0, poll_errno = 0, poll_in = False,
                  read_bytes = 0, read_errno = 0\<rparr>;
       sigint = \<lparr>token_set_elsewhere = False, poll_ready = 1, poll_errno = 0, poll_in = True,
                 read_bytes = 128, read_errno = 0\<rparr>
   in waitForShutdown (\<lambda>_. []) [timeout, timeout, sigint] new_token =
        (Some (Inr ()), requestShutdown new_token)"
proof -
  let ?timeout = "\<lparr>token_set_elsewhere = False, poll_ready = 0, poll_errno = 0, poll_in = False,
                  read_bytes = 0, read_errno = 0\<rparr>"
  let ?sigint = "\<lparr>token_set_elsewhere = False, poll_ready = 1, poll_errno = 0, poll_in = True,
                 read_bytes = 128, read_errno = 0\<rparr>"
  have "list_all idle_turn [?timeout, ?timeout]" "\<not> shutdownRequested new_token" "\<not> idle_turn ?sigint"
    by (simp_all add: idle_turn_def)
  from signal_wait_outcome [OF this, of "\<lambda>_. []" "[]"] show ?thesis
    by (simp add: siginfo_size_def Let_def)
qed

end
