(* ===== verification/Pi_Mutex.thy ===== *)
theory Pi_Mutex
  imports Radar_Exceptions
begin

text \<open>
  The priority-inheritance mutex of \<^verbatim>\<open>src/pi_mutex.cpp\<close>. The \<^verbatim>\<open>pthread\<close> library is a parameter: the
  construction takes the results of its four calls, and the locking calls take a result function
  that may depend on who holds the mutex. The names of the calls are recorded in the order in which
  they are made.
\<close>

section \<open>Construction and destruction\<close>

datatype pthread_call =
    MutexattrInit | MutexattrSetprotocol | MutexInit | MutexattrDestroy | MutexDestroy

record pthread_results =
  attr_init :: int
  attr_setprotocol :: int
  mutex_init :: int
  attr_destroy :: int

definition PiMutex :: "(int \<Rightarrow> string) \<Rightarrow> pthread_results \<Rightarrow> pthread_call list \<times> (exn + unit)" where
  "PiMutex msg p =
     (if attr_init p \<noteq> 0
      then ([MutexattrInit], Inl (system_call_exception msg ''pthread_mutexattr_init'' (attr_init p)))
      else if attr_setprotocol p \<noteq> 0
      then ([MutexattrInit, MutexattrSetprotocol, MutexattrDestroy],
            Inl (system_call_exception msg ''pthread_mutexattr_setprotocol'' (attr_setprotocol p)))
      else let calls = [MutexattrInit, MutexattrSetprotocol, MutexInit, MutexattrDestroy] in
        if mutex_init p \<noteq> 0
        then (calls, Inl (system_call_exception msg ''pthread_mutex_init'' (mutex_init p)))
        else if attr_destroy p \<noteq> 0
        then (calls @ [MutexDestroy],
              Inl (system_call_exception msg ''pthread_mutexattr_destroy'' (attr_destroy p)))
        else (calls, Inr ()))"

definition PiMutex_destroy :: "pthread_call list" where
  "PiMutex_destroy = [MutexDestroy]"

text \<open>
  What a list of calls leaves behind: an object is live after an init call that succeeded, until
  it is handed to its destroy call.
\<close>

fun live :: "pthread_results \<Rightarrow> pthread_call list \<Rightarrow> bool \<times> bool \<Rightarrow> bool \<times> bool" where
  "live p [] s = s"
| "live p (MutexattrInit # cs) (a, m) = live p cs (attr_init p = 0, m)"
| "live p (MutexInit # cs) (a, m) = live p cs (a, mutex_init p = 0)"
| "live p (MutexattrDestroy # cs) (a, m) = live p cs (False, m)"
| "live p (MutexDestroy # cs) (a, m) = live p cs (a, False)"
| "live p (MutexattrSetprotocol # cs) s = live p cs s"

section \<open>Locking\<close>

definition EBUSY :: int where "EBUSY = 16"

record pi_mutex =
  owner :: "thread_id option"

text \<open>
  The result functions stand for \<^verbatim>\<open>pthread_mutex_lock\<close>, \<^verbatim>\<open>pthread_mutex_trylock\<close> and
  \<^verbatim>\<open>pthread_mutex_unlock\<close>; a result of 0 transfers the ownership. A blocking lock is called at the
  point where the library lets it return.
\<close>

record pthread_locking =
  p_lock :: "thread_id option \<Rightarrow> thread_id \<Rightarrow> int"
  p_trylock :: "thread_id option \<Rightarrow> thread_id \<Rightarrow> int"
  p_unlock :: "thread_id option \<Rightarrow> thread_id \<Rightarrow> int"

definition lock :: "(int \<Rightarrow> string) \<Rightarrow> pthread_locking \<Rightarrow> thread_id \<Rightarrow> pi_mutex \<Rightarrow> (exn + unit) \<times> pi_mutex" where
  "lock msg p t m =
     (let result = p_lock p (owner m) t in
        if result \<noteq> 0 then (Inl (system_call_exception msg ''pthread_mutex_lock'' result), m)
        else (Inr (), m\<lparr>owner := Some t\<rparr>))"

definition try_lock :: "(int \<Rightarrow> string) \<Rightarrow> pthread_locking \<Rightarrow> thread_id \<Rightarrow> pi_mutex \<Rightarrow> (exn + bool) \<times> pi_mutex" where
  "try_lock msg p t m =
     (let result = p_trylock p (owner m) t in
        if result = 0 then (Inr True, m\<lparr>owner := Some t\<rparr>)
        else if result = EBUSY then (Inr False, m)
        else (Inl (system_call_exception msg ''pthread_mutex_trylock'' result), m))"

definition unlock :: "pthread_locking \<Rightarrow> thread_id \<Rightarrow> pi_mutex \<Rightarrow> pi_mutex" where
  "unlock p t m = (if p_unlock p (owner m) t = 0 then m\<lparr>owner := None\<rparr> else m)"

datatype lock_op = Lock | TryLock | Unlock

text \<open>
  A run of locking calls by several threads. Each thread keeps its own belief whether it holds the
  mutex: from the success of its own lock or try_lock to its next unlock. Unlocking a mutex that the
  caller does not hold is undefined for a mutex of the default type, so such a call has no result.
\<close>

definition exec_lock_op :: "(int \<Rightarrow> string) \<Rightarrow> pthread_locking \<Rightarrow> thread_id \<times> lock_op
    \<Rightarrow> pi_mutex \<times> thread_id set \<Rightarrow> (pi_mutex \<times> thread_id set) option" where
  "exec_lock_op msg p = (\<lambda>(t, x) (m, holders).
     case x of
       Lock \<Rightarrow> (case lock msg p t m of (Inl _, m') \<Rightarrow> Some (m', holders)
                                     | (Inr _, m') \<Rightarrow> Some (m', insert t holders))
     | TryLock \<Rightarrow> (case try_lock msg p t m of (Inr True, m') \<Rightarrow> Some (m', insert t holders)
                                     | (_, m') \<Rightarrow> Some (m', holders))
     | Unlock \<Rightarrow> if t \<in> holders then Some (unlock p t m, holders - {t}) else None)"

fun run_locking :: "(int \<Rightarrow> string) \<Rightarrow> pthread_locking \<Rightarrow> (thread_id \<times> lock_op) list
    \<Rightarrow> pi_mutex \<times> thread_id set \<Rightarrow> (pi_mutex \<times> thread_id set) option" where
  "run_locking msg p [] s = Some s"
| "run_locking msg p (x # xs) s =
     (case exec_lock_op msg p x s of None \<Rightarrow> None | Some s' \<Rightarrow> run_locking msg p xs s')"

text \<open>
  What POSIX documents of the three calls: a lock succeeds only on a free mutex, and an unlock by the
  owner succeeds.
\<close>

definition posix_locking :: "pthread_locking \<Rightarrow> bool" where
  "posix_locking p \<longleftrightarrow>
     (\<forall>own t. p_lock p own t = 0 \<longrightarrow> own = None) \<and>
     (\<forall>own t. p_trylock p own t = 0 \<longrightarrow> own = None) \<and>
     (\<forall>t. p_unlock p (Some t) t = 0)"

section \<open>Properties\<close>

text \<open>The mutex constructor leaks nothing. For all results of the pthread calls it makes,
  the attribute object is gone when it ends, the mutex is live exactly when it returns normally,
  and an exception names the first call that failed with its error number.\<close>

lemma pi_mutex_constructor_cleans_up:
  "let (calls, r) = PiMutex msg p in
     live p calls (False, False) = (False, r = Inr ())
   \<and> (case r of
        Inr _ \<Rightarrow> attr_init p = 0 \<and> attr_setprotocol p = 0 \<and> mutex_init p = 0 \<and> attr_destroy p = 0
      | Inl e \<Rightarrow> (sys_call e, sys_errno e) =
          (if attr_init p \<noteq> 0 then (''pthread_mutexattr_init'', attr_init p)
           else if attr_setprotocol p \<noteq> 0 then (''pthread_mutexattr_setprotocol'', attr_setprotocol p)
           else if mutex_init p \<noteq> 0 then (''pthread_mutex_init'', mutex_init p)
           else (''pthread_mutexattr_destroy'', attr_destroy p))
          \<and> sys_errno e \<noteq> 0)"
  by (simp add: PiMutex_def Let_def)

lemma exec_lock_op_inv:
  assumes "posix_locking p" and "hs = set_option (owner m)" and "exec_lock_op msg p x (m, hs) = Some (m', hs')"
  shows "hs' = set_option (owner m')"
proof -
  obtain t c where x: "x = (t, c)" by fastforce
  show ?thesis
    using assms x
    by (cases c; cases "owner m")
      (auto simp: exec_lock_op_def lock_def try_lock_def unlock_def posix_locking_def Let_def split: if_splits)
qed

text \<open>
  In every run of locking calls that is defined, whichever of the calls fail, the threads that
  believe they hold the mutex are exactly its owner, if it has one.
\<close>

lemma pi_mutex_excludes:
  assumes "posix_locking p" and "run_locking msg p ops (m, hs) = Some (m', hs')" and "hs = set_option (owner m)"
  shows "hs' = set_option (owner m')"
  using assms(2,3)
proof (induction ops arbitrary: m hs)
  case (Cons x xs)
  then obtain m1 hs1 where "exec_lock_op msg p x (m, hs) = Some (m1, hs1)" "run_locking msg p xs (m1, hs1) = Some (m', hs')"
    by (auto split: option.splits)
  with Cons.IH exec_lock_op_inv [OF assms(1) Cons.prems(2)] show ?case by blast
qed simp

end
