(* ===== verification/Radar_Application.thy ===== *)
theory Radar_Application
  imports Radar_Producer Thread_Pool Radar_Logger Watchdog_Monitor Signal_Handler Pi_Mutex
begin

text \<open>
  \<^verbatim>\<open>src/application.cpp\<close> and \<^verbatim>\<open>app/main.cpp\<close>: construction, startup, the main thread's wait, the
  ordered shutdown and the summary, and the whole program as the interleaving of the main thread
  with the producer, the workers, the logger and the watchdog. A step of the program is one step of
  one thread; the order is arbitrary. Beside the program's own state the application keeps the
  histories the theorems speak about: the calls on the two queues in the order they took the
  locks, the results that were counted as processed, and whether a thread was ended by an
  exception.
\<close>

section \<open>State\<close>

record ('e, 'f) params =
  p_cfg :: config
  p_sys :: os
  p_arith :: "'f arith"
  p_draw :: "'e \<Rightarrow> 'f \<times> 'e"
  p_show :: "'f \<Rightarrow> string"
  p_msg :: "int \<Rightarrow> string"

datatype mpc =
    MLock
  | MStart nat
  | MWait
  | MShutdown bool
  | MRequest bool
  | MCloseIn bool
  | MJoinProducer bool
  | MJoinPool bool nat
  | MCloseOut bool
  | MJoinLogger bool
  | MJoinWatchdog bool
  | MSummary
  | MExit bool

text \<open>A thread that has not been started is \<open>None\<close>.\<close>

record 'f app =
  sh :: "'f shared"
  producer_pc :: "'f ppc option"
  worker_pcs :: "'f kpc option list"
  logger_pc :: "'f lpc option"
  watchdog_pc :: "'f wpc option"
  main_pc :: mpc
  stopped :: bool
  summary :: "string list"
  h_in :: "('f radar_signal qop \<times> 'f radar_signal qres) list"
  h_out :: "('f log_record qop \<times> 'f log_record qres) list"
  h_results :: "'f processed_signal list"
  h_threw :: bool

section \<open>Construction\<close>

text \<open>\<open>opened\<close> is whether the log file could be opened.\<close>

definition buildSinks :: "bool \<Rightarrow> config \<Rightarrow> exn + sink list" where
  "buildSinks opened cfg =
     (let sinks = (if console (logging cfg) then [new_sink] else []) in
      if filePath (logging cfg) \<noteq> []
      then (case FileSink opened (filePath (logging cfg)) of
              Inl e \<Rightarrow> Inl e | Inr k \<Rightarrow> Inr (sinks @ [k]))
      else Inr sinks)"

fun queue_exn :: "queue_error \<Rightarrow> exn" where
  "queue_exn (InvalidArgument m) = StdException m"

text \<open>
  A queue is constructed with its mutex first, which may throw; the capacity is checked last, and a
  refusal destroys the mutex again. The first part of the result is the \<^verbatim>\<open>pthread\<close> calls that were made.
\<close>

definition construct_queue :: "(int \<Rightarrow> string) \<Rightarrow> pthread_results \<Rightarrow> nat \<Rightarrow> OverflowPolicy
    \<Rightarrow> pthread_call list \<times> (exn + 'a tsq)" where
  "construct_queue msg p capacity policy =
     (case PiMutex msg p of
        (calls, Inl e) \<Rightarrow> (calls, Inl e)
      | (calls, Inr _) \<Rightarrow>
          (case ThreadSafeQueue capacity policy of
             Inl e \<Rightarrow> (calls @ PiMutex_destroy, Inl (queue_exn e))
           | Inr q \<Rightarrow> (calls, Inr q)))"

text \<open>
  What the system answers during the construction: the results of the \<^verbatim>\<open>pthread\<close> calls for the two
  mutexes, the value of \<^verbatim>\<open>std::random_device\<close> or the text of the exception it throws, whether the
  log file could be opened, and the results of \<^verbatim>\<open>pthread_sigmask\<close> and \<^verbatim>\<open>signalfd\<close>.
\<close>

record construction =
  c_inputMutex :: pthread_results
  c_outputMutex :: pthread_results
  c_device :: "string + 32 word"
  c_opened :: bool
  c_sigmask :: int
  c_fd :: int
  c_err :: int

definition Application :: "('e, 'f) params \<Rightarrow> construction \<Rightarrow> exn + 'f app" where
  "Application E C =
     (case snd (construct_queue (p_msg E) (c_inputMutex C) (inputCapacity (queues (p_cfg E))) Block) of
        Inl e \<Rightarrow> Inl e
      | Inr iq \<Rightarrow>
     (case snd (construct_queue (p_msg E) (c_outputMutex C) (outputCapacity (queues (p_cfg E))) DropOldest) of
        Inl e \<Rightarrow> Inl e
      | Inr oq \<Rightarrow>
     (case c_device C of
        Inl t \<Rightarrow> Inl (StdException t)
      | Inr _ \<Rightarrow>
     (let (_, reg1) = registerHeartbeat ''producer'' [];
          (_, reg2) = ThreadPool (p_cfg E) reg1;
          (_, reg3) = registerHeartbeat ''logger'' reg2 in
      case buildSinks (c_opened C) (p_cfg E) of
        Inl e \<Rightarrow> Inl e
      | Inr ks \<Rightarrow>
     (case SignalHandler (p_msg E) (c_sigmask C) (c_fd C) (c_err C) {} of
        (Inl e, _) \<Rightarrow> Inl e
      | (Inr _, _) \<Rightarrow>
        Inr \<lparr>sh = \<lparr>inputQueue = iq, outputQueue = oq, shutdownToken = new_token,
                    sh_metrics = new_metrics, heartbeatRegistry = reg3, sinks = ks, cerr = []\<rparr>,
             producer_pc = None, worker_pcs = replicate (workerCount (pool (p_cfg E))) None,
             logger_pc = None, watchdog_pc = None, main_pc = MLock, stopped = False, summary = [],
             h_in = [], h_out = [], h_results = [], h_threw = False\<rparr>)))))"

text \<open>A system on which every call succeeds.\<close>

definition no_failure :: pthread_results where
  "no_failure = \<lparr>attr_init = 0, attr_setprotocol = 0, mutex_init = 0, attr_destroy = 0\<rparr>"

definition willing :: construction where
  "willing = \<lparr>c_inputMutex = no_failure, c_outputMutex = no_failure, c_device = Inr 0, c_opened = True,
     c_sigmask = 0, c_fd = 0, c_err = 0\<rparr>"

lemma construct_queue_no_failure [simp]:
  "snd (construct_queue msg no_failure capacity policy) = map_sum queue_exn id (ThreadSafeQueue capacity policy)"
  by (simp add: construct_queue_def PiMutex_def no_failure_def split: sum.splits)

lemma construct_queue_Inr:
  "snd (construct_queue msg p capacity policy) = Inr q \<Longrightarrow> ThreadSafeQueue capacity policy = Inr q"
  by (auto simp: construct_queue_def split: prod.splits sum.splits)

section \<open>Texts of the main thread\<close>

definition lock_warning :: "realtime_result \<Rightarrow> string" where
  "lock_warning r =
     ''[radar] realtime: '' @ the (rt_failedCall r) @ '' failed (errno ''
       @ string_of_int (rt_errorNumber r) @ ''); continuing without locked memory'' @ [CHR 0x0A]"

definition wait_warning :: "exn \<Rightarrow> string" where
  "wait_warning e = ''[radar] signal wait failed: '' @ what e @ ''; shutting down'' @ [CHR 0x0A]"

definition string_of_u64 :: "u64 \<Rightarrow> string" where
  "string_of_u64 w = string_of_nat (unat w)"

definition reportSummary :: "metrics \<Rightarrow> string list" where
  "reportSummary m =
     [''[radar] shutdown summary:'',
      ''  signals produced  : '' @ string_of_u64 (signalsProduced m),
      ''  signals processed : '' @ string_of_u64 (signalsProcessed m),
      ''  input drops       : '' @ string_of_u64 (inputDrops m),
      ''  log-record drops  : '' @ string_of_u64 (logDrops m),
      ''  deadline misses   : '' @ string_of_u64 (deadlineMisses m),
      ''  watchdog stalls   : '' @ string_of_u64 (watchdogStalls m),
      ''  thread exceptions : '' @ string_of_u64 (threadExceptions m)]"

definition report_lock :: "realtime_result \<Rightarrow> 'f shared \<Rightarrow> 'f shared" where
  [step_defs]: "report_lock r s = (if ok r then s else s\<lparr>cerr := cerr s @ [lock_warning r]\<rparr>)"

section \<open>The main thread\<close>

text \<open>
  The flag of the shutdown phases is whether \<^verbatim>\<open>run\<close> rethrows at the end. Starting a thread may fail,
  which takes the rollback path. Joining a thread that was never started is a no-op; joining one
  that runs waits for it.
\<close>

definition joinable_now :: "('p \<Rightarrow> bool) \<Rightarrow> 'p option \<Rightarrow> bool" where
  "joinable_now finished po = (case po of None \<Rightarrow> True | Some p \<Rightarrow> finished p)"

inductive main_step :: "('e, 'f) params \<Rightarrow> 'f app \<Rightarrow> 'f app \<Rightarrow> bool"
  for E :: "('e, 'f) params" where
  mn_lock: "main_pc a = MLock \<Longrightarrow> lockProcessMemory (p_cfg E) (p_sys E) = Some (r, st, hp)
     \<Longrightarrow> main_step E a (a\<lparr>main_pc := MStart 0, sh := report_lock r (sh a)\<rparr>)"
| mn_start_logger: "main_pc a = MStart 0
     \<Longrightarrow> main_step E a (a\<lparr>main_pc := MStart 1, logger_pc := Some LInit\<rparr>)"
| mn_start_watchdog: "main_pc a = MStart 1
     \<Longrightarrow> main_step E a (a\<lparr>main_pc := MStart 2, watchdog_pc := Some WdInit\<rparr>)"
| mn_start_worker: "main_pc a = MStart (i + 2) \<Longrightarrow> i < length (worker_pcs a)
     \<Longrightarrow> main_step E a (a\<lparr>main_pc := MStart (i + 3), worker_pcs := (worker_pcs a)[i := Some KInit]\<rparr>)"
| mn_start_producer: "main_pc a = MStart (i + 2) \<Longrightarrow> i = length (worker_pcs a)
     \<Longrightarrow> main_step E a (a\<lparr>main_pc := MWait, producer_pc := Some PInit\<rparr>)"
| mn_start_fails: "main_pc a = MStart k \<Longrightarrow> main_step E a (a\<lparr>main_pc := MShutdown True\<rparr>)"
| mn_waiting: "main_pc a = MWait \<Longrightarrow> \<not> token_set_elsewhere i
     \<Longrightarrow> waitForShutdown (p_msg E) [i] (shutdownToken (sh a)) = (None, t)
     \<Longrightarrow> main_step E a (a\<lparr>sh := (sh a)\<lparr>shutdownToken := t\<rparr>\<rparr>)"
| mn_woken: "main_pc a = MWait \<Longrightarrow> \<not> token_set_elsewhere i
     \<Longrightarrow> waitForShutdown (p_msg E) [i] (shutdownToken (sh a)) = (Some (Inr ()), t)
     \<Longrightarrow> main_step E a (a\<lparr>main_pc := MShutdown False, sh := (sh a)\<lparr>shutdownToken := t\<rparr>\<rparr>)"
| mn_wait_error: "main_pc a = MWait \<Longrightarrow> \<not> token_set_elsewhere i
     \<Longrightarrow> waitForShutdown (p_msg E) [i] (shutdownToken (sh a)) = (Some (Inl e), t)
     \<Longrightarrow> is_radar_exception e
     \<Longrightarrow> main_step E a (a\<lparr>main_pc := MShutdown False,
           sh := request_shutdown ((sh a)\<lparr>cerr := cerr (sh a) @ [wait_warning e]\<rparr>)\<rparr>)"
| mn_wait_throws: "main_pc a = MWait \<Longrightarrow> main_step E a (a\<lparr>main_pc := MShutdown True\<rparr>)"
| mn_stopped: "main_pc a = MShutdown b \<Longrightarrow> stopped a
     \<Longrightarrow> main_step E a (a\<lparr>main_pc := (if b then MExit True else MSummary)\<rparr>)"
| mn_shutdown: "main_pc a = MShutdown b \<Longrightarrow> \<not> stopped a
     \<Longrightarrow> main_step E a (a\<lparr>main_pc := MRequest b, stopped := True\<rparr>)"
| mn_request: "main_pc a = MRequest b
     \<Longrightarrow> main_step E a (a\<lparr>main_pc := MCloseIn b, sh := request_shutdown (sh a)\<rparr>)"
| mn_close_in: "main_pc a = MCloseIn b
     \<Longrightarrow> main_step E a (a\<lparr>main_pc := MJoinProducer b, sh := (sh a)\<lparr>inputQueue := close (inputQueue (sh a))\<rparr>,
           h_in := h_in a @ [(Close, Done)]\<rparr>)"
| mn_join_producer: "main_pc a = MJoinProducer b \<Longrightarrow> joinable_now (\<lambda>p. p = PDone) (producer_pc a)
     \<Longrightarrow> main_step E a (a\<lparr>main_pc := MJoinPool b 0\<rparr>)"
| mn_join_worker: "main_pc a = MJoinPool b i \<Longrightarrow> i < length (worker_pcs a)
     \<Longrightarrow> joinable_now (\<lambda>p. p = KDone) (worker_pcs a ! i)
     \<Longrightarrow> main_step E a (a\<lparr>main_pc := MJoinPool b (Suc i)\<rparr>)"
| mn_pool_joined: "main_pc a = MJoinPool b i \<Longrightarrow> length (worker_pcs a) \<le> i
     \<Longrightarrow> main_step E a (a\<lparr>main_pc := MCloseOut b\<rparr>)"
| mn_close_out: "main_pc a = MCloseOut b
     \<Longrightarrow> main_step E a (a\<lparr>main_pc := MJoinLogger b, sh := (sh a)\<lparr>outputQueue := close (outputQueue (sh a))\<rparr>,
           h_out := h_out a @ [(Close, Done)]\<rparr>)"
| mn_join_logger: "main_pc a = MJoinLogger b \<Longrightarrow> joinable_now (\<lambda>p. p = LDone) (logger_pc a)
     \<Longrightarrow> main_step E a (a\<lparr>main_pc := MJoinWatchdog b\<rparr>)"
| mn_join_watchdog: "main_pc a = MJoinWatchdog b \<Longrightarrow> joinable_now (\<lambda>p. p = WdDone) (watchdog_pc a)
     \<Longrightarrow> main_step E a (a\<lparr>main_pc := (if b then MExit True else MSummary)\<rparr>)"
| mn_summary: "main_pc a = MSummary
     \<Longrightarrow> main_step E a (a\<lparr>main_pc := MExit False, summary := reportSummary (sh_metrics (sh a))\<rparr>)"

section \<open>The whole program\<close>

fun record_event :: "'f event \<Rightarrow> 'f app \<Rightarrow> 'f app" where
  "record_event Tau a = a"
| "record_event (InQ x r) a = a\<lparr>h_in := h_in a @ [(x, r)]\<rparr>"
| "record_event (OutQ x r) a = a\<lparr>h_out := h_out a @ [(x, r)]\<rparr>"
| "record_event (Counted res) a = a\<lparr>h_results := h_results a @ [res]\<rparr>"
| "record_event Threw a = a\<lparr>h_threw := True\<rparr>"

definition worker_hb :: "nat \<Rightarrow> nat" where "worker_hb i = Suc i"

definition logger_hb :: "('e, 'f) params \<Rightarrow> nat" where
  "logger_hb E = Suc (workerCount (pool (p_cfg E)))"

inductive app_step :: "('e, 'f) params \<Rightarrow> 'f app \<Rightarrow> 'f app \<Rightarrow> bool" for E :: "('e, 'f) params" where
  st_producer: "producer_pc a = Some p
     \<Longrightarrow> producer_step (p_cfg E) (p_sys E) (p_draw E) 0 ev (p, sh a) (p', s')
     \<Longrightarrow> app_step E a (record_event ev (a\<lparr>producer_pc := Some p', sh := s'\<rparr>))"
| st_worker: "i < length (worker_pcs a) \<Longrightarrow> worker_pcs a ! i = Some k
     \<Longrightarrow> worker_step (p_cfg E) (p_sys E) (p_arith E) (worker_hb i) ev (k, sh a) (k', s')
     \<Longrightarrow> app_step E a (record_event ev (a\<lparr>worker_pcs := (worker_pcs a)[i := Some k'], sh := s'\<rparr>))"
| st_logger: "logger_pc a = Some l
     \<Longrightarrow> logger_step (p_cfg E) (p_sys E) (p_show E) (logger_hb E) ev (l, sh a) (l', s')
     \<Longrightarrow> app_step E a (record_event ev (a\<lparr>logger_pc := Some l', sh := s'\<rparr>))"
| st_watchdog: "watchdog_pc a = Some w
     \<Longrightarrow> watchdog_step (p_cfg E) (p_sys E) ev (w, sh a) (w', s')
     \<Longrightarrow> app_step E a (record_event ev (a\<lparr>watchdog_pc := Some w', sh := s'\<rparr>))"
| st_main: "main_step E a a' \<Longrightarrow> app_step E a a'"

definition app_init :: "('e, 'f) params \<Rightarrow> 'f app \<Rightarrow> bool" where
  "app_init E a \<longleftrightarrow> (\<exists>C. Application E C = Inr a)"

text \<open>\<^verbatim>\<open>main\<close>: the exit status, given how construction and \<^verbatim>\<open>run\<close> ended.\<close>

definition EXIT_SUCCESS :: int where "EXIT_SUCCESS = 0"
definition EXIT_FAILURE :: int where "EXIT_FAILURE = 1"

definition main_status :: "exn + int \<Rightarrow> string list \<Rightarrow> (int \<times> string list) option" where
  "main_status r err =
     (case r of
        Inr status \<Rightarrow> Some (status, err)
      | Inl e \<Rightarrow> if is_std_exception e
                  then Some (EXIT_FAILURE, err @ [''[radar] fatal: '' @ what e @ [CHR 0x0A]])
                  else None)"

section \<open>Helpers\<close>

lemma record_event_simps [simp]:
  "sh (record_event ev a) = sh a" "producer_pc (record_event ev a) = producer_pc a"
  "worker_pcs (record_event ev a) = worker_pcs a" "logger_pc (record_event ev a) = logger_pc a"
  "watchdog_pc (record_event ev a) = watchdog_pc a" "main_pc (record_event ev a) = main_pc a"
  "stopped (record_event ev a) = stopped a" "summary (record_event ev a) = summary a"
  by (cases ev; simp)+

lemma record_event_histories:
  "h_in (record_event ev a) = h_in a @ (case ev of InQ x r \<Rightarrow> [(x, r)] | _ \<Rightarrow> [])"
  "h_out (record_event ev a) = h_out a @ (case ev of OutQ x r \<Rightarrow> [(x, r)] | _ \<Rightarrow> [])"
  "h_results (record_event ev a) = h_results a @ (case ev of Counted r \<Rightarrow> [r] | _ \<Rightarrow> [])"
  "h_threw (record_event ev a) \<longleftrightarrow> h_threw a \<or> ev = Threw"
  by (cases ev; simp)+

end
