(* ===== verification/Application_Phases.thy ===== *)
theory Application_Phases
  imports Radar_Application
begin

text \<open>
  What the phases of the main thread guarantee: which threads exist, which have ended, which
  queues are closed. These invariants carry the theorems on the ordered drain and on the
  termination of the shutdown.
\<close>

section \<open>Thread steps from the main thread's point of view\<close>

definition moved :: "('p \<Rightarrow> bool) \<Rightarrow> 'p option \<Rightarrow> 'p option \<Rightarrow> bool" where
  "moved finished x y \<longleftrightarrow> y = x \<or> (\<exists>p q. x = Some p \<and> \<not> finished p \<and> y = Some q)"

definition thread_update :: "'f app \<Rightarrow> 'f app \<Rightarrow> bool" where
  "thread_update a a' \<longleftrightarrow>
     main_pc a' = main_pc a \<and> stopped a' = stopped a
   \<and> q_closed (inputQueue (sh a')) = q_closed (inputQueue (sh a))
   \<and> q_closed (outputQueue (sh a')) = q_closed (outputQueue (sh a))
   \<and> (tok_requested (shutdownToken (sh a)) \<longrightarrow> tok_requested (shutdownToken (sh a')))
   \<and> length (heartbeatRegistry (sh a')) = length (heartbeatRegistry (sh a))
   \<and> length (sinks (sh a')) = length (sinks (sh a))
   \<and> length (worker_pcs a') = length (worker_pcs a)
   \<and> moved (\<lambda>p. p = PDone) (producer_pc a) (producer_pc a')
   \<and> (\<forall>i < length (worker_pcs a). moved (\<lambda>p. p = KDone) (worker_pcs a ! i) (worker_pcs a' ! i))
   \<and> moved (\<lambda>p. p = LDone) (logger_pc a) (logger_pc a')
   \<and> moved (\<lambda>p. p = WdDone) (watchdog_pc a) (watchdog_pc a')"

lemma moved_refl [simp]: "moved f x x"
  by (simp add: moved_def)

lemma moved_step: "\<not> f p \<Longrightarrow> moved f (Some p) (Some q)"
  by (simp add: moved_def)

lemma app_step_cases:
  assumes "app_step E a a'"
  obtains "main_step E a a'" | "thread_update a a'"
  using assms
proof (cases rule: app_step.cases)
  case (st_producer p ev p' s')
  note t = producer_thread.step_token [OF st_producer(3)] producer_thread.step_sizes [OF st_producer(3)]
    producer_thread.step_closed [OF st_producer(3)]
  have "p \<noteq> PDone" using producer_thread.finished_final st_producer(3) by blast
  with st_producer t show thesis
    by (intro that(2)) (auto simp: thread_update_def intro: moved_step)
next
  case (st_worker i k ev k' s')
  note t = worker_thread.step_token [OF st_worker(4)] worker_thread.step_sizes [OF st_worker(4)]
    worker_thread.step_closed [OF st_worker(4)]
  have "k \<noteq> KDone" using worker_thread.finished_final st_worker(4) by blast
  with st_worker t show thesis
    by (intro that(2)) (auto simp: thread_update_def nth_list_update intro: moved_step)
next
  case (st_logger l ev l' s')
  note t = logger_thread.step_token [OF st_logger(3)] logger_thread.step_sizes [OF st_logger(3)]
    logger_thread.step_closed [OF st_logger(3)]
  have "l \<noteq> LDone" using logger_thread.finished_final st_logger(3) by blast
  with st_logger t show thesis
    by (intro that(2)) (auto simp: thread_update_def intro: moved_step)
next
  case (st_watchdog w ev w' s')
  note t = watchdog_thread.step_token [OF st_watchdog(3)] watchdog_thread.step_sizes [OF st_watchdog(3)]
    watchdog_thread.step_closed [OF st_watchdog(3)]
  have "w \<noteq> WdDone" using watchdog_thread.finished_final st_watchdog(3) by blast
  with st_watchdog t show thesis
    by (intro that(2)) (auto simp: thread_update_def intro: moved_step)
next
  case st_main
  then show thesis by (rule that(1))
qed

section \<open>Phases\<close>

fun phase :: "mpc \<Rightarrow> nat" where
  "phase MLock = 0"
| "phase (MStart k) = 1"
| "phase MWait = 2"
| "phase (MShutdown b) = 3"
| "phase (MRequest b) = 4"
| "phase (MCloseIn b) = 5"
| "phase (MJoinProducer b) = 6"
| "phase (MJoinPool b i) = 7"
| "phase (MCloseOut b) = 8"
| "phase (MJoinLogger b) = 9"
| "phase (MJoinWatchdog b) = 10"
| "phase MSummary = 11"
| "phase (MExit b) = 12"

text \<open>The shutdown of a run that will end normally.\<close>

fun normal :: "mpc \<Rightarrow> bool" where
  "normal (MLock) = False"
| "normal (MStart k) = False"
| "normal (MShutdown b) = (\<not> b)"
| "normal (MRequest b) = (\<not> b)"
| "normal (MCloseIn b) = (\<not> b)"
| "normal (MJoinProducer b) = (\<not> b)"
| "normal (MJoinPool b i) = (\<not> b)"
| "normal (MCloseOut b) = (\<not> b)"
| "normal (MJoinLogger b) = (\<not> b)"
| "normal (MJoinWatchdog b) = (\<not> b)"
| "normal (MExit b) = (\<not> b)"
| "normal _ = True"

definition started_inv :: "'f app \<Rightarrow> bool" where
  "started_inv a \<longleftrightarrow>
     (main_pc a = MLock \<longrightarrow> producer_pc a = None \<and> logger_pc a = None \<and> watchdog_pc a = None
        \<and> (\<forall>j < length (worker_pcs a). worker_pcs a ! j = None))
   \<and> (\<forall>k. main_pc a = MStart k \<longrightarrow> producer_pc a = None \<and> (logger_pc a \<noteq> None \<longleftrightarrow> 0 < k)
        \<and> (watchdog_pc a \<noteq> None \<longleftrightarrow> 1 < k) \<and> k \<le> length (worker_pcs a) + 2
        \<and> (\<forall>j < length (worker_pcs a). worker_pcs a ! j \<noteq> None \<longleftrightarrow> j + 2 < k))
   \<and> (producer_pc a \<noteq> None \<longrightarrow> (\<forall>j < length (worker_pcs a). worker_pcs a ! j \<noteq> None))
   \<and> (\<forall>j < length (worker_pcs a). worker_pcs a ! j \<noteq> None \<longrightarrow> logger_pc a \<noteq> None)
   \<and> (normal (main_pc a) \<longrightarrow> producer_pc a \<noteq> None \<and> logger_pc a \<noteq> None \<and> watchdog_pc a \<noteq> None)"

definition ended_inv :: "'f app \<Rightarrow> bool" where
  "ended_inv a \<longleftrightarrow>
     (7 \<le> phase (main_pc a) \<longrightarrow> joinable_now (\<lambda>p. p = PDone) (producer_pc a))
   \<and> (\<forall>b i. main_pc a = MJoinPool b i \<longrightarrow>
        (\<forall>j < min i (length (worker_pcs a)). joinable_now (\<lambda>p. p = KDone) (worker_pcs a ! j)))
   \<and> (8 \<le> phase (main_pc a) \<longrightarrow> (\<forall>j < length (worker_pcs a). joinable_now (\<lambda>p. p = KDone) (worker_pcs a ! j)))
   \<and> (10 \<le> phase (main_pc a) \<longrightarrow> joinable_now (\<lambda>p. p = LDone) (logger_pc a))
   \<and> (11 \<le> phase (main_pc a) \<longrightarrow> joinable_now (\<lambda>p. p = WdDone) (watchdog_pc a))"

definition closed_inv :: "('e, 'f) params \<Rightarrow> 'f app \<Rightarrow> bool" where
  "closed_inv E a \<longleftrightarrow>
     (q_closed (inputQueue (sh a)) \<longleftrightarrow> 6 \<le> phase (main_pc a))
   \<and> (q_closed (outputQueue (sh a)) \<longleftrightarrow> 9 \<le> phase (main_pc a))
   \<and> (5 \<le> phase (main_pc a) \<longrightarrow> tok_requested (shutdownToken (sh a)))
   \<and> (stopped a \<longleftrightarrow> 4 \<le> phase (main_pc a))
   \<and> length (worker_pcs a) = workerCount (pool (p_cfg E))
   \<and> length (heartbeatRegistry (sh a)) = workerCount (pool (p_cfg E)) + 2"

definition phase_inv :: "('e, 'f) params \<Rightarrow> 'f app \<Rightarrow> bool" where
  "phase_inv E a \<longleftrightarrow> started_inv a \<and> ended_inv a \<and> closed_inv E a"

lemma moved_None: "moved f x y \<Longrightarrow> y = None \<longleftrightarrow> x = None"
  by (auto simp: moved_def)

lemma moved_ended: "moved f x y \<Longrightarrow> joinable_now f x \<Longrightarrow> joinable_now f y"
  by (auto simp: moved_def joinable_now_def)

lemma started_inv_thread:
  assumes "thread_update a a'" and "started_inv a"
  shows "started_inv a'"
proof -
  have n: "producer_pc a' = None \<longleftrightarrow> producer_pc a = None" "logger_pc a' = None \<longleftrightarrow> logger_pc a = None"
    "watchdog_pc a' = None \<longleftrightarrow> watchdog_pc a = None" "main_pc a' = main_pc a"
    "length (worker_pcs a') = length (worker_pcs a)"
    using assms(1) by (auto simp: thread_update_def dest: moved_None)
  have w: "worker_pcs a' ! j = None \<longleftrightarrow> worker_pcs a ! j = None" if "j < length (worker_pcs a)" for j
    using assms(1) that by (auto simp: thread_update_def dest: moved_None)
  from assms(2) show ?thesis by (simp add: started_inv_def n w del: not_None_eq)
qed

lemma ended_inv_thread:
  assumes "thread_update a a'" and "ended_inv a"
  shows "ended_inv a'"
proof -
  have m: "main_pc a' = main_pc a" "length (worker_pcs a') = length (worker_pcs a)"
    using assms(1) by (simp_all add: thread_update_def)
  have p: "joinable_now (\<lambda>p. p = PDone) (producer_pc a) \<Longrightarrow> joinable_now (\<lambda>p. p = PDone) (producer_pc a')"
    and l: "joinable_now (\<lambda>p. p = LDone) (logger_pc a) \<Longrightarrow> joinable_now (\<lambda>p. p = LDone) (logger_pc a')"
    and d: "joinable_now (\<lambda>p. p = WdDone) (watchdog_pc a) \<Longrightarrow> joinable_now (\<lambda>p. p = WdDone) (watchdog_pc a')"
    using assms(1) by (auto simp: thread_update_def intro: moved_ended)
  have w: "joinable_now (\<lambda>p. p = KDone) (worker_pcs a' ! j)"
    if "joinable_now (\<lambda>p. p = KDone) (worker_pcs a ! j)" "j < length (worker_pcs a)" for j
    using assms(1) that by (auto simp: thread_update_def intro: moved_ended)
  from assms(2) show ?thesis
    unfolding ended_inv_def m by (intro conjI allI impI) (use p l d w in auto)
qed

lemma phase_inv_thread:
  assumes "thread_update a a'" and "phase_inv E a"
  shows "phase_inv E a'"
proof -
  have "closed_inv E a'"
    using assms by (auto simp: phase_inv_def closed_inv_def thread_update_def)
  with assms show ?thesis
    unfolding phase_inv_def by (blast intro: started_inv_thread ended_inv_thread)
qed

lemma wait_token: "waitForShutdown msg [i] t = (r, t') \<Longrightarrow> tok_requested t \<Longrightarrow> tok_requested t'"
  by (auto simp: Let_def shutdownRequested_def split: if_splits sum.splits)

lemma started_inv_main: "main_step E a a' \<Longrightarrow> started_inv a \<Longrightarrow> started_inv a'"
proof (induction rule: main_step.induct)
  case (mn_start_worker a i)
  then show ?case by (auto simp: started_inv_def nth_list_update less_Suc_eq)
next
  case (mn_start_producer a i)
  then show ?case by (auto simp: started_inv_def)
qed (auto simp: started_inv_def)

lemma ended_inv_main: "main_step E a a' \<Longrightarrow> ended_inv a \<Longrightarrow> closed_inv E a \<Longrightarrow> ended_inv a'"
proof (induction rule: main_step.induct)
  case (mn_join_worker a b i)
  then show ?case by (auto simp: ended_inv_def less_Suc_eq)
qed (auto simp: ended_inv_def closed_inv_def)

lemma closed_inv_main: "main_step E a a' \<Longrightarrow> closed_inv E a \<Longrightarrow> closed_inv E a'"
  by (induction rule: main_step.induct)
    (auto simp: closed_inv_def step_defs close_def dest: wait_token)

lemma phase_inv_step:
  assumes "app_step E a a'" and "phase_inv E a"
  shows "phase_inv E a'"
  using assms(1)
proof (cases rule: app_step_cases)
  case 1
  with assms(2) show ?thesis
    unfolding phase_inv_def using started_inv_main ended_inv_main closed_inv_main by blast
next
  case 2
  with assms(2) show ?thesis by (blast intro: phase_inv_thread)
qed

section \<open>The traces of the queues\<close>

definition in_start :: "('e, 'f) params \<Rightarrow> 'f radar_signal tsq" where
  "in_start E = \<lparr>q_queue = [], q_capacity = inputCapacity (queues (p_cfg E)), q_policy = Block,
     q_droppedCount = 0, q_closed = False\<rparr>"

definition out_start :: "('e, 'f) params \<Rightarrow> 'f log_record tsq" where
  "out_start E = \<lparr>q_queue = [], q_capacity = outputCapacity (queues (p_cfg E)), q_policy = DropOldest,
     q_droppedCount = 0, q_closed = False\<rparr>"

definition trace_inv :: "('e, 'f) params \<Rightarrow> 'f app \<Rightarrow> bool" where
  "trace_inv E a \<longleftrightarrow>
     wf_tsq (in_start E) \<and> wf_tsq (out_start E)
   \<and> run_ops (map fst (h_in a)) (in_start E) = Some (h_in a, inputQueue (sh a))
   \<and> run_ops (map fst (h_out a)) (out_start E) = Some (h_out a, outputQueue (sh a))"

lemma trace_inv_event:
  assumes "queue_effect ev (sh a) (sh a')" and "h_in a' = h_in (record_event ev a)"
    and "h_out a' = h_out (record_event ev a)" and "trace_inv E a"
  shows "trace_inv E a'"
  using assms by (cases ev) (auto simp: trace_inv_def intro: run_ops_snoc)

lemma trace_inv_main: "main_step E a a' \<Longrightarrow> trace_inv E a \<Longrightarrow> trace_inv E a'"
proof (induction rule: main_step.induct)
  case (mn_close_in a b)
  then show ?case
    by - (rule trace_inv_event [of "InQ Close Done" a], simp_all add: trace_inv_def)
next
  case (mn_close_out a b)
  then show ?case
    by - (rule trace_inv_event [of "OutQ Close Done" a], simp_all add: trace_inv_def)
qed (simp_all add: trace_inv_def step_defs)

lemma trace_inv_step:
  assumes "app_step E a a'" and "trace_inv E a"
  shows "trace_inv E a'"
  using assms(1)
proof (cases rule: app_step.cases)
  case (st_producer p ev p' s')
  with assms(2) producer_thread.step_queues [OF st_producer(3)] show ?thesis
    by - (rule trace_inv_event [of ev a], simp_all add: record_event_histories)
next
  case (st_worker i k ev k' s')
  with assms(2) worker_thread.step_queues [OF st_worker(4)] show ?thesis
    by - (rule trace_inv_event [of ev a], simp_all add: record_event_histories)
next
  case (st_logger l ev l' s')
  with assms(2) logger_thread.step_queues [OF st_logger(3)] show ?thesis
    by - (rule trace_inv_event [of ev a], simp_all add: record_event_histories)
next
  case (st_watchdog w ev w' s')
  with assms(2) watchdog_thread.step_queues [OF st_watchdog(3)] show ?thesis
    by - (rule trace_inv_event [of ev a], simp_all add: record_event_histories)
next
  case st_main
  with assms(2) show ?thesis by (blast intro: trace_inv_main)
qed

section \<open>The application as a system with an invariant\<close>

lemma buildSinks_new: "buildSinks opened cfg = Inr ks \<Longrightarrow> set ks \<subseteq> {new_sink}"
  by (auto simp: buildSinks_def FileSink_def Let_def split: if_splits)

lemma app_init_cases:
  fixes a :: "'a app"
  assumes "app_init E a"
  obtains ks where "set ks \<subseteq> {new_sink}"
    and "a = \<lparr>sh = \<lparr>inputQueue = in_start E, outputQueue = out_start E, shutdownToken = new_token,
          sh_metrics = new_metrics,
          heartbeatRegistry = (''producer'', new_heartbeat)
            # map (\<lambda>i. (worker_name i, new_heartbeat)) [0 ..< workerCount (pool (p_cfg E))]
            @ [(''logger'', new_heartbeat)],
          sinks = ks, cerr = []\<rparr>,
        producer_pc = None, worker_pcs = replicate (workerCount (pool (p_cfg E))) None,
        logger_pc = None, watchdog_pc = None, main_pc = MLock, stopped = False, summary = [],
        h_in = [], h_out = [], h_results = [], h_threw = False\<rparr>"
    and "wf_tsq (in_start E)" and "wf_tsq (out_start E)"
proof -
  from assms obtain C where app: "Application E C = Inr a" by (auto simp: app_init_def)
  then obtain iq :: "'a radar_signal tsq" and oq :: "'a log_record tsq" and ks
    where "ThreadSafeQueue (inputCapacity (queues (p_cfg E))) Block = Inr iq"
    "ThreadSafeQueue (outputCapacity (queues (p_cfg E))) DropOldest = Inr oq"
    "buildSinks (c_opened C) (p_cfg E) = Inr ks"
    by (auto simp: Application_def Let_def dest: construct_queue_Inr split: sum.splits prod.splits)
  moreover from this have "iq = in_start E" "oq = out_start E" "wf_tsq (in_start E)" "wf_tsq (out_start E)"
    by (auto simp: ThreadSafeQueue_def in_start_def out_start_def wf_tsq_def split: if_splits)
  ultimately show thesis
    using app buildSinks_new [of "c_opened C" "p_cfg E" ks]
    by (intro that [of ks])
      (auto simp: Application_def registerHeartbeat_def ThreadPool_eq Let_def dest!: construct_queue_Inr
        split: sum.splits prod.splits)
qed

definition base_inv :: "('e, 'f) params \<Rightarrow> 'f app \<Rightarrow> bool" where
  "base_inv E a \<longleftrightarrow> phase_inv E a \<and> trace_inv E a"

interpretation application: invariant_system "app_init E" "app_step E" "base_inv E" for E
proof unfold_locales
  show "base_inv E a" if "app_init E a" for a
    using that by (rule app_init_cases)
      (simp add: base_inv_def phase_inv_def started_inv_def ended_inv_def closed_inv_def trace_inv_def
        in_start_def out_start_def new_token_def)
  show "base_inv E a'" if "app_step E a a'" and "base_inv E a" for a a'
    using that phase_inv_step trace_inv_step unfolding base_inv_def by blast
qed

end
