(* ===== verification/Application_Run.thy ===== *)
theory Application_Run
  imports Radar_Application
begin

text \<open>
  An executable scheduler for the program: given which thread moves next and what its environment
  answers, it computes the next state. Every computed step is a step of the model, so a script
  evaluated by simplification is a run of the program; the theorems about complete runs are applied
  to the one at the end, which samples, processes and logs one signal, receives SIGINT and shuts
  down in order.
\<close>

section \<open>Scheduler\<close>

text \<open>The clock reading is an argument; every wait has elapsed and no line fails to be built.\<close>

fun producer_exec :: "config \<Rightarrow> os \<Rightarrow> ('e \<Rightarrow> 'f \<times> 'e) \<Rightarrow> nat \<Rightarrow> time_point \<Rightarrow> 'e \<Rightarrow> 'f ppc \<Rightarrow> 'f shared
    \<Rightarrow> ('f event \<times> 'f ppc \<times> 'f shared) option" where
  "producer_exec cfg sys draw hb now e PInit s =
     Some (Tau, PClock, configure_thread cfg sys True (producerPriority (realtime cfg)) ''producer'' s)"
| "producer_exec cfg sys draw hb now e PClock s = Some (Tau, PCheck now, s)"
| "producer_exec cfg sys draw hb now e (PCheck nd) s =
     Some (Tau, if shutdownRequested (shutdownToken s) then PDone else PSample nd, s)"
| "producer_exec cfg sys draw hb now e (PSample nd) s =
     Some (Tau, PPush nd (fst (generateSignal draw now e)), on_heartbeat hb (markRunning now) s)"
| "producer_exec cfg sys draw hb now e (PPush nd sig) s =
     (case push sig (inputQueue s) of
        Waits \<Rightarrow> None
      | Returns (b, q) \<Rightarrow>
          Some (InQ (Push sig) (Stored b), if b then PCount nd else PDone, s\<lparr>inputQueue := q\<rparr>))"
| "producer_exec cfg sys draw hb now e (PCount nd) s = Some (Tau, PDepth nd, on_metrics recordSignalProduced s)"
| "producer_exec cfg sys draw hb now e (PDepth nd) s = Some (Tau, PStoreDepth nd (size_tsq (inputQueue s)), s)"
| "producer_exec cfg sys draw hb now e (PStoreDepth nd d) s =
     Some (Tau, PDrops nd, on_metrics (setInputQueueDepth d) s)"
| "producer_exec cfg sys draw hb now e (PDrops nd) s = Some (Tau, PStoreDrops nd (droppedCount (inputQueue s)), s)"
| "producer_exec cfg sys draw hb now e (PStoreDrops nd n) s =
     Some (Tau, PDeadline nd, on_metrics (setInputDrops n) s)"
| "producer_exec cfg sys draw hb now e (PDeadline nd) s =
     (case next_deadline (period_of cfg) nd now of
        (None, nd') \<Rightarrow> Some (Tau, PMissed nd', s)
      | (Some r, nd') \<Rightarrow> Some (Tau, PRest nd', s))"
| "producer_exec cfg sys draw hb now e (PMissed nd) s = Some (Tau, PCheck nd, on_metrics recordDeadlineMiss s)"
| "producer_exec cfg sys draw hb now e (PRest nd) s = Some (Tau, PWait nd, on_heartbeat hb markWaiting s)"
| "producer_exec cfg sys draw hb now e (PWait nd) s =
     Some (Tau, if tok_requested (shutdownToken s) then PDone else PCheck nd, s)"
| "producer_exec cfg sys draw hb now e (PUnwind u) s =
     Some (Threw, producer_resume (fst (boundary_step True ''producer'' u s)),
       snd (boundary_step True ''producer'' u s))"
| "producer_exec cfg sys draw hb now e PDone s = None"

fun worker_exec :: "config \<Rightarrow> os \<Rightarrow> 'f arith \<Rightarrow> nat \<Rightarrow> time_point \<Rightarrow> 'f kpc \<Rightarrow> 'f shared
    \<Rightarrow> ('f event \<times> 'f kpc \<times> 'f shared) option" where
  "worker_exec cfg sys A hb now KInit s =
     Some (Tau, KWait, configure_thread cfg sys True (dspPriority (realtime cfg)) ''dsp-worker'' s)"
| "worker_exec cfg sys A hb now KWait s = Some (Tau, KPop, on_heartbeat hb markWaiting s)"
| "worker_exec cfg sys A hb now KPop s =
     (case waitAndPop (inputQueue s) of
        Waits \<Rightarrow> None
      | Returns (r, q) \<Rightarrow>
          Some (InQ WaitAndPop (Got r), case r of None \<Rightarrow> KDone | Some sig \<Rightarrow> KDepth sig, s\<lparr>inputQueue := q\<rparr>))"
| "worker_exec cfg sys A hb now (KDepth sig) s = Some (Tau, KStoreDepth sig (size_tsq (inputQueue s)), s)"
| "worker_exec cfg sys A hb now (KStoreDepth sig d) s = Some (Tau, KRun sig, on_metrics (setInputQueueDepth d) s)"
| "worker_exec cfg sys A hb now (KRun sig) s = Some (Tau, KProcess sig, on_heartbeat hb (markRunning now) s)"
| "worker_exec cfg sys A hb now (KProcess sig) s = Some (Tau, KCount (process A sig), s)"
| "worker_exec cfg sys A hb now (KCount res) s = Some (Counted res, KLatency res, on_metrics recordSignalProcessed s)"
| "worker_exec cfg sys A hb now (KLatency res) s =
     Some (Tau, KPush (toLogRecord res), on_metrics (recordProcessingLatency (now - ps_timestamp res)) s)"
| "worker_exec cfg sys A hb now (KPush r) s =
     (case push r (outputQueue s) of
        Waits \<Rightarrow> None
      | Returns (b, q) \<Rightarrow> Some (OutQ (Push r) (Stored b), KOutDepth, s\<lparr>outputQueue := q\<rparr>))"
| "worker_exec cfg sys A hb now KOutDepth s = Some (Tau, KStoreOutDepth (size_tsq (outputQueue s)), s)"
| "worker_exec cfg sys A hb now (KStoreOutDepth d) s = Some (Tau, KDrops, on_metrics (setOutputQueueDepth d) s)"
| "worker_exec cfg sys A hb now KDrops s = Some (Tau, KStoreDrops (droppedCount (outputQueue s)), s)"
| "worker_exec cfg sys A hb now (KStoreDrops n) s = Some (Tau, KWait, on_metrics (setLogDrops n) s)"
| "worker_exec cfg sys A hb now (KUnwind u) s =
     Some (Threw, worker_resume (fst (boundary_step True ''dsp-worker'' u s)),
       snd (boundary_step True ''dsp-worker'' u s))"
| "worker_exec cfg sys A hb now KDone s = None"

fun logger_exec :: "config \<Rightarrow> os \<Rightarrow> ('f \<Rightarrow> string) \<Rightarrow> nat \<Rightarrow> time_point \<Rightarrow> 'f lpc \<Rightarrow> 'f shared
    \<Rightarrow> ('f event \<times> 'f lpc \<times> 'f shared) option" where
  "logger_exec cfg sys fmt hb now LInit s =
     Some (Tau, LWait, configure_thread cfg sys True (loggerPriority (realtime cfg)) ''logger'' s)"
| "logger_exec cfg sys fmt hb now LWait s = Some (Tau, LPop, on_heartbeat hb markWaiting s)"
| "logger_exec cfg sys fmt hb now LPop s =
     (case waitAndPop (outputQueue s) of
        Waits \<Rightarrow> None
      | Returns (r, q) \<Rightarrow>
          Some (OutQ WaitAndPop (Got r), case r of None \<Rightarrow> LFlush 0 | Some x \<Rightarrow> LDepth x, s\<lparr>outputQueue := q\<rparr>))"
| "logger_exec cfg sys fmt hb now (LDepth r) s = Some (Tau, LStoreDepth r (size_tsq (outputQueue s)), s)"
| "logger_exec cfg sys fmt hb now (LStoreDepth r d) s = Some (Tau, LRun r, on_metrics (setOutputQueueDepth d) s)"
| "logger_exec cfg sys fmt hb now (LRun r) s =
     Some (Tau, LWrite (formatLine fmt r) 0, on_heartbeat hb (markRunning now) s)"
| "logger_exec cfg sys fmt hb now (LWrite line k) s =
     (if k < length (sinks s) then Some (Tau, LWrite line (Suc k), on_sink k (sink_write line) s)
      else Some (Tau, LWait, s))"
| "logger_exec cfg sys fmt hb now (LFlush k) s =
     (if k < length (sinks s) then Some (Tau, LFlush (Suc k), on_sink k sink_flush s)
      else Some (Tau, LDone, s))"
| "logger_exec cfg sys fmt hb now (LUnwind u) s =
     Some (Threw, logger_resume (fst (boundary_step True ''logger'' u s)),
       snd (boundary_step True ''logger'' u s))"
| "logger_exec cfg sys fmt hb now LDone s = None"

fun watchdog_exec :: "config \<Rightarrow> os \<Rightarrow> time_point \<Rightarrow> 'f wpc \<Rightarrow> 'f shared
    \<Rightarrow> ('f event \<times> 'f wpc \<times> 'f shared) option" where
  "watchdog_exec cfg sys now WdInit s =
     Some (Tau, WdSleep, configure_thread cfg sys True (watchdogPriority (realtime cfg)) ''watchdog'' s)"
| "watchdog_exec cfg sys now WdSleep s =
     Some (Tau, if tok_requested (shutdownToken s) then WdDone else WdState now 0 False, s)"
| "watchdog_exec cfg sys now (WdState t k b) s =
     (if k < length (heartbeatRegistry s)
      then Some (Tau, if hb_state (snd (heartbeatRegistry s ! k)) = Running then WdAge t k b
                      else WdState t (Suc k) b, s)
      else Some (Tau, WdEscalate b, s))"
| "watchdog_exec cfg sys now (WdAge t k b) s =
     (if k < length (heartbeatRegistry s)
      then (let age = t - hb_timestamp (snd (heartbeatRegistry s ! k)) in
            Some (Tau, if age \<le> timeout_of cfg then WdState t (Suc k) b
                       else WdCount (stall_record (fst (heartbeatRegistry s ! k)) age t) t k, s))
      else None)"
| "watchdog_exec cfg sys now (WdCount r t k) s = Some (Tau, WdPush r t k, on_metrics recordWatchdogStall s)"
| "watchdog_exec cfg sys now (WdPush r t k) s =
     (case push r (outputQueue s) of
        Waits \<Rightarrow> None
      | Returns (b, q) \<Rightarrow> Some (OutQ (Push r) (Stored b), WdState t (Suc k) True, s\<lparr>outputQueue := q\<rparr>))"
| "watchdog_exec cfg sys now (WdEscalate b) s =
     Some (Tau, WdSleep, if b \<and> escalateToShutdown (watchdog cfg) then request_shutdown s else s)"
| "watchdog_exec cfg sys now (WdUnwind u) s =
     Some (Threw, watchdog_resume (fst (boundary_step True ''watchdog'' u s)),
       snd (boundary_step True ''watchdog'' u s))"
| "watchdog_exec cfg sys now WdDone s = None"

section \<open>Every computed step is a step of the model\<close>

lemma waitFor_elapsed: "waitFor True t = Some (tok_requested t)"
  by (simp add: waitFor_def)

lemma producer_exec_step:
  assumes "producer_exec cfg sys draw hb now e p s = Some (ev, p', s')"
  shows "producer_step cfg sys draw hb ev (p, s) (p', s')"
proof (cases p)
  case (PSample nd)
  have "generateSignal draw now e = (fst (generateSignal draw now e), snd (generateSignal draw now e))"
    by simp
  from pr_sample [OF this] PSample assms show ?thesis by auto
next
  case (PWait nd)
  with assms show ?thesis
    by (auto intro!: pr_elapsed [where elapsed = True] pr_woken [where elapsed = True] simp: waitFor_elapsed)
qed (use assms in \<open>auto intro: producer_step.intros split: if_splits outcome.splits option.splits prod.splits\<close>)

lemma worker_exec_step:
  assumes "worker_exec cfg sys A hb now k s = Some (ev, k', s')"
  shows "worker_step cfg sys A hb ev (k, s) (k', s')"
  using assms
  by (cases k) (auto intro: worker_step.intros split: outcome.splits option.splits prod.splits)

lemma logger_exec_step:
  assumes "logger_exec cfg sys fmt hb now l s = Some (ev, l', s')"
  shows "logger_step cfg sys fmt hb ev (l, s) (l', s')"
  using assms
  by (cases l) (auto intro: logger_step.intros split: if_splits outcome.splits option.splits prod.splits)

lemma watchdog_exec_step:
  assumes "watchdog_exec cfg sys now w s = Some (ev, w', s')"
  shows "watchdog_step cfg sys ev (w, s) (w', s')"
proof (cases w)
  case WdSleep
  with assms show ?thesis
    by (auto intro!: wd_stop [where elapsed = True] wd_scan [where elapsed = True] simp: waitFor_elapsed)
next
  case (WdAge t k b)
  with assms show ?thesis
    by (auto intro: wd_fresh intro!: wd_stale simp: Let_def split: if_splits)
next
  case (WdEscalate b)
  with assms wd_escalate [of cfg sys b s] show ?thesis by auto
qed (use assms in \<open>auto intro: watchdog_step.intros split: if_splits outcome.splits prod.splits\<close>)

text \<open>The main thread; its wait gets one turn of answers.\<close>

fun main_exec :: "('e, 'f) params \<Rightarrow> poll_input \<Rightarrow> mpc \<Rightarrow> 'f app \<Rightarrow> 'f app option" where
  "main_exec E i MLock a =
     (case lockProcessMemory (p_cfg E) (p_sys E) of
        None \<Rightarrow> None
      | Some (r, st, hp) \<Rightarrow> Some (a\<lparr>main_pc := MStart 0, sh := report_lock r (sh a)\<rparr>))"
| "main_exec E i (MStart k) a =
     (if k = 0 then Some (a\<lparr>main_pc := MStart 1, logger_pc := Some LInit\<rparr>)
      else if k = 1 then Some (a\<lparr>main_pc := MStart 2, watchdog_pc := Some WdInit\<rparr>)
      else if k - 2 < length (worker_pcs a)
      then Some (a\<lparr>main_pc := MStart (Suc k), worker_pcs := (worker_pcs a)[k - 2 := Some KInit]\<rparr>)
      else if k - 2 = length (worker_pcs a) then Some (a\<lparr>main_pc := MWait, producer_pc := Some PInit\<rparr>)
      else None)"
| "main_exec E i MWait a =
     (if token_set_elsewhere i then None
      else case waitForShutdown (p_msg E) [i] (shutdownToken (sh a)) of
        (Some (Inr _), t) \<Rightarrow> Some (a\<lparr>main_pc := MShutdown False, sh := (sh a)\<lparr>shutdownToken := t\<rparr>\<rparr>)
      | (None, t) \<Rightarrow> Some (a\<lparr>sh := (sh a)\<lparr>shutdownToken := t\<rparr>\<rparr>)
      | _ \<Rightarrow> None)"
| "main_exec E i (MShutdown b) a =
     (if stopped a then None else Some (a\<lparr>main_pc := MRequest b, stopped := True\<rparr>))"
| "main_exec E i (MRequest b) a = Some (a\<lparr>main_pc := MCloseIn b, sh := request_shutdown (sh a)\<rparr>)"
| "main_exec E i (MCloseIn b) a =
     Some (a\<lparr>main_pc := MJoinProducer b, sh := (sh a)\<lparr>inputQueue := close (inputQueue (sh a))\<rparr>,
             h_in := h_in a @ [(Close, Done)]\<rparr>)"
| "main_exec E i (MJoinProducer b) a =
     (if joinable_now (\<lambda>p. p = PDone) (producer_pc a) then Some (a\<lparr>main_pc := MJoinPool b 0\<rparr>) else None)"
| "main_exec E i (MJoinPool b n) a =
     (if n < length (worker_pcs a)
      then (if joinable_now (\<lambda>p. p = KDone) (worker_pcs a ! n) then Some (a\<lparr>main_pc := MJoinPool b (Suc n)\<rparr>)
            else None)
      else Some (a\<lparr>main_pc := MCloseOut b\<rparr>))"
| "main_exec E i (MCloseOut b) a =
     Some (a\<lparr>main_pc := MJoinLogger b, sh := (sh a)\<lparr>outputQueue := close (outputQueue (sh a))\<rparr>,
             h_out := h_out a @ [(Close, Done)]\<rparr>)"
| "main_exec E i (MJoinLogger b) a =
     (if joinable_now (\<lambda>p. p = LDone) (logger_pc a) then Some (a\<lparr>main_pc := MJoinWatchdog b\<rparr>) else None)"
| "main_exec E i (MJoinWatchdog b) a =
     (if joinable_now (\<lambda>p. p = WdDone) (watchdog_pc a)
      then Some (a\<lparr>main_pc := (if b then MExit True else MSummary)\<rparr>) else None)"
| "main_exec E i MSummary a = Some (a\<lparr>main_pc := MExit False, summary := reportSummary (sh_metrics (sh a))\<rparr>)"
| "main_exec E i (MExit b) a = None"

lemma main_exec_step:
  assumes "main_exec E i (main_pc a) a = Some a'"
  shows "main_step E a a'"
proof (cases "main_pc a")
  case (MStart k)
  consider "k = 0" | "k = 1" | n where "k = n + 2"
    by (metis One_nat_def Suc_1 add.commute le_Suc_ex less_2_cases not_less)
  then show ?thesis
  proof cases
    case 3
    with MStart assms mn_start_worker [of a n E] mn_start_producer [of a n E] show ?thesis
      by (auto simp: eval_nat_numeral split: if_splits)
  qed (use MStart assms mn_start_logger [of a E] mn_start_watchdog [of a E] in auto)
next
  case MWait
  obtain r t where w: "waitForShutdown (p_msg E) [i] (shutdownToken (sh a)) = (r, t)" by fastforce
  have i: "\<not> token_set_elsewhere i" using assms MWait by (simp split: if_splits)
  show ?thesis
  proof (cases r)
    case None
    with w have w': "waitForShutdown (p_msg E) [i] (shutdownToken (sh a)) = (None, t)" by simp
    from mn_waiting [OF MWait i w'] w' i assms MWait show ?thesis
      by (simp del: waitForShutdown.simps)
  next
    case (Some x)
    then obtain u :: unit where x: "x = Inr u" using assms MWait i w
      by (cases x) (simp_all del: waitForShutdown.simps)
    with w Some have w': "waitForShutdown (p_msg E) [i] (shutdownToken (sh a)) = (Some (Inr ()), t)" by simp
    from mn_woken [OF MWait i w'] w' i assms MWait show ?thesis
      by (simp del: waitForShutdown.simps)
  qed
next
  case (MJoinWatchdog b)
  with assms mn_join_watchdog [of a b E] show ?thesis by (auto split: if_splits)
qed (use assms in \<open>auto intro: main_step.intros split: if_splits option.splits prod.splits\<close>)

section \<open>Scripts\<close>

datatype move = MoveMain poll_input | MoveProducer time_point | MoveWorker nat time_point
  | MoveLogger time_point | MoveWatchdog time_point

fun move_exec :: "('e, 'f) params \<Rightarrow> 'e \<Rightarrow> move \<Rightarrow> 'f app \<Rightarrow> 'f app option" where
  "move_exec E e (MoveMain i) a = main_exec E i (main_pc a) a"
| "move_exec E e (MoveProducer now) a =
     (case producer_pc a of
        None \<Rightarrow> None
      | Some p \<Rightarrow>
         (case producer_exec (p_cfg E) (p_sys E) (p_draw E) 0 now e p (sh a) of
            None \<Rightarrow> None
          | Some (ev, p', s') \<Rightarrow> Some (record_event ev (a\<lparr>producer_pc := Some p', sh := s'\<rparr>))))"
| "move_exec E e (MoveWorker i now) a =
     (if i < length (worker_pcs a) then
       (case worker_pcs a ! i of
          None \<Rightarrow> None
        | Some k \<Rightarrow>
           (case worker_exec (p_cfg E) (p_sys E) (p_arith E) (worker_hb i) now k (sh a) of
              None \<Rightarrow> None
            | Some (ev, k', s') \<Rightarrow>
                Some (record_event ev (a\<lparr>worker_pcs := (worker_pcs a)[i := Some k'], sh := s'\<rparr>))))
      else None)"
| "move_exec E e (MoveLogger now) a =
     (case logger_pc a of
        None \<Rightarrow> None
      | Some l \<Rightarrow>
         (case logger_exec (p_cfg E) (p_sys E) (p_show E) (logger_hb E) now l (sh a) of
            None \<Rightarrow> None
          | Some (ev, l', s') \<Rightarrow> Some (record_event ev (a\<lparr>logger_pc := Some l', sh := s'\<rparr>))))"
| "move_exec E e (MoveWatchdog now) a =
     (case watchdog_pc a of
        None \<Rightarrow> None
      | Some w \<Rightarrow>
         (case watchdog_exec (p_cfg E) (p_sys E) now w (sh a) of
            None \<Rightarrow> None
          | Some (ev, w', s') \<Rightarrow> Some (record_event ev (a\<lparr>watchdog_pc := Some w', sh := s'\<rparr>))))"

fun run_script :: "('e, 'f) params \<Rightarrow> 'e \<Rightarrow> move list \<Rightarrow> 'f app \<Rightarrow> 'f app option" where
  "run_script E e [] a = Some a"
| "run_script E e (m # ms) a =
     (case move_exec E e m a of None \<Rightarrow> None | Some a' \<Rightarrow> run_script E e ms a')"

lemma move_exec_step:
  assumes "move_exec E e m a = Some a'"
  shows "app_step E a a'"
  using assms
proof (cases m)
  case (MoveMain i)
  with assms show ?thesis by (auto intro: st_main main_exec_step)
qed (auto intro: st_producer st_worker st_logger st_watchdog
      dest: producer_exec_step worker_exec_step logger_exec_step watchdog_exec_step
      split: option.splits prod.splits if_splits)

lemma run_script_reaches:
  assumes "run_script E e ms a = Some a'" and "reaches (app_init E) (app_step E) a"
  shows "reaches (app_init E) (app_step E) a'"
  using assms
proof (induction ms arbitrary: a)
  case (Cons m ms)
  then obtain b where "move_exec E e m a = Some b" "run_script E e ms b = Some a'"
    by (auto split: option.splits)
  with Cons show ?case by (blast intro: reaches_step move_exec_step)
qed simp

lemma run_script_append:
  "run_script E e (ms @ ms') a = Option.bind (run_script E e ms a) (run_script E e ms')"
  by (induction ms arbitrary: a) (auto split: option.splits)

lemma run_script_steps: "run_script E e ms a = Some b \<Longrightarrow> (app_step E)\<^sup>*\<^sup>* a b"
proof (induction ms arbitrary: a)
  case (Cons m ms)
  then obtain c where "move_exec E e m a = Some c" "run_script E e ms c = Some b" by (auto split: option.splits)
  with Cons.IH move_exec_step show ?case by (metis converse_rtranclp_into_rtranclp)
qed simp

section \<open>A complete run\<close>

text \<open>
  The arithmetic is a placeholder: no step depends on the values computed, and the signal, its
  result and its record stay symbolic.
\<close>

definition demo :: "(unit, nat) params" where
  "demo = \<lparr>p_cfg = default_config\<lparr>pool := \<lparr>workerCount = 1\<rparr>,
       realtime := (realtime default_config)\<lparr>rt_enabled := False, lockMemory := False\<rparr>,
       logging := \<lparr>filePath = [], console = True\<rparr>\<rparr>,
     p_sys = \<lparr>os_pagesize = 4096, os_mlockall = (0, 0), os_malloc = True,
       os_setschedparam = (\<lambda>_. 0), os_setaffinity = (\<lambda>_. 0)\<rparr>,
     p_arith = \<lparr>f_of_nat = (\<lambda>n. n), f_add = (+), f_sub = (-), f_mul = (*), f_div = (div),
       f_neg = (\<lambda>x. x), f_less = (<), f_cos = (\<lambda>x. x), f_sin = (\<lambda>x. x), f_hypot = (+), f_pi = 3\<rparr>,
     p_draw = (\<lambda>_. (7, ())), p_show = string_of_nat, p_msg = (\<lambda>_. [])\<rparr>"

definition demo_start :: "nat app" where
  "demo_start = \<lparr>sh = \<lparr>
      inputQueue = \<lparr>q_queue = [], q_capacity = 256, q_policy = Block, q_droppedCount = 0, q_closed = False\<rparr>,
      outputQueue = \<lparr>q_queue = [], q_capacity = 1024, q_policy = DropOldest, q_droppedCount = 0, q_closed = False\<rparr>,
      shutdownToken = new_token, sh_metrics = new_metrics,
      heartbeatRegistry = [(''producer'', new_heartbeat), (worker_name 0, new_heartbeat), (''logger'', new_heartbeat)],
      sinks = [new_sink], cerr = []\<rparr>,
    producer_pc = None, worker_pcs = [None], logger_pc = None, watchdog_pc = None, main_pc = MLock,
    stopped = False, summary = [], h_in = [], h_out = [], h_results = [], h_threw = False\<rparr>"

definition sigint :: poll_input where
  "sigint = \<lparr>token_set_elsewhere = False, poll_ready = 1, poll_errno = 0, poll_in = True,
     read_bytes = 128, read_errno = 0\<rparr>"

definition demo_startup :: "move list" where
  "demo_startup = replicate 5 (MoveMain sigint) @ replicate 12 (MoveProducer 0)"

definition demo_work :: "move list" where
  "demo_work = replicate 14 (MoveWorker 0 0) @ replicate 8 (MoveLogger 0)"

definition demo_shutdown :: "move list" where
  "demo_shutdown = replicate 4 (MoveMain sigint) @ [MoveProducer 0, MoveMain sigint]
     @ replicate 2 (MoveWorker 0 0) @ replicate 3 (MoveMain sigint)
     @ replicate 4 (MoveLogger 0) @ [MoveMain sigint] @ replicate 2 (MoveWatchdog 0)
     @ replicate 2 (MoveMain sigint)"

definition demo_signal :: "nat radar_signal" where
  "demo_signal = fst (generateSignal (p_draw demo) 0 ())"

lemma demo_init: "app_init demo demo_start"
  unfolding app_init_def
  by (rule exI [of _ willing])
    (simp add: Application_def willing_def demo_def demo_start_def default_config_def ThreadSafeQueue_def
      registerHeartbeat_def ThreadPool_eq buildSinks_def SignalHandler_def Let_def)

lemma demo_params [simp]:
  "rt_enabled (realtime (p_cfg demo)) = False" "lockMemory (realtime (p_cfg demo)) = False"
  "period_of (p_cfg demo) = 1000000" "logger_hb demo = 2" "workerCount (pool (p_cfg demo)) = 1"
  by (simp_all add: demo_def default_config_def period_of_def of_us_def ns_per_us_def logger_hb_def)

lemma demo_configure [simp]: "configure_thread (p_cfg demo) sys built prio role s = s"
  by (simp add: configure_thread_def configureCurrentThread_def reportRealtimeDegradation_def
      skipped_def ok_def)

lemma demo_lock [simp]: "lockProcessMemory (p_cfg demo) sys = Some (skipped, [], [])"
  by (simp add: lockProcessMemory_def)

lemma demo_wait: "waitForShutdown msg [sigint] new_token = (Some (Inr ()), requestShutdown new_token)"
  "\<not> token_set_elsewhere sigint"
  by (simp_all add: sigint_def consumePendingSignal_def siginfo_size_def Let_def new_token_def
      shutdownRequested_def)

lemmas demo_exec = on_metrics_def on_sink_def on_heartbeat_def request_shutdown_def report_lock_def
  tsq_op_defs full_def size_tsq_def droppedCount_def shutdownRequested_def next_deadline_simps
  joinable_now_def sink_write_def sink_flush_def new_sink_def skipped_def ok_def demo_signal_def [symmetric]

lemma demo_token [simp]: "\<not> tok_requested new_token"
  by (simp add: new_token_def)

definition demo_script :: "move list" where
  "demo_script = demo_startup @ demo_work @ demo_shutdown"

lemma demo_run:
  "\<exists>a. run_script demo () demo_script demo_start = Some a \<and> main_pc a = MExit False \<and> \<not> h_threw a
     \<and> accepted (h_in a) = [demo_signal] \<and> length (delivered (h_out a)) = 1 \<and> length (sinks (sh a)) = 1"
  by (simp add: demo_script_def demo_startup_def demo_work_def demo_shutdown_def demo_start_def
      demo_wait demo_exec eval_nat_numeral del: waitForShutdown.simps)

lemma demo_reaches:
  obtains a where "reaches (app_init demo) (app_step demo) a" and "main_pc a = MExit False"
    and "\<not> h_threw a" and "accepted (h_in a) = [demo_signal]" and "length (delivered (h_out a)) = 1"
    and "length (sinks (sh a)) = 1"
  using demo_run run_script_reaches reaches_init [of "app_init demo", OF demo_init] by metis

end
