(* ===== verification/Application_Drain.thy ===== *)
theory Application_Drain
  imports Application_Phases Application_Run "HOL-Library.Multiset"
begin

text \<open>
  The ordered drain: when the program ends normally and no thread was ended by an exception, every
  signal the input queue accepted has been processed exactly once and logged, and the sinks hold
  what the logger took from the output queue, completely and flushed.
\<close>

section \<open>Helpers\<close>

lemma accepted_append: "accepted (tr @ tr') = accepted tr @ accepted tr'"
proof (induction tr)
  case (Cons c tr)
  then show ?case
    using accepted_Cons [of c "tr @ tr'"] accepted_Cons [of c tr] by simp
qed simp

lemma delivered_append: "delivered (tr @ tr') = delivered tr @ delivered tr'"
proof (induction tr)
  case (Cons c tr)
  then show ?case
    using delivered_Cons [of c "tr @ tr'"] delivered_Cons [of c tr] by simp
qed simp

lemma sum_list_update_monoid:
  fixes f :: "'b \<Rightarrow> 'a::comm_monoid_add"
  assumes "i < length xs"
  shows "sum_list (map f (xs[i := x])) + f (xs ! i) = sum_list (map f xs) + f x"
  using assms
proof (induction xs arbitrary: i)
  case (Cons y ys)
  show ?case
  proof (cases i)
    case 0
    then show ?thesis by (simp add: ac_simps)
  next
    case (Suc j)
    with Cons show ?thesis by (simp add: add.assoc)
  qed
qed simp

lemma sum_list_replicate_zero [simp]: "sum_list (replicate n (0::'a::comm_monoid_add)) = 0"
  by (induction n) simp_all

lemma flow_update:
  fixes D R S T c d old new :: "'a::cancel_comm_monoid_add"
  assumes "D = R + S" and "T + old = S + new" and "new + c = old + d"
  shows "D + d = (R + c) + T"
proof -
  have "((R + c) + T) + old = (R + c) + (S + new)" using assms(2) by (simp add: add.assoc)
  also have "\<dots> = (R + S) + (new + c)" by (simp add: ac_simps)
  also have "\<dots> = (D + d) + old" using assms(1,3) by (simp add: ac_simps)
  finally show ?thesis by (simp only: add_right_cancel)
qed

lemma drop_oldest_no_rejection:
  assumes "run_ops ops q = Some (tr, q')" and "q_policy q = DropOldest"
  shows "rejected (q_closed q) tr = 0"
  using assms
proof (induction ops arbitrary: q tr)
  case (Cons x xs)
  from Cons.prems(1) obtain r q1 tr' where x: "exec_op x q = Returns (r, q1)"
    and xs: "run_ops xs q1 = Some (tr', q')" and tr: "tr = (x, r) # tr'"
    by (rule run_ops_Cons)
  note frame = exec_op_frame [OF x]
  from Cons.IH [OF xs] Cons.prems(2) frame(2) have "rejected (q_closed q1) tr' = 0" by simp
  moreover have "rejected (q_closed q) [(x, r)] = 0"
    using x Cons.prems(2)
    by (cases x) (auto simp: tsq_op_defs Let_def split: if_splits outcome.splits prod.splits)
  ultimately show ?case
    using tr frame(3) rejected_Cons [of "q_closed q" x r tr'] by simp
qed simp

section \<open>What the threads hold\<close>

text \<open>The signal a worker has taken but not yet counted, and the record it has not yet pushed.\<close>

fun inflight :: "'f arith \<Rightarrow> 'f kpc option \<Rightarrow> 'f processed_signal multiset" where
  "inflight A (Some (KDepth sig)) = {#process A sig#}"
| "inflight A (Some (KStoreDepth sig d)) = {#process A sig#}"
| "inflight A (Some (KRun sig)) = {#process A sig#}"
| "inflight A (Some (KProcess sig)) = {#process A sig#}"
| "inflight A (Some (KCount res)) = {#res#}"
| "inflight A _ = {#}"

fun unlogged :: "'f kpc option \<Rightarrow> 'f log_record multiset" where
  "unlogged (Some (KLatency res)) = {#toLogRecord res#}"
| "unlogged (Some (KPush r)) = {#r#}"
| "unlogged _ = {#}"

definition dsp_records :: "'f log_record list \<Rightarrow> 'f log_record multiset" where
  "dsp_records rs = mset (filter (\<lambda>r. lr_source r = Dsp) rs)"

text \<open>What an event adds to the histories.\<close>

definition taken :: "'f arith \<Rightarrow> 'f event \<Rightarrow> 'f processed_signal multiset" where
  "taken A ev = (case ev of InQ x r \<Rightarrow> mset (map (process A) (delivered [(x, r)])) | _ \<Rightarrow> {#})"

definition counted :: "'f event \<Rightarrow> 'f processed_signal multiset" where
  "counted ev = (case ev of Counted res \<Rightarrow> {#res#} | _ \<Rightarrow> {#})"

definition logged :: "'f event \<Rightarrow> 'f log_record multiset" where
  "logged ev = (case ev of OutQ x r \<Rightarrow> dsp_records (accepted [(x, r)]) | _ \<Rightarrow> {#})"

lemmas event_defs = taken_def counted_def logged_def dsp_records_def

fun own_records :: "'f kpc option \<Rightarrow> bool" where
  "own_records (Some (KPush r)) = (lr_source r = Dsp)"
| "own_records _ = True"

fun watchdog_records :: "'f wpc option \<Rightarrow> bool" where
  "watchdog_records (Some (WdCount r t n)) = (lr_source r = Watchdog)"
| "watchdog_records (Some (WdPush r t n)) = (lr_source r = Watchdog)"
| "watchdog_records _ = True"

lemma toLogRecord_source [simp]: "lr_source (toLogRecord res) = Dsp"
  by (simp add: toLogRecord_def result_record_def)

lemma stall_record_source [simp]: "lr_source (stall_record n age now) = Watchdog"
  by (simp add: stall_record_def message_record_def)

text \<open>A worker passes on what it takes.\<close>

lemma worker_flow:
  assumes "worker_step cfg sys A hb ev (k, s) (k', s')" and "ev \<noteq> Threw"
  shows "inflight A (Some k') + counted ev = inflight A (Some k) + taken A ev"
  using assms by (cases rule: worker_step.cases) (simp_all add: event_defs)

lemma worker_log_flow:
  assumes "worker_step cfg sys A hb ev (k, s) (k', s')" and "ev \<noteq> Threw"
    and "\<not> q_closed (outputQueue s)" and "q_policy (outputQueue s) = DropOldest"
    and "own_records (Some k)"
  shows "unlogged (Some k') + logged ev = unlogged (Some k) + image_mset toLogRecord (counted ev)"
  using assms
  by (cases rule: worker_step.cases, simp_all add: event_defs push_def)
    (auto simp: enqueueLocked_def Let_def split: if_splits)

lemma resumed [simp]:
  "own_records (Some (worker_resume x))" "watchdog_records (Some (watchdog_resume x))"
  "inflight A (Some (worker_resume x)) = {#}" "unlogged (Some (worker_resume x)) = {#}"
  by (cases x; simp)+

lemma worker_own_records:
  assumes "worker_step cfg sys A hb ev (k, s) (k', s')"
  shows "own_records (Some k')"
  using assms by (cases rule: worker_step.cases) simp_all

lemma worker_counters:
  assumes "worker_step cfg sys A hb ev (k, s) (k', s')"
  shows "m_signalsProduced (sh_metrics s') = m_signalsProduced (sh_metrics s)"
    and "m_signalsProcessed (sh_metrics s') = m_signalsProcessed (sh_metrics s) + of_nat (size (counted ev))"
    and "\<And>x r. ev = InQ x r \<Longrightarrow> x = WaitAndPop" and "\<And>x r. ev = OutQ x r \<Longrightarrow> delivered [(x, r)] = []"
    and "sinks s' = sinks s"
  using assms by (cases rule: worker_step.cases; auto simp: step_defs metrics_simps event_defs)+

definition at_count :: "'f ppc option \<Rightarrow> bool" where
  "at_count po \<longleftrightarrow> (\<exists>nd. po = Some (PCount nd))"

lemma producer_counters:
  assumes "producer_step cfg sys draw hb ev (p, s) (p', s')" and "ev \<noteq> Threw"
  shows "m_signalsProduced (sh_metrics s') + of_bool (at_count (Some p'))
      = m_signalsProduced (sh_metrics s) + of_bool (at_count (Some p))
        + of_nat (length (case ev of InQ x r \<Rightarrow> accepted [(x, r)] | _ \<Rightarrow> []))"
    and "taken A ev = {#}" and "counted ev = {#}" and "logged ev = {#}"
  using assms
  by (cases rule: producer_step.cases; simp add: step_defs metrics_simps event_defs at_count_def)+

lemma producer_frame:
  assumes "producer_step cfg sys draw hb ev (p, s) (p', s')"
  shows "m_signalsProcessed (sh_metrics s') = m_signalsProcessed (sh_metrics s)"
    and "sinks s' = sinks s" and "\<And>x r. ev \<noteq> OutQ x r" and "\<And>r. ev \<noteq> Counted r"
    and "\<And>x r. ev = InQ x r \<Longrightarrow> delivered [(x, r)] = []"
  using assms by (cases rule: producer_step.cases; simp add: step_defs metrics_simps)+

lemma logger_frame:
  assumes "logger_step cfg sys show_float hb ev (l, s) (l', s')"
  shows "m_signalsProduced (sh_metrics s') = m_signalsProduced (sh_metrics s)"
    and "m_signalsProcessed (sh_metrics s') = m_signalsProcessed (sh_metrics s)"
    and "\<And>x r. ev \<noteq> InQ x r" and "\<And>r. ev \<noteq> Counted r"
    and "\<And>x r. ev = OutQ x r \<Longrightarrow> x = WaitAndPop"
  using assms by (cases rule: logger_step.cases; simp add: step_defs metrics_simps)+

lemma watchdog_frame:
  assumes "watchdog_step cfg sys ev (w, s) (w', s')"
  shows "m_signalsProduced (sh_metrics s') = m_signalsProduced (sh_metrics s)"
    and "m_signalsProcessed (sh_metrics s') = m_signalsProcessed (sh_metrics s)"
    and "sinks s' = sinks s" and "\<And>x r. ev \<noteq> InQ x r" and "\<And>r. ev \<noteq> Counted r"
    and "\<And>x r. ev = OutQ x r \<Longrightarrow> delivered [(x, r)] = []"
  using assms by (cases rule: watchdog_step.cases; auto simp: step_defs metrics_simps)+

lemma watchdog_own_records:
  assumes "watchdog_step cfg sys ev (w, s) (w', s')" and "watchdog_records (Some w)"
  shows "watchdog_records (Some w')" and "logged ev = {#}"
proof -
  show "watchdog_records (Some w')"
    using assms by (cases rule: watchdog_step.cases) simp_all
  have src: "lr_source v \<noteq> Dsp" if "v \<in> set (accepted [(Push r, Stored b)])" "lr_source r = Watchdog"
    for v r :: "'a log_record" and b
    using that by (cases b) simp_all
  show "logged ev = {#}"
    using assms src by (cases rule: watchdog_step.cases) (simp_all add: event_defs filter_empty_conv)
qed

section \<open>The invariant of the drain\<close>

definition work_inv :: "('e, 'f) params \<Rightarrow> 'f app \<Rightarrow> bool" where
  "work_inv E a \<longleftrightarrow>
     mset (map (process (p_arith E)) (delivered (h_in a)))
       = mset (h_results a) + sum_list (map (inflight (p_arith E)) (worker_pcs a))
   \<and> image_mset toLogRecord (mset (h_results a))
       = dsp_records (accepted (h_out a)) + sum_list (map unlogged (worker_pcs a))
   \<and> m_signalsProduced (sh_metrics (sh a)) + of_bool (at_count (producer_pc a))
       = of_nat (length (accepted (h_in a)))
   \<and> m_signalsProcessed (sh_metrics (sh a)) = of_nat (length (h_results a))
   \<and> (\<forall>i < length (worker_pcs a). own_records (worker_pcs a ! i))
   \<and> watchdog_records (watchdog_pc a)"

text \<open>A worker that has ended, or a logger that flushes, has seen the end of its queue.\<close>

fun flushing :: "'f lpc option \<Rightarrow> bool" where
  "flushing (Some (LFlush k)) = True"
| "flushing (Some LDone) = True"
| "flushing _ = False"

definition seen_end :: "'a tsq \<Rightarrow> bool" where
  "seen_end q \<longleftrightarrow> q_closed q \<and> q_queue q = []"

definition end_inv :: "'f app \<Rightarrow> bool" where
  "end_inv a \<longleftrightarrow>
     (\<forall>i < length (worker_pcs a). (worker_pcs a ! i = Some KDone \<longrightarrow> seen_end (inputQueue (sh a)))
        \<and> (\<forall>u. worker_pcs a ! i \<noteq> Some (KUnwind u)))
   \<and> (flushing (logger_pc a) \<longrightarrow> seen_end (outputQueue (sh a)))"

text \<open>What a sink must hold: everything popped, except for the record still being written.\<close>

fun written :: "'f lpc option \<Rightarrow> nat \<Rightarrow> 'f log_record list \<Rightarrow> 'f log_record list" where
  "written (Some (LDepth r)) k rs = butlast rs"
| "written (Some (LStoreDepth r d)) k rs = butlast rs"
| "written (Some (LRun r)) k rs = butlast rs"
| "written (Some (LWrite line m)) k rs = (if k < m then rs else butlast rs)"
| "written _ k rs = rs"

fun holding :: "('f \<Rightarrow> string) \<Rightarrow> 'f lpc option \<Rightarrow> 'f log_record list \<Rightarrow> bool" where
  "holding fmt (Some (LDepth r)) rs = (rs \<noteq> [] \<and> last rs = r)"
| "holding fmt (Some (LStoreDepth r d)) rs = (rs \<noteq> [] \<and> last rs = r)"
| "holding fmt (Some (LRun r)) rs = (rs \<noteq> [] \<and> last rs = r)"
| "holding fmt (Some (LWrite line m)) rs = (rs \<noteq> [] \<and> line = formatLine fmt (last rs))"
| "holding fmt _ rs = True"

fun flushed_upto :: "nat \<Rightarrow> 'f lpc option \<Rightarrow> nat" where
  "flushed_upto n (Some (LFlush m)) = m"
| "flushed_upto n (Some LDone) = n"
| "flushed_upto n _ = 0"

definition sink_inv :: "('e, 'f) params \<Rightarrow> 'f app \<Rightarrow> bool" where
  "sink_inv E a \<longleftrightarrow>
     holding (p_show E) (logger_pc a) (delivered (h_out a))
   \<and> (\<forall>k < length (sinks (sh a)).
        sink_lines (sinks (sh a) ! k) = map (formatLine (p_show E)) (written (logger_pc a) k (delivered (h_out a)))
      \<and> (k < flushed_upto (length (sinks (sh a))) (logger_pc a)
           \<longrightarrow> sink_flushed (sinks (sh a) ! k) = length (sink_lines (sinks (sh a) ! k))))"

subsection \<open>Preservation\<close>

lemma work_inv_producer:
  assumes "work_inv E a" and "producer_pc a = Some p"
    and step: "producer_step cfg sys draw hb ev (p, sh a) (p', s')" and "ev \<noteq> Threw"
  shows "work_inv E (record_event ev (a\<lparr>producer_pc := Some p', sh := s'\<rparr>))"
proof -
  note c = producer_counters [OF step assms(4)] and f = producer_frame [OF step]
  have "delivered (h_in (record_event ev a)) = delivered (h_in a)"
    using f(5) by (cases ev) (simp_all add: delivered_append)
  moreover have "accepted (h_in (record_event ev a)) =
      accepted (h_in a) @ (case ev of InQ x r \<Rightarrow> accepted [(x, r)] | _ \<Rightarrow> [])"
    by (cases ev) (simp_all add: accepted_append)
  moreover have "h_out (record_event ev a) = h_out a" "h_results (record_event ev a) = h_results a"
    using f(3,4) by (cases ev; simp)+
  ultimately show ?thesis
    using assms(1,2) c(1) f(1) by (simp add: work_inv_def record_event_histories algebra_simps)
qed

lemma work_inv_worker:
  assumes inv: "work_inv E a" and i: "i < length (worker_pcs a)" "worker_pcs a ! i = Some k"
    and step: "worker_step cfg sys (p_arith E) hb ev (k, sh a) (k', s')" and ev: "ev \<noteq> Threw"
    and out: "\<not> q_closed (outputQueue (sh a))" "q_policy (outputQueue (sh a)) = DropOldest"
  shows "work_inv E (record_event ev (a\<lparr>worker_pcs := (worker_pcs a)[i := Some k'], sh := s'\<rparr>))"
proof -
  let ?A = "p_arith E" and ?pcs = "(worker_pcs a)[i := Some k']"
  note c = worker_counters [OF step]
  have own: "own_records (Some k)" using inv i by (auto simp: work_inv_def)
  have "mset (map (process ?A) (delivered (h_in a))) + taken ?A ev =
      (mset (h_results a) + counted ev) + sum_list (map (inflight ?A) ?pcs)"
    by (rule flow_update [OF _ _ worker_flow [OF step ev]])
      (use inv sum_list_update_monoid [OF i(1), of "inflight ?A" "Some k'"] i(2) in \<open>simp_all add: work_inv_def\<close>)
  moreover have "image_mset toLogRecord (mset (h_results a)) + image_mset toLogRecord (counted ev) =
      (dsp_records (accepted (h_out a)) + logged ev) + sum_list (map unlogged ?pcs)"
    by (rule flow_update [OF _ _ worker_log_flow [OF step ev out own]])
      (use inv sum_list_update_monoid [OF i(1), of unlogged "Some k'"] i(2) in \<open>simp_all add: work_inv_def\<close>)
  moreover have "mset (map (process ?A) (delivered (h_in (record_event ev a)))) =
      mset (map (process ?A) (delivered (h_in a))) + taken ?A ev"
    by (cases ev) (simp_all add: delivered_append taken_def)
  moreover have "mset (h_results (record_event ev a)) = mset (h_results a) + counted ev"
    "length (h_results (record_event ev a)) = length (h_results a) + size (counted ev)"
    by (cases ev; simp add: counted_def)+
  moreover have "dsp_records (accepted (h_out (record_event ev a))) =
      dsp_records (accepted (h_out a)) + logged ev"
    by (cases ev) (simp_all add: accepted_append logged_def dsp_records_def)
  moreover have "accepted (h_in (record_event ev a)) = accepted (h_in a)"
  proof (cases ev)
    case (InQ x r)
    then show ?thesis using c(3) by (cases r) (simp_all add: accepted_append)
  qed simp_all
  moreover have "own_records (?pcs ! j)" if "j < length ?pcs" for j
    using inv that worker_own_records [OF step] by (cases "j = i") (auto simp: work_inv_def)
  ultimately show ?thesis
    using inv c(1,2) by (simp add: work_inv_def record_event_histories)
qed

lemma work_inv_other:
  assumes inv: "work_inv E a"
    and same: "producer_pc a' = producer_pc a" "worker_pcs a' = worker_pcs a"
      "h_in a' = h_in a" "h_results a' = h_results a" "watchdog_records (watchdog_pc a')"
      "dsp_records (accepted (h_out a')) = dsp_records (accepted (h_out a))"
      "m_signalsProduced (sh_metrics (sh a')) = m_signalsProduced (sh_metrics (sh a))"
      "m_signalsProcessed (sh_metrics (sh a')) = m_signalsProcessed (sh_metrics (sh a))"
  shows "work_inv E a'"
  using inv by (simp add: work_inv_def same)

lemma work_inv_main:
  assumes "main_step E a a'" and "work_inv E a" and "started_inv a"
  shows "work_inv E a'"
  using assms
proof (induction rule: main_step.induct)
  case (mn_start_worker a i)
  then have none: "worker_pcs a ! i = None" by (auto simp: started_inv_def)
  have "sum_list (map (inflight A) ((worker_pcs a)[i := Some KInit])) = sum_list (map (inflight A) (worker_pcs a))"
    "sum_list (map unlogged ((worker_pcs a)[i := Some KInit])) = sum_list (map unlogged (worker_pcs a))" for A
    using sum_list_update_monoid [OF mn_start_worker(2), of _ "Some KInit"] none
    by (metis add.right_neutral inflight.simps(6,7), metis add.right_neutral unlogged.simps(3,4))
  moreover have "own_records (((worker_pcs a)[i := Some KInit]) ! j)" if "j < length (worker_pcs a)" for j
    using mn_start_worker(3) that by (cases "j = i") (auto simp: work_inv_def)
  ultimately show ?case
    using mn_start_worker by (simp add: work_inv_def)
next
  case (mn_close_in a b)
  then show ?case by (simp add: work_inv_def delivered_append accepted_append)
next
  case (mn_close_out a b)
  then show ?case by (simp add: work_inv_def delivered_append accepted_append)
qed (auto simp: work_inv_def started_inv_def step_defs at_count_def)

lemma seen_end_stable:
  assumes "exec_op x q = Returns (r, q')" and "seen_end q"
  shows "seen_end q'"
  using assms by (cases x) (auto simp: seen_end_def tsq_op_defs split: if_splits)

lemma seen_end_effect:
  assumes "queue_effect ev s s'"
  shows "seen_end (inputQueue s) \<Longrightarrow> seen_end (inputQueue s')"
    and "seen_end (outputQueue s) \<Longrightarrow> seen_end (outputQueue s')"
  using assms by (cases ev; auto intro: seen_end_stable)+

lemma worker_seen_end:
  assumes "worker_step cfg sys A hb ev (k, s) (KDone, s')" and "ev \<noteq> Threw"
  shows "seen_end (inputQueue s')"
  using assms by (cases rule: worker_step.cases) (auto simp: seen_end_def waitAndPop_def
      popLockedAndNotify_def split: if_splits)

lemma logger_seen_end:
  assumes "logger_step cfg sys show_float hb ev (l, s) (l', s')" and "ev \<noteq> Threw"
    and "flushing (Some l')" and "flushing (Some l) \<Longrightarrow> seen_end (outputQueue s)"
  shows "seen_end (outputQueue s')"
  using assms by (cases rule: logger_step.cases) (auto simp: seen_end_def waitAndPop_def
      popLockedAndNotify_def step_defs split: if_splits)

lemma end_inv_other:
  assumes "end_inv a" and "queue_effect ev (sh a) (sh a')" and "worker_pcs a' = worker_pcs a"
    and "logger_pc a' = logger_pc a"
  shows "end_inv a'"
  using assms seen_end_effect [OF assms(2)] by (auto simp: end_inv_def)

lemma end_inv_worker:
  assumes "end_inv a" and "i < length (worker_pcs a)"
    and "worker_step cfg sys A hb ev (k, sh a) (k', s')" and "ev \<noteq> Threw"
  shows "end_inv (record_event ev (a\<lparr>worker_pcs := (worker_pcs a)[i := Some k'], sh := s'\<rparr>))"
proof -
  note eff = seen_end_effect [OF worker_thread.step_queues [OF assms(3)]]
  have "seen_end (inputQueue s')" if "k' = KDone"
    using worker_seen_end assms(3,4) that by blast
  moreover have "k' \<noteq> KUnwind u" for u
    using worker_thread.step_handler [OF assms(3,4)] by auto
  ultimately show ?thesis
    using assms(1,2) eff by (auto simp: end_inv_def nth_list_update split: if_splits)
qed

lemma end_inv_logger:
  assumes "end_inv a" and "logger_pc a = Some l"
    and "logger_step cfg sys show_float hb ev (l, sh a) (l', s')" and "ev \<noteq> Threw"
  shows "end_inv (record_event ev (a\<lparr>logger_pc := Some l', sh := s'\<rparr>))"
  using assms seen_end_effect [OF logger_thread.step_queues [OF assms(3)]] logger_seen_end [OF assms(3,4)]
  by (auto simp: end_inv_def)

lemma end_inv_main:
  assumes "main_step E a a'" and "end_inv a"
  shows "end_inv a'"
  using assms
proof (induction rule: main_step.induct)
  case (mn_start_worker a i)
  then show ?case by (auto simp: end_inv_def nth_list_update split: if_splits)
qed (auto simp: end_inv_def step_defs seen_end_def close_def)

lemma sink_inv_other:
  assumes "sink_inv E a" and "logger_pc a' = logger_pc a" and "sinks (sh a') = sinks (sh a)"
    and "delivered (h_out a') = delivered (h_out a)"
  shows "sink_inv E a'"
  using assms by (simp add: sink_inv_def)

lemma sink_inv_logger:
  assumes "sink_inv E a" and "logger_pc a = Some l"
    and "logger_step cfg sys (p_show E) hb ev (l, sh a) (l', s')" and "ev \<noteq> Threw"
  shows "sink_inv E (record_event ev (a\<lparr>logger_pc := Some l', sh := s'\<rparr>))"
  using assms(3)
proof (cases rule: logger_step.cases)
  case (lg_write k line)
  have "map (formatLine (p_show E)) (butlast rs) @ [formatLine (p_show E) (last rs)] =
      map (formatLine (p_show E)) rs" if "rs \<noteq> []" for rs
    using that by (metis append_butlast_last_id list.simps(8,9) map_append)
  with lg_write assms(1,2) show ?thesis
    by (auto simp: sink_inv_def step_defs sink_write_def nth_list_update less_Suc_eq)
next
  case (lg_flush k)
  with assms(1,2) show ?thesis
    by (auto simp: sink_inv_def step_defs sink_flush_def nth_list_update less_Suc_eq)
qed (use assms in \<open>auto simp: sink_inv_def step_defs delivered_append\<close>)

lemma sink_inv_main:
  assumes "main_step E a a'" and "sink_inv E a" and "started_inv a"
  shows "sink_inv E a'"
  using assms
  by (induction rule: main_step.induct) (auto simp: sink_inv_def step_defs delivered_append started_inv_def)

definition drain_inv :: "('e, 'f) params \<Rightarrow> 'f app \<Rightarrow> bool" where
  "drain_inv E a \<longleftrightarrow> base_inv E a \<and> (\<not> h_threw a \<longrightarrow> work_inv E a \<and> end_inv a \<and> sink_inv E a)"

text \<open>A worker that runs finds the output queue open, with its policy.\<close>

lemma worker_output_open:
  assumes "base_inv E a" and "i < length (worker_pcs a)" and "worker_pcs a ! i = Some k" and "k \<noteq> KDone"
  shows "\<not> q_closed (outputQueue (sh a))" and "q_policy (outputQueue (sh a)) = DropOldest"
proof -
  show "\<not> q_closed (outputQueue (sh a))"
    using assms by (auto simp: base_inv_def phase_inv_def ended_inv_def closed_inv_def joinable_now_def)
  show "q_policy (outputQueue (sh a)) = DropOldest"
    using assms(1) run_ops_frame by (fastforce simp: base_inv_def trace_inv_def out_start_def)
qed

lemma drain_inv_step:
  assumes step: "app_step E a a'" and inv: "drain_inv E a"
  shows "drain_inv E a'"
proof -
  have base: "base_inv E a" "base_inv E a'"
    using inv application.invar_step [OF step] by (auto simp: drain_inv_def)
  have "work_inv E a' \<and> end_inv a' \<and> sink_inv E a'" if "\<not> h_threw a'"
    using step
  proof (cases rule: app_step.cases)
    case (st_producer p ev p' s')
    with that have ev: "ev \<noteq> Threw" "\<not> h_threw a" by (auto simp: record_event_histories)
    note f = producer_frame [OF st_producer(3)]
    have "h_out a' = h_out a" using f(3) st_producer(1) by (cases ev) auto
    moreover have "end_inv a'"
      using inv ev st_producer producer_thread.step_queues [OF st_producer(3)]
      by - (rule end_inv_other [of a ev], simp_all add: drain_inv_def)
    ultimately show ?thesis
      using inv ev st_producer(1) work_inv_producer [of E, OF _ st_producer(2,3) ev(1)] f(2)
        sink_inv_other [of E a a'] by (simp add: drain_inv_def)
  next
    case (st_worker i k ev k' s')
    with that have ev: "ev \<noteq> Threw" "\<not> h_threw a" by (auto simp: record_event_histories)
    note f = worker_counters [OF st_worker(4)]
    have "k \<noteq> KDone" using worker_thread.finished_final st_worker(4) by blast
    note out = worker_output_open [OF base(1) st_worker(2,3) this]
    have "delivered (h_out a') = delivered (h_out a)"
      using f(4) st_worker(1) by (cases ev) (simp_all add: delivered_append)
    then have "sink_inv E a'"
      using inv ev st_worker(1) f(5) by - (rule sink_inv_other [of E a], simp_all add: drain_inv_def)
    with inv ev st_worker(1) work_inv_worker [OF _ st_worker(2-4) ev(1) out]
      end_inv_worker [OF _ st_worker(2,4) ev(1)]
    show ?thesis by (simp add: drain_inv_def)
  next
    case (st_logger l ev l' s')
    with that have ev: "ev \<noteq> Threw" "\<not> h_threw a" by (auto simp: record_event_histories)
    note f = logger_frame [OF st_logger(3)]
    have h: "h_in a' = h_in a" "h_results a' = h_results a"
      using f(3,4) st_logger(1) by (cases ev; auto)+
    have "accepted (h_out a') = accepted (h_out a)"
    proof (cases ev)
      case (OutQ x r)
      then show ?thesis using f(5) st_logger(1) by (cases r) (simp_all add: accepted_append)
    qed (use st_logger(1) in simp_all)
    with h inv ev st_logger(1) f(1,2) have "work_inv E a'"
      by - (rule work_inv_other [of E a], simp_all add: drain_inv_def work_inv_def)
    with inv ev st_logger(1) end_inv_logger [OF _ st_logger(2,3) ev(1)]
      sink_inv_logger [OF _ st_logger(2,3) ev(1)]
    show ?thesis by (simp add: drain_inv_def)
  next
    case (st_watchdog w ev w' s')
    with that have ev: "ev \<noteq> Threw" "\<not> h_threw a" by (auto simp: record_event_histories)
    note f = watchdog_frame [OF st_watchdog(3)]
    have wd: "watchdog_records (Some w)"
      using inv ev(2) st_watchdog(2) by (auto simp: drain_inv_def work_inv_def)
    note r = watchdog_own_records [OF st_watchdog(3) wd]
    have h: "h_in a' = h_in a" "h_results a' = h_results a"
      using f(4,5) st_watchdog(1) by (cases ev; auto)+
    have "dsp_records (accepted (h_out a')) = dsp_records (accepted (h_out a))"
      using r(2) st_watchdog(1) by (cases ev) (simp_all add: accepted_append logged_def dsp_records_def)
    with h inv ev st_watchdog(1) f(1,2) r(1) have "work_inv E a'"
      by - (rule work_inv_other [of E a], simp_all add: drain_inv_def)
    moreover have "delivered (h_out a') = delivered (h_out a)"
      using f(6) st_watchdog(1) by (cases ev) (simp_all add: delivered_append)
    then have "sink_inv E a'"
      using inv ev st_watchdog(1) f(3) by - (rule sink_inv_other [of E a], simp_all add: drain_inv_def)
    moreover have "end_inv a'"
      using inv ev st_watchdog watchdog_thread.step_queues [OF st_watchdog(3)]
      by - (rule end_inv_other [of a ev], simp_all add: drain_inv_def)
    ultimately show ?thesis by blast
  next
    case st_main
    then have "h_threw a' = h_threw a" by (induction rule: main_step.induct) simp_all
    with that inv base(1) work_inv_main [OF st_main] end_inv_main [OF st_main] sink_inv_main [OF st_main]
    show ?thesis by (simp add: drain_inv_def base_inv_def phase_inv_def)
  qed
  with base(2) show ?thesis by (simp add: drain_inv_def)
qed

lemma drain_inv_init: "app_init E a \<Longrightarrow> drain_inv E a"
proof -
  assume init: "app_init E a"
  have "work_inv E a \<and> end_inv a \<and> sink_inv E a"
    using init
  proof (rule app_init_cases)
    fix ks assume "set ks \<subseteq> {new_sink}"
    then have "ks ! k = new_sink" if "k < length ks" for k
      using that nth_mem [of k ks] by blast
    then have "sink_lines (ks ! k) = []" if "k < length ks" for k
      using that by (simp add: new_sink_def)
    moreover assume "a = \<lparr>sh = \<lparr>inputQueue = in_start E, outputQueue = out_start E, shutdownToken = new_token,
          sh_metrics = new_metrics,
          heartbeatRegistry = (''producer'', new_heartbeat)
            # map (\<lambda>i. (worker_name i, new_heartbeat)) [0 ..< workerCount (pool (p_cfg E))]
            @ [(''logger'', new_heartbeat)],
          sinks = ks, cerr = []\<rparr>,
        producer_pc = None, worker_pcs = replicate (workerCount (pool (p_cfg E))) None,
        logger_pc = None, watchdog_pc = None, main_pc = MLock, stopped = False, summary = [],
        h_in = [], h_out = [], h_results = [], h_threw = False\<rparr>"
    ultimately show ?thesis
      by (simp add: work_inv_def end_inv_def sink_inv_def at_count_def new_metrics_def dsp_records_def)
  qed
  with application.invar_init [OF init] show ?thesis by (simp add: drain_inv_def)
qed

interpretation drain: invariant_system "app_init E" "app_step E" "drain_inv E" for E
  by unfold_locales (auto intro: drain_inv_init drain_inv_step)

section \<open>The end of a normal run\<close>

text \<open>The states in which \<^verbatim>\<open>run\<close> is past its shutdown and will return success.\<close>

definition run_complete :: "'f app \<Rightarrow> bool" where
  "run_complete a \<longleftrightarrow> main_pc a = MSummary \<or> main_pc a = MExit False"

lemma run_complete_threads:
  assumes "base_inv E a" and "run_complete a"
  shows "producer_pc a = Some PDone" and "logger_pc a = Some LDone"
    and "i < length (worker_pcs a) \<Longrightarrow> worker_pcs a ! i = Some KDone"
proof -
  have inv: "started_inv a" "ended_inv a"
    using assms(1) by (auto simp: base_inv_def phase_inv_def)
  have n: "normal (main_pc a)" "11 \<le> phase (main_pc a)"
    using assms(2) by (auto simp: run_complete_def)
  have p: "producer_pc a \<noteq> None" "logger_pc a \<noteq> None"
    using inv(1) n(1) by (auto simp: started_inv_def)
  show "producer_pc a = Some PDone" "logger_pc a = Some LDone"
    using inv(2) n(2) p by (auto simp: ended_inv_def joinable_now_def)
  show "worker_pcs a ! i = Some KDone" if "i < length (worker_pcs a)"
  proof -
    have "worker_pcs a ! i \<noteq> None" using inv(1) p(1) that by (simp add: started_inv_def)
    moreover have "joinable_now (\<lambda>p. p = KDone) (worker_pcs a ! i)"
      using inv(2) n(2) that by (simp add: ended_inv_def)
    ultimately show ?thesis by (auto simp: joinable_now_def)
  qed
qed

lemma run_complete_sums:
  assumes "base_inv E a" and "run_complete a"
  shows "sum_list (map (inflight A) (worker_pcs a)) = {#}" and "sum_list (map unlogged (worker_pcs a)) = {#}"
proof -
  have none: "inflight A (Some KDone) = 0" "unlogged (Some KDone) = 0" by simp_all
  have "worker_pcs a = replicate (length (worker_pcs a)) (Some KDone)"
    using run_complete_threads(3) [OF assms] by (simp add: list_eq_iff_nth_eq)
  then show "sum_list (map (inflight A) (worker_pcs a)) = {#}" "sum_list (map unlogged (worker_pcs a)) = {#}"
    by (metis none(1) map_replicate sum_list_replicate_zero,
        metis none(2) map_replicate sum_list_replicate_zero)
qed

text \<open>What the drain leaves behind.\<close>

lemma drain_complete:
  assumes "reaches (app_init E) (app_step E) a" and "run_complete a" and "\<not> h_threw a"
    and "0 < workerCount (pool (p_cfg E))"
  shows "q_queue (inputQueue (sh a)) = [] \<and> delivered (h_in a) = accepted (h_in a)
    \<and> mset (h_results a) = image_mset (process (p_arith E)) (mset (accepted (h_in a)))
    \<and> m_signalsProduced (sh_metrics (sh a)) = of_nat (length (accepted (h_in a)))
    \<and> m_signalsProcessed (sh_metrics (sh a)) = m_signalsProduced (sh_metrics (sh a))"
proof -
  have base: "base_inv E a" and work: "work_inv E a" and fin: "end_inv a"
    using drain.reaches_invar [OF assms(1)] assms(3) by (auto simp: drain_inv_def)
  have len: "0 < length (worker_pcs a)"
    using base assms(4) by (simp add: base_inv_def phase_inv_def closed_inv_def)
  then have empty: "q_queue (inputQueue (sh a)) = []"
    using fin run_complete_threads(3) [OF base assms(2), of 0] by (auto simp: end_inv_def seen_end_def)
  have "run_ops (map fst (h_in a)) (in_start E) = Some (h_in a, inputQueue (sh a))" "wf_tsq (in_start E)"
    using base by (simp_all add: base_inv_def trace_inv_def)
  from run_ops_history [OF this] empty have del: "delivered (h_in a) = accepted (h_in a)"
    by (auto simp: in_start_def)
  moreover have results: "mset (h_results a) = image_mset (process (p_arith E)) (mset (accepted (h_in a)))"
    using work run_complete_sums(1) [OF base assms(2)] del by (simp add: work_inv_def)
  moreover have "m_signalsProduced (sh_metrics (sh a)) = of_nat (length (accepted (h_in a)))"
    using work run_complete_threads(1) [OF base assms(2)] by (simp add: work_inv_def at_count_def)
  moreover have "length (h_results a) = length (accepted (h_in a))"
    using results by (metis size_image_mset size_mset)
  ultimately show ?thesis
    using empty work by (simp add: work_inv_def)
qed

text \<open>C1: The ordered drain loses no signal. When the program completes a normal run in which no
  thread was ended by an exception, and the pool has a worker, the input queue is empty, every
  signal that was accepted has been delivered, in order, and has been processed exactly once, and
  both counters in the summary are the number of signals accepted, modulo 2^64.\<close>

theorem signals_drained:
  assumes "reaches (app_init E) (app_step E) a" and "run_complete a" and "\<not> h_threw a"
    and "0 < workerCount (pool (p_cfg E))"
  shows "q_queue (inputQueue (sh a)) = [] \<and> delivered (h_in a) = accepted (h_in a)
    \<and> mset (h_results a) = image_mset (process (p_arith E)) (mset (accepted (h_in a)))
    \<and> m_signalsProduced (sh_metrics (sh a)) = of_nat (length (accepted (h_in a)))
    \<and> m_signalsProcessed (sh_metrics (sh a)) = m_signalsProduced (sh_metrics (sh a))"
  using assms by (rule drain_complete)

theorem signals_drained_witness:
  "\<exists>a. reaches (app_init demo) (app_step demo) a \<and> accepted (h_in a) = [demo_signal]
     \<and> mset (h_results a) = {#process (p_arith demo) demo_signal#}
     \<and> m_signalsProduced (sh_metrics (sh a)) = 1 \<and> m_signalsProcessed (sh_metrics (sh a)) = 1"
proof -
  obtain a where a: "reaches (app_init demo) (app_step demo) a" "main_pc a = MExit False"
    "\<not> h_threw a" "accepted (h_in a) = [demo_signal]"
    by (rule demo_reaches)
  have "run_complete a" using a(2) by (simp add: run_complete_def)
  from signals_drained [OF a(1) this a(3)] a(1,4) show ?thesis
    by (intro exI [of _ a]) simp
qed

text \<open>C2: The log is complete. At the end of such a run, every processed signal has put exactly one
  record into the log queue; what the queue accepted is what the logger took from it and what was
  evicted, in order, with every eviction counted; and every sink holds exactly the formatted lines
  of what the logger took, in order and flushed.\<close>

theorem log_drained:
  assumes "reaches (app_init E) (app_step E) a" and "run_complete a" and "\<not> h_threw a"
  shows "image_mset toLogRecord (mset (h_results a)) =
      mset (filter (\<lambda>r. lr_source r = Dsp) (accepted (h_out a)))
    \<and> (\<exists>evicted. accepted (h_out a) \<in> shuffles (delivered (h_out a)) evicted
        \<and> droppedCount (outputQueue (sh a)) = of_nat (length evicted))
    \<and> (\<forall>k \<in> set (sinks (sh a)).
         sink_lines k = map (formatLine (p_show E)) (delivered (h_out a))
       \<and> sink_flushed k = length (sink_lines k))"
proof -
  have base: "base_inv E a" and work: "work_inv E a" and fin: "end_inv a" and snk: "sink_inv E a"
    using drain.reaches_invar [OF assms(1)] assms(3) by (auto simp: drain_inv_def)
  note lg = run_complete_threads(2) [OF base assms(2)]
  have empty: "q_queue (outputQueue (sh a)) = []"
    using fin lg by (simp add: end_inv_def seen_end_def)
  have run: "run_ops (map fst (h_out a)) (out_start E) = Some (h_out a, outputQueue (sh a))" "wf_tsq (out_start E)"
    using base by (simp_all add: base_inv_def trace_inv_def)
  have "rejected False (h_out a) = 0"
    using drop_oldest_no_rejection [OF run(1)] by (simp add: out_start_def)
  with run_ops_history [OF run] empty
  have "\<exists>evicted. accepted (h_out a) \<in> shuffles (delivered (h_out a)) evicted
      \<and> droppedCount (outputQueue (sh a)) = of_nat (length evicted)"
    by (auto simp: out_start_def droppedCount_def)
  moreover have "image_mset toLogRecord (mset (h_results a)) = dsp_records (accepted (h_out a))"
    using work run_complete_sums(2) [OF base assms(2)] by (simp add: work_inv_def)
  moreover have "sink_lines k = map (formatLine (p_show E)) (delivered (h_out a))
      \<and> sink_flushed k = length (sink_lines k)" if "k \<in> set (sinks (sh a))" for k
    using that snk lg by (auto simp: sink_inv_def in_set_conv_nth)
  ultimately show ?thesis by (simp add: dsp_records_def)
qed

theorem log_drained_witness:
  "\<exists>a. reaches (app_init demo) (app_step demo) a \<and> length (delivered (h_out a)) = 1
     \<and> length (sinks (sh a)) = 1
     \<and> sink_lines (sinks (sh a) ! 0) = map (formatLine (p_show demo)) (delivered (h_out a))"
proof -
  obtain a where a: "reaches (app_init demo) (app_step demo) a" "main_pc a = MExit False"
    "\<not> h_threw a" "length (delivered (h_out a)) = 1" "length (sinks (sh a)) = 1"
    by (rule demo_reaches)
  have "run_complete a" using a(2) by (simp add: run_complete_def)
  from log_drained [OF a(1) this a(3)] have
    "\<forall>k \<in> set (sinks (sh a)). sink_lines k = map (formatLine (p_show demo)) (delivered (h_out a))"
    by blast
  moreover have "sinks (sh a) ! 0 \<in> set (sinks (sh a))" using a(5) by simp
  ultimately show ?thesis using a by blast
qed

end
