(* ===== verification/Pipeline_Spec.thy ===== *)
theory Pipeline_Spec
  imports Application_Drain "HOL-Library.Sublist"
begin

text \<open>
  What the application promises, without its threads: a pipeline with a bounded buffer of signals
  in order, a bag of signals being worked on, the results in the order they were counted, a bag of
  records not yet handed over, a bounded log buffer that drops its oldest record, and the records
  the logger has taken. Every step of the program is a step of this specification or changes
  nothing in it, whether or not threads are ended by exceptions.
\<close>

section \<open>Simulation\<close>

locale simulation = invariant_system +
  fixes ainit :: "'t \<Rightarrow> bool" and astep :: "'t \<Rightarrow> 't \<Rightarrow> bool" and abs :: "'s \<Rightarrow> 't"
  assumes sim_init: "init s \<Longrightarrow> ainit (abs s)"
    and sim_step: "step s t \<Longrightarrow> invar s \<Longrightarrow> abs t = abs s \<or> astep (abs s) (abs t)"
begin

lemma reaches_abs: "reaches init step s \<Longrightarrow> reaches ainit astep (abs s)"
proof (induction rule: reaches.induct)
  case (reaches_init s)
  then show ?case by (blast intro: sim_init reaches.reaches_init)
next
  case (reaches_step s t)
  with sim_step [OF reaches_step(2)] reaches_invar [OF reaches_step(1)] show ?case
    by (auto intro: reaches.reaches_step)
qed

end

section \<open>The specification\<close>

record 'f pipeline =
  pi_accepted :: "'f radar_signal list"
  pi_buffer :: "'f radar_signal list"
  pi_open :: bool
  pi_working :: "'f processed_signal multiset"
  pi_results :: "'f processed_signal list"
  pi_unlogged :: "'f log_record multiset"
  pi_records :: "'f log_record list"
  pi_log_open :: bool
  pi_logged :: "'f log_record list"

definition pipeline_start :: "'f pipeline" where
  "pipeline_start = \<lparr>pi_accepted = [], pi_buffer = [], pi_open = True, pi_working = {#}, pi_results = [],
     pi_unlogged = {#}, pi_records = [], pi_log_open = True, pi_logged = []\<rparr>"

definition append_bounded :: "nat \<Rightarrow> 'a \<Rightarrow> 'a list \<Rightarrow> 'a list" where
  "append_bounded n x xs = (if n \<le> length xs then tl xs else xs) @ [x]"

inductive pipeline_step :: "'f arith \<Rightarrow> nat \<Rightarrow> nat \<Rightarrow> 'f pipeline \<Rightarrow> 'f pipeline \<Rightarrow> bool"
  for A :: "'f arith" and incap outcap :: nat where
  pi_accept: "pi_open s \<Longrightarrow> length (pi_buffer s) < incap
     \<Longrightarrow> pipeline_step A incap outcap s
           (s\<lparr>pi_accepted := pi_accepted s @ [sig], pi_buffer := pi_buffer s @ [sig]\<rparr>)"
| pi_take: "pi_buffer s = sig # rest
     \<Longrightarrow> pipeline_step A incap outcap s (s\<lparr>pi_buffer := rest, pi_working := pi_working s + {#process A sig#}\<rparr>)"
| pi_finish: "pi_working s = W + {#res#}
     \<Longrightarrow> pipeline_step A incap outcap s
           (s\<lparr>pi_working := W, pi_results := pi_results s @ [res], pi_unlogged := pi_unlogged s + {#toLogRecord res#}\<rparr>)"
| pi_emit: "pi_log_open s \<Longrightarrow> pi_unlogged s = U + {#r#}
     \<Longrightarrow> pipeline_step A incap outcap s
           (s\<lparr>pi_unlogged := U, pi_records := append_bounded outcap r (pi_records s)\<rparr>)"
| pi_diagnose: "pi_log_open s \<Longrightarrow> lr_source r = Watchdog
     \<Longrightarrow> pipeline_step A incap outcap s (s\<lparr>pi_records := append_bounded outcap r (pi_records s)\<rparr>)"
| pi_log: "pi_records s = r # rest
     \<Longrightarrow> pipeline_step A incap outcap s (s\<lparr>pi_records := rest, pi_logged := pi_logged s @ [r]\<rparr>)"
| pi_close: "pipeline_step A incap outcap s (s\<lparr>pi_open := False\<rparr>)"
| pi_close_log: "pipeline_step A incap outcap s (s\<lparr>pi_log_open := False\<rparr>)"
| pi_lose: "W \<subseteq># pi_working s \<Longrightarrow> U \<subseteq># pi_unlogged s
     \<Longrightarrow> pipeline_step A incap outcap s (s\<lparr>pi_working := W, pi_unlogged := U\<rparr>)"

section \<open>What holds of the specification\<close>

definition pipeline_inv :: "'f arith \<Rightarrow> nat \<Rightarrow> nat \<Rightarrow> 'f pipeline \<Rightarrow> bool" where
  "pipeline_inv A incap outcap s \<longleftrightarrow>
     suffix (pi_buffer s) (pi_accepted s) \<and> length (pi_buffer s) \<le> incap \<and> length (pi_records s) \<le> outcap
   \<and> mset (map (process A) (pi_buffer s)) + pi_working s + mset (pi_results s)
       \<subseteq># mset (map (process A) (pi_accepted s))
   \<and> dsp_records (pi_logged s) + dsp_records (pi_records s) + pi_unlogged s
       \<subseteq># image_mset toLogRecord (mset (pi_results s))"

lemma dsp_records_simps [simp]:
  "dsp_records [] = {#}" "dsp_records (xs @ ys) = dsp_records xs + dsp_records ys"
  "dsp_records (r # rs) = (if lr_source r = Dsp then {#r#} else {#}) + dsp_records rs"
  by (simp_all add: dsp_records_def)

lemma append_bounded_records:
  "dsp_records (append_bounded n r rs) \<subseteq># dsp_records rs + dsp_records [r]"
  by (cases rs) (auto simp: append_bounded_def)

lemma length_append_bounded: "0 < n \<Longrightarrow> length rs \<le> n \<Longrightarrow> length (append_bounded n r rs) \<le> n"
  by (auto simp: append_bounded_def)

lemma pipeline_inv_step:
  assumes "pipeline_step A incap outcap s t" and "0 < outcap" and "pipeline_inv A incap outcap s"
  shows "pipeline_inv A incap outcap t"
  using assms
proof (induction rule: pipeline_step.induct)
  case (pi_accept s sig)
  then show ?case by (auto simp: pipeline_inv_def ac_simps)
next
  case (pi_take s sig rest)
  then show ?case by (auto simp: pipeline_inv_def ac_simps dest: suffix_ConsD)
next
  case (pi_finish s W res)
  then show ?case by (auto simp: pipeline_inv_def ac_simps)
next
  case (pi_emit s U r)
  have "dsp_records (append_bounded outcap r (pi_records s)) \<subseteq># dsp_records (pi_records s) + {#r#}"
    using append_bounded_records [of outcap r "pi_records s"] by (auto elim: subset_mset.order_trans split: if_splits)
  then have "dsp_records (pi_logged s) + dsp_records (append_bounded outcap r (pi_records s)) + U
      \<subseteq># dsp_records (pi_logged s) + dsp_records (pi_records s) + pi_unlogged s"
    using pi_emit(2) by (simp add: add.assoc subset_mset.add_mono)
  from subset_mset.order_trans [OF this] pi_emit show ?case
    by (simp add: pipeline_inv_def length_append_bounded)
next
  case (pi_diagnose s r)
  have "dsp_records (append_bounded outcap r (pi_records s)) \<subseteq># dsp_records (pi_records s)"
    using append_bounded_records [of outcap r "pi_records s"] pi_diagnose(2) by simp
  then have "dsp_records (pi_logged s) + dsp_records (append_bounded outcap r (pi_records s)) + pi_unlogged s
      \<subseteq># dsp_records (pi_logged s) + dsp_records (pi_records s) + pi_unlogged s"
    by (simp add: subset_mset.add_mono)
  from subset_mset.order_trans [OF this] pi_diagnose show ?case
    by (simp add: pipeline_inv_def length_append_bounded)
next
  case (pi_log s r rest)
  then show ?case by (auto simp: pipeline_inv_def ac_simps)
next
  case (pi_lose W s U)
  then show ?case
    by (auto simp: pipeline_inv_def elim!: subset_mset.order_trans [rotated] intro!: subset_mset.add_mono)
qed (simp_all add: pipeline_inv_def)

section \<open>The abstraction\<close>

definition abs_app :: "('e, 'f) params \<Rightarrow> 'f app \<Rightarrow> 'f pipeline" where
  "abs_app E a = \<lparr>pi_accepted = accepted (h_in a), pi_buffer = q_queue (inputQueue (sh a)),
     pi_open = (\<not> q_closed (inputQueue (sh a))),
     pi_working = sum_list (map (inflight (p_arith E)) (worker_pcs a)), pi_results = h_results a,
     pi_unlogged = sum_list (map unlogged (worker_pcs a)), pi_records = q_queue (outputQueue (sh a)),
     pi_log_open = (\<not> q_closed (outputQueue (sh a))), pi_logged = delivered (h_out a)\<rparr>"

text \<open>The queues keep their configuration, and only the watchdog's records are in its hands.\<close>

definition shape_inv :: "('e, 'f) params \<Rightarrow> 'f app \<Rightarrow> bool" where
  "shape_inv E a \<longleftrightarrow> base_inv E a \<and> watchdog_records (watchdog_pc a)"

lemma base_inv_queues:
  assumes "base_inv E a"
  shows "q_policy (inputQueue (sh a)) = Block" "q_capacity (inputQueue (sh a)) = inputCapacity (queues (p_cfg E))"
    "q_policy (outputQueue (sh a)) = DropOldest" "q_capacity (outputQueue (sh a)) = outputCapacity (queues (p_cfg E))"
    "0 < outputCapacity (queues (p_cfg E))"
  using assms run_ops_frame [of "map fst (h_in a)" "in_start E"] run_ops_frame [of "map fst (h_out a)" "out_start E"]
  by (auto simp: base_inv_def trace_inv_def in_start_def out_start_def wf_tsq_def)

lemma shape_inv_step:
  assumes "app_step E a a'" and "shape_inv E a"
  shows "shape_inv E a'"
proof -
  have "watchdog_records (watchdog_pc a')"
    using assms(1)
  proof (cases rule: app_step.cases)
    case (st_watchdog w ev w' s')
    then show ?thesis using watchdog_own_records(1) [OF st_watchdog(3)] assms(2) by (simp add: shape_inv_def)
  next
    case st_main
    then show ?thesis using assms(2) by (cases rule: main_step.cases) (simp_all add: shape_inv_def)
  qed (use assms(2) in \<open>simp_all add: shape_inv_def\<close>)
  then show ?thesis using application.invar_step [OF assms(1)] assms(2) by (simp add: shape_inv_def)
qed

section \<open>Every step is a step of the specification\<close>

text \<open>The queue operations the threads use, in terms of the buffers.\<close>

lemma push_block_effect:
  assumes "push v q = Returns (b, q')" and "q_policy q = Block" and "q_capacity q = n"
  shows "if b then \<not> q_closed q \<and> length (q_queue q) < n \<and> q' = q\<lparr>q_queue := q_queue q @ [v]\<rparr> else q_queue q' = q_queue q \<and> q_closed q' = q_closed q"
  using assms by (auto simp: push_def enqueueLocked_def countDrop_def full_def Let_def split: if_splits)

lemma push_drop_effect:
  assumes "push v q = Returns (b, q')" and "q_policy q = DropOldest" and "q_capacity q = n"
  shows "q_closed q' = q_closed q \<and> (if q_closed q then q_queue q' = q_queue q else q_queue q' = append_bounded n v (q_queue q))"
  using assms by (auto simp: push_def enqueueLocked_def countDrop_def full_def append_bounded_def Let_def split: if_splits)

lemma pop_effect:
  assumes "waitAndPop q = Returns (x, q')"
  shows "q_closed q' = q_closed q \<and> q_queue q = (case x of None \<Rightarrow> [] | Some v \<Rightarrow> [v]) @ q_queue q'"
  using assms by (auto simp: waitAndPop_def popLockedAndNotify_def split: if_splits list.splits)

text \<open>A step of the specification, or none.\<close>

definition simulated :: "('e, 'f) params \<Rightarrow> 'f app \<Rightarrow> 'f app \<Rightarrow> bool" where
  "simulated E a a' \<longleftrightarrow> abs_app E a' = abs_app E a
     \<or> pipeline_step (p_arith E) (inputCapacity (queues (p_cfg E))) (outputCapacity (queues (p_cfg E)))
         (abs_app E a) (abs_app E a')"

lemma simulatedI:
  assumes "pipeline_step (p_arith E) (inputCapacity (queues (p_cfg E))) (outputCapacity (queues (p_cfg E))) (abs_app E a) t"
    and "abs_app E a' = t"
  shows "simulated E a a'"
  using assms by (simp add: simulated_def)

lemma producer_event:
  assumes "producer_step cfg sys draw hb ev (p, s) (p', s')"
  obtains "ev = Tau \<or> ev = Threw" "inputQueue s' = inputQueue s" "outputQueue s' = outputQueue s"
    | sig b where "ev = InQ (Push sig) (Stored b)" "push sig (inputQueue s) = Returns (b, inputQueue s')" "outputQueue s' = outputQueue s"
  using assms by (cases rule: producer_step.cases) (auto simp: step_defs)

lemma logger_event:
  assumes "logger_step cfg sys show_float hb ev (l, s) (l', s')"
  obtains "ev = Tau \<or> ev = Threw" "inputQueue s' = inputQueue s" "outputQueue s' = outputQueue s"
    | x where "ev = OutQ WaitAndPop (Got x)" "waitAndPop (outputQueue s) = Returns (x, outputQueue s')" "inputQueue s' = inputQueue s"
  using assms by (cases rule: logger_step.cases) (auto simp: step_defs)

lemma watchdog_event:
  assumes "watchdog_step cfg sys ev (w, s) (w', s')" and "watchdog_records (Some w)"
  obtains "ev = Tau \<or> ev = Threw" "inputQueue s' = inputQueue s" "outputQueue s' = outputQueue s"
    | r b where "ev = OutQ (Push r) (Stored b)" "push r (outputQueue s) = Returns (b, outputQueue s')"
        "inputQueue s' = inputQueue s" "lr_source r = Watchdog"
  using assms by (cases rule: watchdog_step.cases) (auto simp: step_defs)

lemma simulated_producer:
  assumes "producer_step cfg sys draw hb ev (p, sh a) (p', s')" and "shape_inv E a"
  shows "simulated E a (record_event ev (a\<lparr>producer_pc := Some p', sh := s'\<rparr>))"
  using assms(1)
proof (cases rule: producer_event)
  case 1
  then show ?thesis by (auto simp: simulated_def abs_app_def)
next
  case (2 sig b)
  note q = base_inv_queues [of E a] assms(2)
  from push_block_effect [OF 2(2)] q have eff:
    "if b then \<not> q_closed (inputQueue (sh a)) \<and> length (q_queue (inputQueue (sh a))) < inputCapacity (queues (p_cfg E))
         \<and> inputQueue s' = (inputQueue (sh a))\<lparr>q_queue := q_queue (inputQueue (sh a)) @ [sig]\<rparr>
     else q_queue (inputQueue s') = q_queue (inputQueue (sh a)) \<and> q_closed (inputQueue s') = q_closed (inputQueue (sh a))"
    by (simp add: shape_inv_def)
  show ?thesis
  proof (cases b)
    case True
    with 2 eff show ?thesis
      by (intro simulatedI [OF pi_accept [where s = "abs_app E a" and sig = sig]]) (simp_all add: abs_app_def accepted_append)
  next
    case False
    with 2 eff show ?thesis by (simp add: simulated_def abs_app_def accepted_append)
  qed
qed

lemma simulated_logger:
  assumes "logger_step cfg sys show_float hb ev (l, sh a) (l', s')"
  shows "simulated E a (record_event ev (a\<lparr>logger_pc := Some l', sh := s'\<rparr>))"
  using assms
proof (cases rule: logger_event)
  case 1
  then show ?thesis by (auto simp: simulated_def abs_app_def)
next
  case (2 x)
  note pop = pop_effect [OF 2(2)]
  show ?thesis
  proof (cases x)
    case None
    with 2 pop show ?thesis by (simp add: simulated_def abs_app_def delivered_append)
  next
    case (Some r)
    with 2 pop show ?thesis
      by (intro simulatedI [OF pi_log [where s = "abs_app E a" and r = r and rest = "q_queue (outputQueue s')"]])
        (simp_all add: abs_app_def delivered_append)
  qed
qed

lemma simulated_watchdog:
  assumes "watchdog_step cfg sys ev (w, sh a) (w', s')" and "shape_inv E a" and "watchdog_pc a = Some w"
  shows "simulated E a (record_event ev (a\<lparr>watchdog_pc := Some w', sh := s'\<rparr>))"
proof -
  have "watchdog_records (Some w)" using assms(2,3) by (simp add: shape_inv_def)
  with assms(1) show ?thesis
  proof (cases rule: watchdog_event)
    case 1
    then show ?thesis by (auto simp: simulated_def abs_app_def)
  next
    case (2 r b)
    have "base_inv E a" using assms(2) by (simp add: shape_inv_def)
    note push = push_drop_effect [OF 2(2) base_inv_queues(3,4) [OF this]]
    show ?thesis
    proof (cases "q_closed (outputQueue (sh a))")
      case True
      with 2 push show ?thesis by (simp add: simulated_def abs_app_def delivered_append)
    next
      case False
      with 2 push show ?thesis
        by (intro simulatedI [OF pi_diagnose [where s = "abs_app E a" and r = r]])
          (simp_all add: abs_app_def delivered_append)
    qed
  qed
qed

text \<open>A worker, whose program counter holds the signal or the record it works on.\<close>

lemma worker_event:
  assumes "worker_step cfg sys A hb ev (k, s) (k', s')"
  obtains "ev = Tau" "inputQueue s' = inputQueue s" "outputQueue s' = outputQueue s"
      "inflight A (Some k') = inflight A (Some k)" "unlogged (Some k') = unlogged (Some k)"
    | x where "ev = InQ WaitAndPop (Got x)" "waitAndPop (inputQueue s) = Returns (x, inputQueue s')"
        "outputQueue s' = outputQueue s" "unlogged (Some k') = unlogged (Some k)" "inflight A (Some k) = {#}"
        "inflight A (Some k') = (case x of None \<Rightarrow> {#} | Some sig \<Rightarrow> {#process A sig#})"
    | res where "ev = Counted res" "inputQueue s' = inputQueue s" "outputQueue s' = outputQueue s"
        "inflight A (Some k) = {#res#}" "inflight A (Some k') = {#}" "unlogged (Some k) = {#}" "unlogged (Some k') = {#toLogRecord res#}"
    | r b where "ev = OutQ (Push r) (Stored b)" "push r (outputQueue s) = Returns (b, outputQueue s')" "inputQueue s' = inputQueue s"
        "inflight A (Some k') = inflight A (Some k)" "unlogged (Some k) = {#r#}" "unlogged (Some k') = {#}"
    | "ev = Threw" "inputQueue s' = inputQueue s" "outputQueue s' = outputQueue s"
        "inflight A (Some k') = {#}" "unlogged (Some k') = {#}"
  using assms by (cases rule: worker_step.cases) (auto simp: step_defs)

lemma simulated_worker:
  assumes step: "worker_step cfg sys (p_arith E) hb ev (k, sh a) (k', s')" and inv: "shape_inv E a"
    and i: "i < length (worker_pcs a)" "worker_pcs a ! i = Some k"
  shows "simulated E a (record_event ev (a\<lparr>worker_pcs := (worker_pcs a)[i := Some k'], sh := s'\<rparr>))"
proof -
  let ?A = "p_arith E" and ?pcs = "(worker_pcs a)[i := Some k']"
  have base: "base_inv E a" using inv by (simp add: shape_inv_def)
  have "k \<noteq> KDone" using worker_thread.finished_final step by blast
  note opened = worker_output_open [OF base i this]
  note W = sum_list_update_monoid [OF i(1), of "inflight ?A" "Some k'", unfolded i(2)]
    and U = sum_list_update_monoid [OF i(1), of unlogged "Some k'", unfolded i(2)]
  from step show ?thesis
  proof (cases rule: worker_event)
    case 1
    with W U show ?thesis by (simp add: simulated_def abs_app_def)
  next
    case (2 x)
    note pop = pop_effect [OF 2(2)]
    show ?thesis
    proof (cases x)
      case None
      with 2 pop W U show ?thesis by (simp add: simulated_def abs_app_def accepted_append)
    next
      case (Some sig)
      with 2 pop W U show ?thesis
        by (intro simulatedI [OF pi_take [where s = "abs_app E a" and sig = sig and rest = "q_queue (inputQueue s')"]])
          (simp_all add: abs_app_def accepted_append)
    qed
  next
    case (3 res)
    with W U show ?thesis
      by (intro simulatedI [OF pi_finish [where s = "abs_app E a" and W = "sum_list (map (inflight ?A) ?pcs)" and res = res]])
        (simp_all add: abs_app_def)
  next
    case (4 r b)
    note push = push_drop_effect [OF 4(2) base_inv_queues(3,4) [OF base]]
    with 4 W U opened show ?thesis
      by (intro simulatedI [OF pi_emit [where s = "abs_app E a" and U = "sum_list (map unlogged ?pcs)" and r = r]])
        (simp_all add: abs_app_def delivered_append)
  next
    case 5
    have "sum_list (map (inflight ?A) ?pcs) \<subseteq># sum_list (map (inflight ?A) (worker_pcs a))"
      "sum_list (map unlogged ?pcs) \<subseteq># sum_list (map unlogged (worker_pcs a))"
      using W U 5 by (metis add.right_neutral mset_subset_eq_add_left)+
    with 5 show ?thesis
      by (intro simulatedI [OF pi_lose [where W = "sum_list (map (inflight ?A) ?pcs)" and s = "abs_app E a" and U = "sum_list (map unlogged ?pcs)"]])
        (simp_all add: abs_app_def)
  qed
qed

lemma simulated_main:
  assumes "main_step E a a'" and "shape_inv E a"
  shows "simulated E a a'"
  using assms
proof (induction rule: main_step.induct)
  case (mn_start_worker a i)
  then have "worker_pcs a ! i = None"
    by (auto simp: shape_inv_def base_inv_def phase_inv_def started_inv_def)
  with mn_start_worker sum_list_update_monoid [of i "worker_pcs a" "inflight (p_arith E)" "Some KInit"]
    sum_list_update_monoid [of i "worker_pcs a" unlogged "Some KInit"] show ?case
    by (simp add: simulated_def abs_app_def)
next
  case (mn_close_in a b)
  then show ?case
    by (intro simulatedI [OF pi_close [where s = "abs_app E a"]]) (simp_all add: abs_app_def accepted_append close_def)
next
  case (mn_close_out a b)
  then show ?case
    by (intro simulatedI [OF pi_close_log [where s = "abs_app E a"]]) (simp_all add: abs_app_def delivered_append close_def)
qed (simp_all add: simulated_def abs_app_def step_defs)

lemma shape_inv_init:
  assumes "app_init E a"
  shows "shape_inv E a"
  using application.invar_init [OF assms] assms by (auto simp: shape_inv_def elim: app_init_cases)

lemma simulated_step:
  assumes "app_step E a a'" and "shape_inv E a"
  shows "simulated E a a'"
  using assms(1)
proof (cases rule: app_step.cases)
  case (st_producer p ev p' s')
  then show ?thesis using simulated_producer assms(2) by blast
next
  case (st_worker i k ev k' s')
  then show ?thesis using simulated_worker assms(2) by blast
next
  case (st_logger l ev l' s')
  then show ?thesis using simulated_logger by blast
next
  case (st_watchdog w ev w' s')
  then show ?thesis using simulated_watchdog assms(2) by blast
next
  case st_main
  then show ?thesis using simulated_main assms(2) by blast
qed

interpretation spec: invariant_system "\<lambda>s. s = pipeline_start" "pipeline_step A incap outcap"
  "\<lambda>s. 0 < outcap \<longrightarrow> pipeline_inv A incap outcap s" for A incap outcap
proof unfold_locales
  show "0 < outcap \<longrightarrow> pipeline_inv A incap outcap s" if "s = pipeline_start" for s
    using that by (simp add: pipeline_inv_def pipeline_start_def)
  show "0 < outcap \<longrightarrow> pipeline_inv A incap outcap t"
    if "pipeline_step A incap outcap s t" "0 < outcap \<longrightarrow> pipeline_inv A incap outcap s" for s t
    using that pipeline_inv_step by blast
qed

interpretation refines: simulation "app_init E" "app_step E" "shape_inv E" "\<lambda>s. s = pipeline_start"
  "pipeline_step (p_arith E) (inputCapacity (queues (p_cfg E))) (outputCapacity (queues (p_cfg E)))" "abs_app E" for E
proof unfold_locales
  show "shape_inv E a" if "app_init E a" for a using that by (rule shape_inv_init)
  show "shape_inv E a'" if "app_step E a a'" "shape_inv E a" for a a' using that by (rule shape_inv_step)
  show "abs_app E a = pipeline_start" if "app_init E a" for a
    using that by (rule app_init_cases)
      (simp add: abs_app_def pipeline_start_def in_start_def out_start_def map_replicate)
  show "abs_app E a' = abs_app E a
      \<or> pipeline_step (p_arith E) (inputCapacity (queues (p_cfg E))) (outputCapacity (queues (p_cfg E))) (abs_app E a) (abs_app E a')"
    if "app_step E a a'" "shape_inv E a" for a a'
    using simulated_step [OF that] by (simp add: simulated_def)
qed

section \<open>What the program inherits\<close>

text \<open>C8: The threaded program refines the sequential pipeline. Whatever the scheduler does and whichever
  threads are ended by exceptions, the queues, the signals being processed, the results and the
  records of every reachable state are those of a run of the pipeline specification, from its empty
  state, with the configured capacities and the program's own signal processing.\<close>

theorem application_refines_pipeline:
  assumes "reaches (app_init E) (app_step E) a"
  shows "reaches (\<lambda>s. s = pipeline_start)
    (pipeline_step (p_arith E) (inputCapacity (queues (p_cfg E))) (outputCapacity (queues (p_cfg E)))) (abs_app E a)"
  using assms by (rule refines.reaches_abs)

theorem application_refines_pipeline_witness:
  "\<exists>a. accepted (h_in a) = [demo_signal] \<and> length (delivered (h_out a)) = 1
     \<and> reaches (\<lambda>s. s = pipeline_start)
         (pipeline_step (p_arith demo) (inputCapacity (queues (p_cfg demo))) (outputCapacity (queues (p_cfg demo))))
         (abs_app demo a)"
proof -
  obtain a where a: "reaches (app_init demo) (app_step demo) a" "accepted (h_in a) = [demo_signal]"
    "length (delivered (h_out a)) = 1"
    by (rule demo_reaches)
  with application_refines_pipeline [OF a(1)] show ?thesis by blast
qed

lemma reachable_pipeline_inv:
  assumes "reaches (app_init E) (app_step E) a"
  shows "pipeline_inv (p_arith E) (inputCapacity (queues (p_cfg E))) (outputCapacity (queues (p_cfg E))) (abs_app E a)"
proof -
  have "0 < outputCapacity (queues (p_cfg E))" using application.reaches_invar [OF assms] by (rule base_inv_queues(5))
  with spec.reaches_invar [OF refines.reaches_abs [OF assms]] show ?thesis by blast
qed

lemma results_from_accepted:
  assumes "reaches (app_init E) (app_step E) a"
  shows "mset (map (process (p_arith E)) (q_queue (inputQueue (sh a)))) + mset (h_results a)
    \<subseteq># mset (map (process (p_arith E)) (accepted (h_in a)))"
  using reachable_pipeline_inv [OF assms]
  by (auto simp: pipeline_inv_def abs_app_def intro: subset_mset.order_trans [rotated])

text \<open>C9: Nothing is invented, duplicated or reordered, at any moment and also after exceptions: the input
  queue holds the last signals it accepted, in order; both queues are within their capacities; the
  results, each counted with its multiplicity, are results of signals that were accepted and are no
  longer in the queue; and the processing records the logger has taken or that wait in the log queue
  are records of counted results.\<close>

theorem nothing_invented_or_duplicated:
  assumes "reaches (app_init E) (app_step E) a"
  shows "suffix (q_queue (inputQueue (sh a))) (accepted (h_in a))
    \<and> length (q_queue (inputQueue (sh a))) \<le> inputCapacity (queues (p_cfg E))
    \<and> length (q_queue (outputQueue (sh a))) \<le> outputCapacity (queues (p_cfg E))
    \<and> mset (h_results a) + image_mset (process (p_arith E)) (mset (q_queue (inputQueue (sh a))))
        \<subseteq># image_mset (process (p_arith E)) (mset (accepted (h_in a)))
    \<and> mset (filter (\<lambda>r. lr_source r = Dsp) (delivered (h_out a) @ q_queue (outputQueue (sh a))))
        \<subseteq># image_mset toLogRecord (mset (h_results a))"
proof -
  note inv = reachable_pipeline_inv [OF assms] and results = results_from_accepted [OF assms]
  moreover have "dsp_records (delivered (h_out a)) + dsp_records (q_queue (outputQueue (sh a)))
      \<subseteq># image_mset toLogRecord (mset (h_results a))"
    using inv by (auto simp: pipeline_inv_def abs_app_def intro: subset_mset.order_trans [rotated])
  ultimately show ?thesis
    using inv by (simp add: pipeline_inv_def abs_app_def dsp_records_def ac_simps)
qed

theorem nothing_invented_or_duplicated_witness:
  "\<exists>a. reaches (app_init demo) (app_step demo) a \<and> accepted (h_in a) = [demo_signal]
     \<and> length (delivered (h_out a)) = 1 \<and> mset (h_results a) \<subseteq># {#process (p_arith demo) demo_signal#}"
proof -
  obtain a where a: "reaches (app_init demo) (app_step demo) a" "accepted (h_in a) = [demo_signal]"
    "length (delivered (h_out a)) = 1"
    by (rule demo_reaches)
  have "mset (h_results a) \<subseteq># image_mset (process (p_arith demo)) (mset (accepted (h_in a)))"
    using nothing_invented_or_duplicated [OF a(1)] subset_mset.order_trans [OF mset_subset_eq_add_left] by blast
  with a show ?thesis by (intro exI [of _ a]) simp
qed

end
