(* ===== verification/Application_Report.thy ===== *)
theory Application_Report
  imports Pipeline_Spec
begin

text \<open>
  Typing invariants of the whole program, which C++ gets from \<^verbatim>\<open>std::array\<close> and from references and
  the model has to establish for lists and indices, and the truth of the final summary.
\<close>

section \<open>The signals in the program\<close>

fun producer_signals :: "'f ppc option \<Rightarrow> 'f radar_signal list" where
  "producer_signals (Some (PPush nd sig)) = [sig]"
| "producer_signals _ = []"

fun worker_signals :: "'f kpc option \<Rightarrow> 'f radar_signal list" where
  "worker_signals (Some (KDepth sig)) = [sig]"
| "worker_signals (Some (KStoreDepth sig d)) = [sig]"
| "worker_signals (Some (KRun sig)) = [sig]"
| "worker_signals (Some (KProcess sig)) = [sig]"
| "worker_signals _ = []"

definition signals_in :: "'f app \<Rightarrow> 'f radar_signal set" where
  "signals_in a = set (accepted (h_in a)) \<union> set (producer_signals (producer_pc a))
     \<union> (\<Union>k \<in> set (worker_pcs a). set (worker_signals k))"

text \<open>Every signal is one that the producer's engine can generate.\<close>

definition from_engine :: "('e \<Rightarrow> 'f \<times> 'e) \<Rightarrow> 'f radar_signal \<Rightarrow> bool" where
  "from_engine draw sig \<longleftrightarrow> (\<exists>t e e'. generateSignal draw t e = (sig, e'))"

definition heartbeat_names :: "('e, 'f) params \<Rightarrow> string list" where
  "heartbeat_names E = ''producer'' # map worker_name [0 ..< workerCount (pool (p_cfg E))] @ [''logger'']"

lemma resumed_signals [simp]:
  "producer_signals (Some (producer_resume x)) = []" "worker_signals (Some (worker_resume x)) = []"
  by (cases x; simp)+

lemma from_engine_full: "from_engine draw sig \<Longrightarrow> length (sig_samples sig) = kRadarSampleCount"
  using generateSignal_shape [of draw] by (auto simp: from_engine_def)

lemma beat_names [simp]: "map fst (beat i f reg) = map fst reg"
  by (cases "i < length reg") (simp_all add: beat_def map_update list_update_same_conv list_update_beyond)

text \<open>No thread of the pipeline makes a signal that is not the engine's, and none renames a heartbeat.\<close>

lemma producer_makes_signals:
  assumes "producer_step cfg sys draw hb ev (p, s) (p', s')"
  shows "\<forall>sig \<in> set (producer_signals (Some p')). from_engine draw sig"
  using assms by (cases rule: producer_step.cases) (auto simp: from_engine_def)

lemma producer_pushes_own:
  assumes "producer_step cfg sys draw hb ev (p, s) (p', s')" and "ev = InQ (Push sig) r"
  shows "sig \<in> set (producer_signals (Some p))"
  using assms by (cases rule: producer_step.cases) simp_all

lemma worker_takes_queued:
  assumes "worker_step cfg sys A hb ev (k, s) (k', s')"
  shows "set (worker_signals (Some k')) \<subseteq> set (worker_signals (Some k)) \<union> set (q_queue (inputQueue s))"
  using assms by (cases rule: worker_step.cases) (auto dest: pop_effect)

lemma names_step:
  "producer_step cfg sys draw hb ev (p, s) (p', s') \<Longrightarrow> map fst (heartbeatRegistry s') = map fst (heartbeatRegistry s)"
  "worker_step cfg sys A hb ev (k, s) (k', s') \<Longrightarrow> map fst (heartbeatRegistry s') = map fst (heartbeatRegistry s)"
  "logger_step cfg sys show_float hb ev (l, s) (l', s') \<Longrightarrow> map fst (heartbeatRegistry s') = map fst (heartbeatRegistry s)"
  "watchdog_step cfg sys ev (w, s) (w', s') \<Longrightarrow> map fst (heartbeatRegistry s') = map fst (heartbeatRegistry s)"
  by (erule producer_step.cases worker_step.cases logger_step.cases watchdog_step.cases; simp add: step_defs)+

lemma accepted_push: "x \<in> set (accepted [(Push v, Stored b)]) \<Longrightarrow> x = v"
  by (cases b) simp_all

lemma queued_accepted:
  assumes "base_inv E a"
  shows "set (q_queue (inputQueue (sh a))) \<subseteq> set (accepted (h_in a))"
proof -
  have "run_ops (map fst (h_in a)) (in_start E) = Some (h_in a, inputQueue (sh a))" "wf_tsq (in_start E)"
    using assms by (simp_all add: base_inv_def trace_inv_def)
  from run_ops_history [OF this] show ?thesis by (auto simp: in_start_def)
qed

definition typed_inv :: "('e, 'f) params \<Rightarrow> 'f app \<Rightarrow> bool" where
  "typed_inv E a \<longleftrightarrow> base_inv E a \<and> (\<forall>sig \<in> signals_in a. from_engine (p_draw E) sig)
     \<and> map fst (heartbeatRegistry (sh a)) = heartbeat_names E"

lemma typed_inv_init: "app_init E a \<Longrightarrow> typed_inv E a"
  using application.invar_init [of E a]
  by (auto simp: typed_inv_def signals_in_def heartbeat_names_def comp_def elim!: app_init_cases)

lemma typed_inv_step:
  assumes "app_step E a a'" and "typed_inv E a"
  shows "typed_inv E a'"
proof -
  have inv: "base_inv E a" "\<forall>sig \<in> signals_in a. from_engine (p_draw E) sig" "map fst (heartbeatRegistry (sh a)) = heartbeat_names E"
    using assms(2) by (auto simp: typed_inv_def)
  have "(\<forall>sig \<in> signals_in a'. from_engine (p_draw E) sig) \<and> map fst (heartbeatRegistry (sh a')) = heartbeat_names E"
    using assms(1)
  proof (cases rule: app_step.cases)
    case (st_producer p ev p' s')
    have "set (accepted (h_in a')) \<subseteq> set (accepted (h_in a)) \<union> set (producer_signals (producer_pc a))"
      using producer_pushes_own [OF st_producer(3)] st_producer
      by (cases rule: producer_event [OF st_producer(3)]) (auto simp: accepted_append dest: accepted_push)
    then show ?thesis
      using st_producer producer_makes_signals [OF st_producer(3)] names_step(1) [OF st_producer(3)] inv(2,3)
      by (auto simp: signals_in_def)
  next
    case (st_worker i k ev k' s')
    have "accepted (h_in a') = accepted (h_in a)"
      using st_worker by (cases rule: worker_event [OF st_worker(4)]) (auto simp: accepted_append)
    moreover have "set (worker_signals (Some k)) \<subseteq> signals_in a"
      using nth_mem [OF st_worker(2)] st_worker(3) by (auto simp: signals_in_def)
    moreover have "set (worker_pcs a') \<subseteq> insert (Some k') (set (worker_pcs a))"
      using st_worker(1) by (simp add: set_update_subset_insert)
    ultimately show ?thesis
      using st_worker(1) worker_takes_queued [OF st_worker(4)] queued_accepted [OF inv(1)]
        names_step(2) [OF st_worker(4)] inv(2,3)
      by (fastforce simp: signals_in_def)
  next
    case (st_logger l ev l' s')
    then show ?thesis
      using names_step(3) [OF st_logger(3)] inv(2,3)
      by (cases rule: logger_event [OF st_logger(3)]) (auto simp: signals_in_def)
  next
    case (st_watchdog w ev w' s')
    have "h_in a' = h_in a" using st_watchdog(3,1) by (cases rule: watchdog_step.cases) auto
    then show ?thesis using st_watchdog names_step(4) [OF st_watchdog(3)] inv(2,3) by (simp add: signals_in_def)
  next
    case st_main
    then show ?thesis
      using inv(2,3) set_update_subset_insert [of "worker_pcs a" _ "Some KInit"]
      by (cases rule: main_step.cases) (fastforce simp: signals_in_def step_defs accepted_append)+
  qed
  with application.invar_step [OF assms(1) inv(1)] show ?thesis by (simp add: typed_inv_def)
qed

interpretation typed: invariant_system "app_init E" "app_step E" "typed_inv E" for E
  by unfold_locales (auto intro: typed_inv_init typed_inv_step)

section \<open>The counters of the summary\<close>

fun read_drops :: "'f ppc option \<Rightarrow> u64" where
  "read_drops (Some (PStoreDrops nd n)) = n"
| "read_drops _ = 0"

lemma read_drops_resume [simp]: "read_drops (Some (producer_resume x)) = 0"
  by (cases x) simp_all

definition counter_inv :: "('e, 'f) params \<Rightarrow> 'f app \<Rightarrow> bool" where
  "counter_inv E a \<longleftrightarrow> base_inv E a \<and> droppedCount (inputQueue (sh a)) = 0 \<and> read_drops (producer_pc a) = 0
     \<and> inputDrops (sh_metrics (sh a)) = 0 \<and> (\<not> h_threw a \<longrightarrow> threadExceptions (sh_metrics (sh a)) = 0)
     \<and> (main_pc a = MExit False \<longrightarrow> summary a = reportSummary (sh_metrics (sh a)))"

lemma quiet_steps:
  "producer_step cfg sys draw hb ev (p, s) (p', s')
     \<Longrightarrow> (droppedCount (inputQueue s) = 0 \<longrightarrow> read_drops (Some p') = 0 \<and> droppedCount (inputQueue s') = 0)
       \<or> q_policy (inputQueue s) \<noteq> Block"
  "producer_step cfg sys draw hb ev (p, s) (p', s')
     \<Longrightarrow> inputDrops (sh_metrics s') = inputDrops (sh_metrics s) \<or> inputDrops (sh_metrics s') = read_drops (Some p)"
  "worker_step cfg sys A hb ev (k, s) (k', s') \<Longrightarrow> inputDrops (sh_metrics s') = inputDrops (sh_metrics s)
       \<and> droppedCount (inputQueue s') = droppedCount (inputQueue s)"
  "logger_step cfg sys show_float hb ev (l, s) (l', s') \<Longrightarrow> inputDrops (sh_metrics s') = inputDrops (sh_metrics s)
       \<and> droppedCount (inputQueue s') = droppedCount (inputQueue s)"
  "watchdog_step cfg sys ev (w, s) (w', s') \<Longrightarrow> inputDrops (sh_metrics s') = inputDrops (sh_metrics s)
       \<and> droppedCount (inputQueue s') = droppedCount (inputQueue s)"
proof -
  assume "producer_step cfg sys draw hb ev (p, s) (p', s')"
  then show "(droppedCount (inputQueue s) = 0 \<longrightarrow> read_drops (Some p') = 0 \<and> droppedCount (inputQueue s') = 0)
       \<or> q_policy (inputQueue s) \<noteq> Block"
    by (cases rule: producer_step.cases)
      (auto simp: step_defs push_def enqueueLocked_def full_def droppedCount_def Let_def split: if_splits)
next
  assume "producer_step cfg sys draw hb ev (p, s) (p', s')"
  then show "inputDrops (sh_metrics s') = inputDrops (sh_metrics s) \<or> inputDrops (sh_metrics s') = read_drops (Some p)"
    by (cases rule: producer_step.cases) (simp_all add: step_defs metrics_simps inputDrops_def)
next
  assume "worker_step cfg sys A hb ev (k, s) (k', s')"
  then show "inputDrops (sh_metrics s') = inputDrops (sh_metrics s) \<and> droppedCount (inputQueue s') = droppedCount (inputQueue s)"
    by (cases rule: worker_step.cases)
      (auto simp: step_defs metrics_simps inputDrops_def waitAndPop_def popLockedAndNotify_def droppedCount_def split: if_splits list.splits)
next
  assume "logger_step cfg sys show_float hb ev (l, s) (l', s')"
  then show "inputDrops (sh_metrics s') = inputDrops (sh_metrics s) \<and> droppedCount (inputQueue s') = droppedCount (inputQueue s)"
    by (cases rule: logger_step.cases) (simp_all add: step_defs metrics_simps inputDrops_def)
next
  assume "watchdog_step cfg sys ev (w, s) (w', s')"
  then show "inputDrops (sh_metrics s') = inputDrops (sh_metrics s) \<and> droppedCount (inputQueue s') = droppedCount (inputQueue s)"
    by (cases rule: watchdog_step.cases) (auto simp: step_defs metrics_simps inputDrops_def)
qed

text \<open>Only an exception counts as one.\<close>

lemma exceptions_counted:
  "producer_step cfg sys draw hb ev (p, s) (p', s') \<Longrightarrow> ev \<noteq> Threw
     \<Longrightarrow> threadExceptions (sh_metrics s') = threadExceptions (sh_metrics s)"
  "worker_step cfg sys A hb ev (k, s) (k', s') \<Longrightarrow> ev \<noteq> Threw
     \<Longrightarrow> threadExceptions (sh_metrics s') = threadExceptions (sh_metrics s)"
  "logger_step cfg sys show_float hb ev (l, s) (l', s') \<Longrightarrow> ev \<noteq> Threw
     \<Longrightarrow> threadExceptions (sh_metrics s') = threadExceptions (sh_metrics s)"
  "watchdog_step cfg sys ev (w, s) (w', s') \<Longrightarrow> ev \<noteq> Threw
     \<Longrightarrow> threadExceptions (sh_metrics s') = threadExceptions (sh_metrics s)"
  by (erule producer_step.cases worker_step.cases logger_step.cases watchdog_step.cases;
      auto simp: step_defs metrics_simps threadExceptions_def)+

text \<open>Once the main thread has returned, nothing moves.\<close>

lemma exited_final:
  assumes "base_inv E a" and "main_pc a = MExit b"
  shows "\<not> app_step E a a'"
proof
  assume "app_step E a a'"
  have ended: "joinable_now (\<lambda>p. p = PDone) (producer_pc a)" "joinable_now (\<lambda>p. p = LDone) (logger_pc a)"
    "joinable_now (\<lambda>p. p = WdDone) (watchdog_pc a)"
    "\<forall>j < length (worker_pcs a). joinable_now (\<lambda>p. p = KDone) (worker_pcs a ! j)"
    using assms by (simp_all add: base_inv_def phase_inv_def ended_inv_def)
  from \<open>app_step E a a'\<close> show False
  proof (cases rule: app_step.cases)
    case st_main
    then show ?thesis using assms(2) by (cases rule: main_step.cases) simp_all
  qed (use ended producer_thread.finished_final worker_thread.finished_final logger_thread.finished_final
        watchdog_thread.finished_final in \<open>fastforce simp: joinable_now_def\<close>)+
qed

lemma counter_inv_init: "app_init E a \<Longrightarrow> counter_inv E a"
  using application.invar_init [of E a]
  by (auto simp: counter_inv_def in_start_def droppedCount_def new_metrics_def metrics_loads elim!: app_init_cases)

lemma counter_inv_step:
  assumes "app_step E a a'" and "counter_inv E a"
  shows "counter_inv E a'"
proof -
  have base: "base_inv E a" using assms(2) by (simp add: counter_inv_def)
  then have running: "main_pc a \<noteq> MExit False" using exited_final assms(1) by blast
  have policy: "q_policy (inputQueue (sh a)) = Block" using base by (rule base_inv_queues(1))
  have base': "base_inv E a'" using application.invar_step [OF assms(1) base] .
  show ?thesis
    using assms(1)
  proof (cases rule: app_step.cases)
    case (st_producer p ev p' s')
    then show ?thesis
      using quiet_steps(1,2) [OF st_producer(3)] exceptions_counted(1) [OF st_producer(3)] policy base' running assms(2)
      by (auto simp: counter_inv_def record_event_histories)
  next
    case (st_worker i k ev k' s')
    then show ?thesis
      using quiet_steps(3) [OF st_worker(4)] exceptions_counted(2) [OF st_worker(4)] base' running assms(2)
      by (auto simp: counter_inv_def record_event_histories)
  next
    case (st_logger l ev l' s')
    then show ?thesis
      using quiet_steps(4) [OF st_logger(3)] exceptions_counted(3) [OF st_logger(3)] base' running assms(2)
      by (auto simp: counter_inv_def record_event_histories)
  next
    case (st_watchdog w ev w' s')
    then show ?thesis
      using quiet_steps(5) [OF st_watchdog(3)] exceptions_counted(4) [OF st_watchdog(3)] base' running assms(2)
      by (auto simp: counter_inv_def record_event_histories)
  next
    case st_main
    then show ?thesis
      using base' assms(2)
      by (cases rule: main_step.cases) (auto simp: counter_inv_def step_defs close_def droppedCount_def)
  qed
qed

interpretation counters: invariant_system "app_init E" "app_step E" "counter_inv E" for E
  by unfold_locales (auto intro: counter_inv_init counter_inv_step)

lemma small_numbers: "string_of_nat 0 = ''0''" "string_of_nat 1 = ''1''" "worker_name 0 = ''dsp-worker-0''"
  by code_simp+

section \<open>Properties\<close>

text \<open>
  Every reachable state is well-typed: each signal has exactly \<^verbatim>\<open>kRadarSampleCount\<close> samples, so the
  processing never reads outside a list; the pool has as many workers as configured; and the registry
  keeps the heartbeats of construction under their names, so the index each thread was given stays
  valid.
\<close>

lemma reachable_states_well_typed:
  assumes "reaches (app_init E) (app_step E) a"
  shows "(\<forall>sig \<in> set (q_queue (inputQueue (sh a))) \<union> signals_in a. length (sig_samples sig) = kRadarSampleCount)
    \<and> length (worker_pcs a) = workerCount (pool (p_cfg E))
    \<and> map fst (heartbeatRegistry (sh a))
        = ''producer'' # map worker_name [0 ..< workerCount (pool (p_cfg E))] @ [''logger'']
    \<and> logger_hb E < registry_size (heartbeatRegistry (sh a))
    \<and> (\<forall>i < length (worker_pcs a). map fst (heartbeatRegistry (sh a)) ! worker_hb i = worker_name i)"
proof -
  have inv: "typed_inv E a" using typed.reaches_invar [OF assms] .
  then have base: "base_inv E a" and names: "map fst (heartbeatRegistry (sh a)) = heartbeat_names E"
    by (simp_all add: typed_inv_def)
  have workers: "length (worker_pcs a) = workerCount (pool (p_cfg E))"
    using base by (simp add: base_inv_def phase_inv_def closed_inv_def)
  have "set (q_queue (inputQueue (sh a))) \<subseteq> signals_in a"
    using queued_accepted [OF base] by (auto simp: signals_in_def)
  then have "\<forall>sig \<in> set (q_queue (inputQueue (sh a))) \<union> signals_in a. length (sig_samples sig) = kRadarSampleCount"
    using inv by (auto simp: typed_inv_def intro: from_engine_full)
  moreover have "length (heartbeatRegistry (sh a)) = workerCount (pool (p_cfg E)) + 2"
    using arg_cong [OF names, of length] by (simp add: heartbeat_names_def)
  moreover have "heartbeat_names E ! worker_hb i = worker_name i" if "i < length (worker_pcs a)" for i
    using that workers by (simp add: heartbeat_names_def worker_hb_def nth_append)
  ultimately show ?thesis
    using workers names by (simp add: heartbeat_names_def logger_hb_def registry_size_def)
qed

text \<open>C24: The summary tells the run. After a normal run without thread exceptions, and with a worker in the
  pool, the printed summary shows the number of accepted signals (modulo 2^64) as both produced and
  processed, no input drops and no thread exceptions, and for the rest the final values of the
  metrics.\<close>

theorem summary_tells_the_run:
  assumes "reaches (app_init E) (app_step E) a" and "main_pc a = MExit False" and "\<not> h_threw a"
    and "0 < workerCount (pool (p_cfg E))"
  shows "let n = string_of_nat (length (accepted (h_in a)) mod 2 ^ 64); m = sh_metrics (sh a) in
    summary a =
     [''[radar] shutdown summary:'',
      ''  signals produced  : '' @ n,
      ''  signals processed : '' @ n,
      ''  input drops       : 0'',
      ''  log-record drops  : '' @ string_of_u64 (logDrops m),
      ''  deadline misses   : '' @ string_of_u64 (deadlineMisses m),
      ''  watchdog stalls   : '' @ string_of_u64 (watchdogStalls m),
      ''  thread exceptions : 0'']"
proof -
  have "run_complete a" using assms(2) by (simp add: run_complete_def)
  from drain_complete [OF assms(1) this assms(3,4)]
  have "signalsProduced (sh_metrics (sh a)) = of_nat (length (accepted (h_in a)))"
    "signalsProcessed (sh_metrics (sh a)) = of_nat (length (accepted (h_in a)))"
    by (simp_all add: metrics_loads)
  moreover have "summary a = reportSummary (sh_metrics (sh a))" "inputDrops (sh_metrics (sh a)) = 0"
    "threadExceptions (sh_metrics (sh a)) = 0"
    using counters.reaches_invar [OF assms(1)] assms(2,3) by (simp_all add: counter_inv_def)
  moreover have "string_of_u64 0 = ''0''"
    by (simp add: string_of_u64_def small_numbers)
  ultimately show ?thesis
    by (simp add: reportSummary_def string_of_u64_def unat_of_nat Let_def)
qed

theorem summary_tells_the_run_witness:
  "\<exists>a. reaches (app_init demo) (app_step demo) a
     \<and> take 4 (summary a) = [''[radar] shutdown summary:'', ''  signals produced  : 1'',
         ''  signals processed : 1'', ''  input drops       : 0'']"
proof -
  obtain a where a: "reaches (app_init demo) (app_step demo) a" "main_pc a = MExit False"
    "\<not> h_threw a" "accepted (h_in a) = [demo_signal]"
    by (rule demo_reaches)
  have "0 < workerCount (pool (p_cfg demo))" by (simp add: demo_def)
  from summary_tells_the_run [OF a(1-3) this] a(1,4) show ?thesis
    by (intro exI [of _ a]) (simp add: Let_def small_numbers [simplified])
qed

end
