(* ===== verification/Application_Shutdown.thy ===== *)
theory Application_Shutdown
  imports Application_Drain
begin

text \<open>
  The shutdown terminates and never deadlocks. Every thread that runs after the shutdown token has
  been set has only finitely much left to do; the measure below bounds it by what is buffered in
  the queues, by the sinks to write and by the heartbeats to scan. And as long as the main thread
  has not left its last join, some thread can move.
\<close>

section \<open>What is left to do\<close>

text \<open>
  The cost of a record in the output queue for \<open>n\<close> sinks, and of a signal in the input queue.
\<close>

definition out_cost :: "nat \<Rightarrow> nat" where "out_cost n = n + 6"
definition in_cost :: "nat \<Rightarrow> nat" where "in_cost n = out_cost n + 13"

fun handler_rank :: "unwinding \<Rightarrow> nat" where
  "handler_rank (UReport e) = 3"
| "handler_rank UCount = 2"
| "handler_rank URequest = 1"

fun producer_rank :: "nat \<Rightarrow> 'f ppc \<Rightarrow> nat" where
  "producer_rank n PInit = 6"
| "producer_rank n PClock = 5"
| "producer_rank n (PCheck nd) = 4"
| "producer_rank n (PSample nd) = in_cost n + 13"
| "producer_rank n (PPush nd sig) = in_cost n + 12"
| "producer_rank n (PCount nd) = 11"
| "producer_rank n (PDepth nd) = 10"
| "producer_rank n (PStoreDepth nd d) = 9"
| "producer_rank n (PDrops nd) = 8"
| "producer_rank n (PStoreDrops nd d) = 7"
| "producer_rank n (PDeadline nd) = 6"
| "producer_rank n (PMissed nd) = 5"
| "producer_rank n (PRest nd) = 5"
| "producer_rank n (PWait nd) = 4"
| "producer_rank n (PUnwind u) = handler_rank u"
| "producer_rank n PDone = 0"

fun worker_rank :: "nat \<Rightarrow> 'f kpc \<Rightarrow> nat" where
  "worker_rank n KInit = 6"
| "worker_rank n KWait = 5"
| "worker_rank n KPop = 4"
| "worker_rank n (KDepth sig) = out_cost n + 16"
| "worker_rank n (KStoreDepth sig d) = out_cost n + 15"
| "worker_rank n (KRun sig) = out_cost n + 14"
| "worker_rank n (KProcess sig) = out_cost n + 13"
| "worker_rank n (KCount res) = out_cost n + 12"
| "worker_rank n (KLatency res) = out_cost n + 11"
| "worker_rank n (KPush r) = out_cost n + 10"
| "worker_rank n KOutDepth = 9"
| "worker_rank n (KStoreOutDepth d) = 8"
| "worker_rank n KDrops = 7"
| "worker_rank n (KStoreDrops d) = 6"
| "worker_rank n (KUnwind u) = handler_rank u"
| "worker_rank n KDone = 0"

fun logger_rank :: "nat \<Rightarrow> 'f lpc \<Rightarrow> nat" where
  "logger_rank n LInit = n + 7"
| "logger_rank n LWait = n + 6"
| "logger_rank n LPop = n + 5"
| "logger_rank n (LDepth r) = 2 * n + 10"
| "logger_rank n (LStoreDepth r d) = 2 * n + 9"
| "logger_rank n (LRun r) = 2 * n + 8"
| "logger_rank n (LWrite line k) = n + 7 + (n - k)"
| "logger_rank n (LFlush k) = 4 + (n - k)"
| "logger_rank n (LUnwind u) = handler_rank u"
| "logger_rank n LDone = 0"

text \<open>The scan of the remaining heartbeats, of \<open>h\<close> in all.\<close>

definition scan_cost :: "nat \<Rightarrow> nat \<Rightarrow> nat \<Rightarrow> nat" where
  "scan_cost n h k = 6 + (h - k) * (out_cost n + 4)"

fun watchdog_rank :: "nat \<Rightarrow> nat \<Rightarrow> 'f wpc \<Rightarrow> nat" where
  "watchdog_rank n h WdInit = 5"
| "watchdog_rank n h WdSleep = 4"
| "watchdog_rank n h (WdState t k b) = scan_cost n h k"
| "watchdog_rank n h (WdAge t k b) = scan_cost n h (Suc k) + out_cost n + 3"
| "watchdog_rank n h (WdCount r t k) = scan_cost n h (Suc k) + out_cost n + 2"
| "watchdog_rank n h (WdPush r t k) = scan_cost n h (Suc k) + out_cost n + 1"
| "watchdog_rank n h (WdEscalate b) = 5"
| "watchdog_rank n h (WdUnwind u) = handler_rank u"
| "watchdog_rank n h WdDone = 0"

fun main_rank :: "nat \<Rightarrow> mpc \<Rightarrow> nat" where
  "main_rank w MWait = w + 10"
| "main_rank w (MShutdown b) = w + 9"
| "main_rank w (MRequest b) = w + 8"
| "main_rank w (MCloseIn b) = w + 7"
| "main_rank w (MJoinProducer b) = w + 6"
| "main_rank w (MJoinPool b i) = 5 + (w - i)"
| "main_rank w (MCloseOut b) = 4"
| "main_rank w (MJoinLogger b) = 3"
| "main_rank w (MJoinWatchdog b) = 2"
| "main_rank w MSummary = 1"
| "main_rank w _ = 0"

definition rank_of :: "('p \<Rightarrow> nat) \<Rightarrow> 'p option \<Rightarrow> nat" where
  "rank_of f po = (case po of None \<Rightarrow> 0 | Some p \<Rightarrow> f p)"

definition queue_cost :: "nat \<Rightarrow> 'f shared \<Rightarrow> nat" where
  "queue_cost n s = in_cost n * length (q_queue (inputQueue s)) + out_cost n * length (q_queue (outputQueue s))"

definition remaining :: "'f app \<Rightarrow> nat" where
  "remaining a =
     (let n = length (sinks (sh a)); h = length (heartbeatRegistry (sh a)) in
        rank_of (producer_rank n) (producer_pc a)
      + sum_list (map (rank_of (worker_rank n)) (worker_pcs a))
      + rank_of (logger_rank n) (logger_pc a) + rank_of (watchdog_rank n h) (watchdog_pc a)
      + main_rank (length (worker_pcs a)) (main_pc a) + queue_cost n (sh a))"

section \<open>Every step does some of it\<close>

lemma push_length:
  assumes "push v q = Returns (b, q')"
  shows "length (q_queue q') \<le> Suc (length (q_queue q))"
  using assms by (auto simp: push_def enqueueLocked_def countDrop_def Let_def split: if_splits)

lemma pop_length:
  assumes "waitAndPop q = Returns (r, q')"
  shows "r = None \<Longrightarrow> q' = q" and "r \<noteq> None \<Longrightarrow> length (q_queue q) = Suc (length (q_queue q'))"
  using assms by (auto simp: waitAndPop_def popLockedAndNotify_def split: if_splits)

lemma refused_length:
  assumes "push v q = Returns (False, q')"
  shows "q_queue q' = q_queue q"
  using assms by (auto simp: push_def enqueueLocked_def countDrop_def Let_def split: if_splits)

lemma handler_ranks [simp]:
  "producer_rank n (producer_resume (fst (boundary_step built role u s))) < handler_rank u"
  "worker_rank n (worker_resume (fst (boundary_step built role u s))) < handler_rank u"
  "logger_rank n (logger_resume (fst (boundary_step built role u s))) < handler_rank u"
  "watchdog_rank n h (watchdog_resume (fst (boundary_step built role u s))) < handler_rank u"
  by (cases u; simp)+

lemma producer_rank_step:
  assumes "producer_step cfg sys draw hb ev (p, s) (p', s')" and "tok_requested (shutdownToken s)"
  shows "producer_rank n p' + queue_cost n s' < producer_rank n p + queue_cost n s"
  using assms
proof (cases rule: producer_step.cases)
  case (pr_push sig q nd)
  from mult_le_mono2 [OF push_length [OF pr_push(5)], of "in_cost n"] pr_push show ?thesis
    by (simp add: queue_cost_def)
next
  case (pr_refused sig q nd)
  from refused_length [OF pr_refused(5)] pr_refused show ?thesis by (simp add: queue_cost_def)
next
  case pr_throw
  then show ?thesis by (cases p) (simp_all add: queue_cost_def step_defs in_cost_def)
qed (auto simp: queue_cost_def step_defs in_cost_def shutdownRequested_def waitFor_def)

lemma worker_rank_step:
  assumes "worker_step cfg sys A hb ev (k, s) (k', s')"
  shows "worker_rank n k' + queue_cost n s' < worker_rank n k + queue_cost n s"
  using assms
proof (cases rule: worker_step.cases)
  case (wk_pop sig q)
  from pop_length(2) [OF wk_pop(5)] wk_pop show ?thesis
    by (simp add: queue_cost_def in_cost_def)
next
  case (wk_end q)
  with pop_length(1) [OF wk_end(5) refl] show ?thesis by (simp add: queue_cost_def)
next
  case (wk_push r b q)
  from mult_le_mono2 [OF push_length [OF wk_push(5)], of "out_cost n"] wk_push show ?thesis
    by (simp add: queue_cost_def)
next
  case wk_throw
  then show ?thesis by (cases k) (simp_all add: queue_cost_def step_defs)
qed (simp_all add: queue_cost_def step_defs)

lemma logger_rank_step:
  assumes "logger_step cfg sys fmt hb ev (l, s) (l', s')" and "n = length (sinks s)"
  shows "logger_rank n l' + queue_cost n s' < logger_rank n l + queue_cost n s"
  using assms(1)
proof (cases rule: logger_step.cases)
  case (lg_pop r q)
  from pop_length(2) [OF lg_pop(5)] lg_pop show ?thesis
    by (simp add: queue_cost_def out_cost_def)
next
  case (lg_end q)
  with pop_length(1) [OF lg_end(5) refl] show ?thesis by (simp add: queue_cost_def)
next
  case lg_throw
  then show ?thesis by (cases l) (simp_all add: queue_cost_def step_defs)
qed (use assms(2) in \<open>simp_all add: queue_cost_def step_defs\<close>)

lemma watchdog_rank_step:
  assumes "watchdog_step cfg sys ev (w, s) (w', s')" and "tok_requested (shutdownToken s)"
    and "h = length (heartbeatRegistry s)"
  shows "watchdog_rank n h w' + queue_cost n s' < watchdog_rank n h w + queue_cost n s"
proof -
  have cost: "scan_cost n h k = scan_cost n h (Suc k) + out_cost n + 4" if "k < h" for k
    using that by (simp add: scan_cost_def Suc_diff_Suc [symmetric])
  from assms(1) show ?thesis
  proof (cases rule: watchdog_step.cases)
    case (wd_push r b q now k)
    from mult_le_mono2 [OF push_length [OF wd_push(5)], of "out_cost n"] wd_push show ?thesis
      by (simp add: queue_cost_def)
  next
    case wd_throw
    then show ?thesis by (cases w) (simp_all add: queue_cost_def step_defs scan_cost_def)
  next
    case wd_end
    then show ?thesis by (simp add: queue_cost_def scan_cost_def)
  qed (use assms(2,3) cost in \<open>auto simp: queue_cost_def step_defs waitFor_def split: if_splits\<close>)
qed

text \<open>The states the theorem is about: shutdown is requested and startup is over.\<close>

definition stopping :: "'f app \<Rightarrow> bool" where
  "stopping a \<longleftrightarrow> tok_requested (shutdownToken (sh a)) \<and> 2 \<le> phase (main_pc a)"

lemma main_rank_step:
  assumes "main_step E a a'" and "stopping a"
  shows "remaining a' < remaining a \<and> stopping a'"
  using assms
proof (induction rule: main_step.induct)
  case (mn_waiting a i t)
  then show ?case
    by (simp add: stopping_def shutdownRequested_def split: if_splits)
next
  case (mn_woken a i t)
  then show ?case
    by (auto simp: stopping_def shutdownRequested_def remaining_def queue_cost_def Let_def split: if_splits)
next
  case (mn_wait_error a i e t)
  then show ?case
    by (simp add: stopping_def shutdownRequested_def split: if_splits)
qed (auto simp: stopping_def remaining_def queue_cost_def close_def step_defs Let_def split: if_splits)

lemma remaining_step:
  assumes "app_step E a a'" and "stopping a"
  shows "remaining a' < remaining a \<and> stopping a'"
  using assms(1)
proof (cases rule: app_step.cases)
  case (st_producer p ev p' s')
  note t = producer_thread.step_sizes [OF st_producer(3)] producer_thread.step_token [OF st_producer(3)]
    producer_rank_step [OF st_producer(3), of "length (sinks (sh a))"]
  with st_producer assms(2) show ?thesis
    by (simp add: stopping_def remaining_def rank_of_def Let_def)
next
  case (st_worker i k ev k' s')
  let ?n = "length (sinks (sh a))"
  note t = worker_thread.step_sizes [OF st_worker(4)] worker_thread.step_token [OF st_worker(4)]
    worker_rank_step [OF st_worker(4), of ?n]
  have "sum_list (map (rank_of (worker_rank ?n)) ((worker_pcs a)[i := Some k'])) + worker_rank ?n k
      = sum_list (map (rank_of (worker_rank ?n)) (worker_pcs a)) + worker_rank ?n k'"
    using sum_list_update_monoid [OF st_worker(2), of "rank_of (worker_rank ?n)" "Some k'"] st_worker(3)
    by (simp add: rank_of_def)
  with st_worker assms(2) t show ?thesis
    by (simp add: stopping_def remaining_def Let_def)
next
  case (st_logger l ev l' s')
  note t = logger_thread.step_sizes [OF st_logger(3)] logger_thread.step_token [OF st_logger(3)]
    logger_rank_step [OF st_logger(3) refl]
  with st_logger assms(2) show ?thesis
    by (simp add: stopping_def remaining_def rank_of_def Let_def)
next
  case (st_watchdog w ev w' s')
  note t = watchdog_thread.step_sizes [OF st_watchdog(3)] watchdog_thread.step_token [OF st_watchdog(3)]
    watchdog_rank_step [OF st_watchdog(3) _ refl, of "length (sinks (sh a))"]
  with st_watchdog assms(2) show ?thesis
    by (simp add: stopping_def remaining_def rank_of_def Let_def)
next
  case st_main
  then show ?thesis using assms(2) by (rule main_rank_step)
qed

section \<open>Some thread can always move\<close>

text \<open>Moves of the scheduler: what the program can do without an exception.\<close>

definition blocked :: "('e, 'f) params \<Rightarrow> 'f app \<Rightarrow> bool" where
  "blocked E a \<longleftrightarrow> (\<forall>e m. move_exec E e m a = None)"

text \<open>A watchdog that looks at a heartbeat looks at one that exists.\<close>

fun scan_index :: "nat \<Rightarrow> 'f wpc option \<Rightarrow> bool" where
  "scan_index h (Some (WdAge t k b)) = (k < h)"
| "scan_index h _ = True"

definition scan_inv :: "('e, 'f) params \<Rightarrow> 'f app \<Rightarrow> bool" where
  "scan_inv E a \<longleftrightarrow> base_inv E a \<and> scan_index (length (heartbeatRegistry (sh a))) (watchdog_pc a)"

lemma scan_index_resume [simp]: "scan_index h (Some (watchdog_resume x))"
  by (cases x) simp_all

lemma scan_index_step:
  assumes "app_step E a a'" and "scan_index (length (heartbeatRegistry (sh a))) (watchdog_pc a)"
  shows "scan_index (length (heartbeatRegistry (sh a'))) (watchdog_pc a')"
  using assms(1)
proof (cases rule: app_step.cases)
  case (st_producer p ev p' s')
  with assms(2) producer_thread.step_sizes [OF st_producer(3)] show ?thesis by simp
next
  case (st_worker i k ev k' s')
  with assms(2) worker_thread.step_sizes [OF st_worker(4)] show ?thesis by simp
next
  case (st_logger l ev l' s')
  with assms(2) logger_thread.step_sizes [OF st_logger(3)] show ?thesis by simp
next
  case (st_watchdog w ev w' s')
  then show ?thesis
    using watchdog_thread.step_sizes [OF st_watchdog(3)]
    by (cases rule: watchdog_step.cases [OF st_watchdog(3)]) simp_all
next
  case st_main
  then show ?thesis using assms(2)
    by (induction rule: main_step.induct) (simp_all add: step_defs)
qed

interpretation scanning: invariant_system "app_init E" "app_step E" "scan_inv E" for E
proof unfold_locales
  show "scan_inv E a" if "app_init E a" for a
    using application.invar_init [OF that] that
    by (auto simp: scan_inv_def elim: app_init_cases)
  show "scan_inv E a'" if "app_step E a a'" and "scan_inv E a" for a a'
    using that application.invar_step scan_index_step unfolding scan_inv_def by blast
qed

lemma producer_moves:
  assumes "p \<noteq> PDone" and "q_closed (inputQueue s)"
  shows "producer_exec cfg sys draw hb now e p s \<noteq> None"
  using assms by (cases p) (auto simp: push_def split: option.splits prod.splits)

lemma worker_moves:
  assumes "k \<noteq> KDone" and "q_closed (inputQueue s)" and "q_policy (outputQueue s) = DropOldest"
  shows "worker_exec cfg sys A hb now k s \<noteq> None"
  using assms by (cases k) (auto simp: push_def waitAndPop_def split: prod.splits)

lemma logger_moves:
  assumes "l \<noteq> LDone" and "q_closed (outputQueue s)"
  shows "logger_exec cfg sys fmt hb now l s \<noteq> None"
  using assms by (cases l) (auto simp: waitAndPop_def split: prod.splits)

lemma watchdog_moves:
  assumes "w \<noteq> WdDone" and "q_policy (outputQueue s) = DropOldest"
    and "scan_index (length (heartbeatRegistry s)) (Some w)"
  shows "watchdog_exec cfg sys now w s \<noteq> None"
  using assms by (cases w) (auto simp: push_def Let_def split: prod.splits)

lemma joinable_nowI: "(\<And>p. po = Some p \<Longrightarrow> fin p) \<Longrightarrow> joinable_now fin po"
  by (cases po) (simp_all add: joinable_now_def)

lemma blocked_threads:
  assumes "blocked E a" and "q_closed (inputQueue (sh a))" and "q_policy (outputQueue (sh a)) = DropOldest"
  shows "joinable_now (\<lambda>p. p = PDone) (producer_pc a)"
    and "i < length (worker_pcs a) \<Longrightarrow> joinable_now (\<lambda>p. p = KDone) (worker_pcs a ! i)"
    and "q_closed (outputQueue (sh a)) \<Longrightarrow> joinable_now (\<lambda>p. p = LDone) (logger_pc a)"
    and "scan_index (length (heartbeatRegistry (sh a))) (watchdog_pc a)
      \<Longrightarrow> joinable_now (\<lambda>p. p = WdDone) (watchdog_pc a)"
proof -
  have no: "move_exec E e m a = None" for e m using assms(1) by (simp add: blocked_def)
  show "joinable_now (\<lambda>p. p = PDone) (producer_pc a)"
  proof (rule joinable_nowI, rule ccontr)
    fix p assume "producer_pc a = Some p" and "p \<noteq> PDone"
    with producer_moves [OF _ assms(2), of p "p_cfg E" "p_sys E" "p_draw E" 0 0 undefined] no [of undefined "MoveProducer 0"] show False
      by (simp split: option.splits prod.splits)
  qed
  show "joinable_now (\<lambda>p. p = KDone) (worker_pcs a ! i)" if "i < length (worker_pcs a)"
  proof (rule joinable_nowI, rule ccontr)
    fix k assume "worker_pcs a ! i = Some k" and "k \<noteq> KDone"
    with worker_moves [OF _ assms(2,3), of k "p_cfg E" "p_sys E" "p_arith E" "worker_hb i" 0] no [of undefined "MoveWorker i 0"] that show False
      by (simp split: option.splits prod.splits)
  qed
  show "joinable_now (\<lambda>p. p = LDone) (logger_pc a)" if "q_closed (outputQueue (sh a))"
  proof (rule joinable_nowI, rule ccontr)
    fix l assume "logger_pc a = Some l" and "l \<noteq> LDone"
    with logger_moves [OF _ that, of l "p_cfg E" "p_sys E" "p_show E" "logger_hb E" 0] no [of undefined "MoveLogger 0"] show False
      by (simp split: option.splits prod.splits)
  qed
  show "joinable_now (\<lambda>p. p = WdDone) (watchdog_pc a)"
    if "scan_index (length (heartbeatRegistry (sh a))) (watchdog_pc a)"
  proof (rule joinable_nowI, rule ccontr)
    fix w assume "watchdog_pc a = Some w" and "w \<noteq> WdDone"
    with watchdog_moves [OF _ assms(3), of w "p_cfg E" "p_sys E" 0] no [of undefined "MoveWatchdog 0"] that show False
      by (simp split: option.splits prod.splits)
  qed
qed

text \<open>The main thread, when the threads it waits for have ended.\<close>

lemma wait_with_token: "tok_requested t \<Longrightarrow> waitForShutdown msg [sigint] t = (Some (Inr ()), t)"
  by (simp add: sigint_def shutdownRequested_def)

lemma blocked_exits:
  assumes inv: "scan_inv E a" and stop: "stopping a" and blk: "blocked E a"
  shows "\<exists>b. main_pc a = MExit b"
proof -
  have closed: "closed_inv E a" and trace: "trace_inv E a"
    using inv by (auto simp: scan_inv_def base_inv_def phase_inv_def)
  have policy: "q_policy (outputQueue (sh a)) = DropOldest"
    using trace run_ops_frame by (fastforce simp: trace_inv_def out_start_def)
  have no: "main_exec E sigint (main_pc a) a = None"
    using blk move_exec.simps(1) by (metis blocked_def)
  have joined: "joinable_now (\<lambda>p. p = PDone) (producer_pc a)"
    "\<And>i. i < length (worker_pcs a) \<Longrightarrow> joinable_now (\<lambda>p. p = KDone) (worker_pcs a ! i)"
    "joinable_now (\<lambda>p. p = WdDone) (watchdog_pc a)" if "6 \<le> phase (main_pc a)"
    using blocked_threads [OF blk _ policy] that closed inv by (auto simp: closed_inv_def scan_inv_def)
  have logger: "joinable_now (\<lambda>p. p = LDone) (logger_pc a)" if "9 \<le> phase (main_pc a)"
    using blocked_threads(3) [OF blk _ policy] that closed by (auto simp: closed_inv_def)
  show ?thesis
  proof (cases "main_pc a")
    case MWait
    with no stop wait_with_token [of "shutdownToken (sh a)" "p_msg E"] demo_wait(2) show ?thesis
      by (simp add: stopping_def del: waitForShutdown.simps)
  next
    case (MShutdown b)
    with no closed show ?thesis by (simp add: closed_inv_def)
  qed (use no stop joined logger in \<open>auto simp: stopping_def split: if_splits\<close>)
qed

section \<open>Properties\<close>

lemma stopping_star:
  assumes "(app_step E)\<^sup>*\<^sup>* a a'" and "reaches (app_init E) (app_step E) a" and "stopping a"
  shows "reaches (app_init E) (app_step E) a' \<and> stopping a'"
  using assms(1)
proof (induction rule: rtranclp_induct)
  case base
  then show ?case using assms by simp
next
  case (step b c)
  then show ?case using remaining_step reaches_step by metis
qed

lemma stopping_no_infinite_run:
  assumes "stopping a"
  shows "\<not> (\<exists>f. f 0 = a \<and> (\<forall>i. app_step E (f i) (f (Suc i))))"
proof
  assume "\<exists>f. f 0 = a \<and> (\<forall>i. app_step E (f i) (f (Suc i)))"
  then obtain f where f: "f 0 = a" "\<And>i. app_step E (f i) (f (Suc i))" by blast
  have "remaining (f i) + i \<le> remaining a \<and> stopping (f i)" for i
  proof (induction i)
    case (Suc i)
    with remaining_step [OF f(2) [of i]] show ?case by auto
  qed (simp add: f assms)
  from this [of "Suc (remaining a)"] show False by simp
qed

text \<open>C4: The shutdown completes. Once shutdown is requested, by a signal, by the watchdog or by the
  exception boundary of any thread, and startup is over, the program cannot run for ever, however
  its threads are scheduled and whatever exceptions strike; and it cannot get stuck: in every state
  it reaches from there in which no thread can move, the main thread has left its last join and
  every thread has ended.\<close>

theorem shutdown_completes:
  assumes "reaches (app_init E) (app_step E) a" and "stopping a"
  shows "\<not> (\<exists>f. f 0 = a \<and> (\<forall>i. app_step E (f i) (f (Suc i))))
    \<and> (\<forall>a'. (app_step E)\<^sup>*\<^sup>* a a' \<and> blocked E a' \<longrightarrow> (\<exists>b. main_pc a' = MExit b)
      \<and> joinable_now (\<lambda>p. p = PDone) (producer_pc a')
      \<and> (\<forall>i < length (worker_pcs a'). joinable_now (\<lambda>p. p = KDone) (worker_pcs a' ! i))
      \<and> joinable_now (\<lambda>p. p = LDone) (logger_pc a')
      \<and> joinable_now (\<lambda>p. p = WdDone) (watchdog_pc a'))"
proof (intro conjI allI impI)
  show "\<not> (\<exists>f. f 0 = a \<and> (\<forall>i. app_step E (f i) (f (Suc i))))"
    using assms(2) by (rule stopping_no_infinite_run)
next
  fix a' assume a': "(app_step E)\<^sup>*\<^sup>* a a' \<and> blocked E a'"
  then have r: "reaches (app_init E) (app_step E) a'" "stopping a'"
    using stopping_star [OF _ assms] by blast+
  note inv = scanning.reaches_invar [OF r(1)]
  from a' inv r(2) show exit: "\<exists>b. main_pc a' = MExit b" by (blast intro: blocked_exits)
  have "ended_inv a'" using inv by (simp add: scan_inv_def base_inv_def phase_inv_def)
  with exit show "joinable_now (\<lambda>p. p = PDone) (producer_pc a')"
    "joinable_now (\<lambda>p. p = LDone) (logger_pc a')" "joinable_now (\<lambda>p. p = WdDone) (watchdog_pc a')"
    "\<And>i. i < length (worker_pcs a') \<Longrightarrow> joinable_now (\<lambda>p. p = KDone) (worker_pcs a' ! i)"
    by (auto simp: ended_inv_def)
qed

text \<open>The run of the example: up to the signal, then the theorem.\<close>

lemma demo_stopping:
  "\<exists>a. run_script demo () (demo_startup @ [MoveMain sigint]) demo_start = Some a \<and> stopping a"
  by (simp add: demo_startup_def demo_start_def demo_wait demo_exec stopping_def eval_nat_numeral
      del: waitForShutdown.simps)

theorem shutdown_completes_witness:
  "\<exists>a. reaches (app_init demo) (app_step demo) a \<and> stopping a
     \<and> \<not> (\<exists>f. f 0 = a \<and> (\<forall>i. app_step demo (f i) (f (Suc i))))"
proof -
  obtain a where a: "run_script demo () (demo_startup @ [MoveMain sigint]) demo_start = Some a" "stopping a"
    using demo_stopping by blast
  have "reaches (app_init demo) (app_step demo) a"
    using run_script_reaches [OF a(1)] reaches_init [of "app_init demo", OF demo_init] by blast
  with shutdown_completes [OF this a(2)] a(2) show ?thesis by blast
qed

end
