(* ===== verification/Application_Fairness.thy ===== *)
theory Application_Fairness
  imports Fair_Runs Application_Report Application_Shutdown
begin

text \<open>
  Liveness in normal operation: in a run without exceptions that is fair to the workers, every signal
  that was accepted is eventually processed, whether or not the program is ever shut down. Fairness
  is what the operating system's scheduler owes a thread that could always run.
\<close>

section \<open>Steps of one worker\<close>

definition worker_moves :: "('e, 'f) params \<Rightarrow> nat \<Rightarrow> 'f app \<Rightarrow> 'f app \<Rightarrow> bool" where
  "worker_moves E i a a' \<longleftrightarrow> (\<exists>k ev k' s'. i < length (worker_pcs a) \<and> worker_pcs a ! i = Some k
     \<and> worker_step (p_cfg E) (p_sys E) (p_arith E) (worker_hb i) ev (k, sh a) (k', s')
     \<and> a' = record_event ev (a\<lparr>worker_pcs := (worker_pcs a)[i := Some k'], sh := s'\<rparr>))"

text \<open>It can run: it has a step that is not an exception.\<close>

definition worker_can_move :: "('e, 'f) params \<Rightarrow> nat \<Rightarrow> 'f app \<Rightarrow> bool" where
  "worker_can_move E i a \<longleftrightarrow> (\<exists>k ev k' s'. i < length (worker_pcs a) \<and> worker_pcs a ! i = Some k \<and> ev \<noteq> Threw
     \<and> worker_step (p_cfg E) (p_sys E) (p_arith E) (worker_hb i) ev (k, sh a) (k', s'))"

definition fair_to_workers :: "('e, 'f) params \<Rightarrow> (nat \<Rightarrow> 'f app) \<Rightarrow> bool" where
  "fair_to_workers E \<sigma> \<longleftrightarrow> (\<forall>i n. (\<forall>m \<ge> n. worker_can_move E i (\<sigma> m)) \<longrightarrow> (\<exists>m \<ge> n. worker_moves E i (\<sigma> m) (\<sigma> (Suc m))))"

definition quiet_run :: "('e, 'f) params \<Rightarrow> (nat \<Rightarrow> 'f app) \<Rightarrow> bool" where
  "quiet_run E \<sigma> \<longleftrightarrow> app_init E (\<sigma> 0) \<and> (\<forall>n. \<sigma> (Suc n) = \<sigma> n \<or> app_step E (\<sigma> n) (\<sigma> (Suc n))) \<and> (\<forall>n. \<not> h_threw (\<sigma> n))"

inductive_simps worker_done_step [simp]: "worker_step cfg sys A hb ev (KDone, s) c"

lemma push_open_returns:
  "q_policy q = DropOldest \<Longrightarrow> \<exists>b q'. push v q = Returns (b, q')"
  by (cases "enqueueLocked v q") (simp add: push_def)

text \<open>Only an empty queue keeps a worker from running.\<close>

lemma worker_step_exists:
  assumes "k \<noteq> KDone" and "worker_handler k = None" and "k = KPop \<longrightarrow> q_queue (inputQueue s) \<noteq> []" and "q_policy (outputQueue s) = DropOldest"
  shows "\<exists>ev k' s'. ev \<noteq> Threw \<and> worker_step cfg sys A hb ev (k, s) (k', s')"
proof -
  have "\<exists>ev k' s'. ev \<noteq> Threw \<and> worker_exec cfg sys A hb now k s = Some (ev, k', s')" for now
  proof (cases k)
    case (KPush r)
    with push_open_returns [OF assms(4), of r] show ?thesis by auto
  qed (use assms(1-3) in \<open>auto simp: waitAndPop_def popLockedAndNotify_def\<close>)
  then show ?thesis using worker_exec_step by metis
qed

text \<open>The worker's pc changes by its own steps only.\<close>

lemma worker_pc_change:
  assumes "app_step E a a'" and "base_inv E a" and "i < length (worker_pcs a)" and "worker_pcs a ! i = Some k"
  shows "worker_pcs a' ! i = Some k \<or> worker_moves E i a a'"
  using assms(1)
proof (cases rule: app_step.cases)
  case (st_worker j k' ev k'' s')
  with assms(3,4) show ?thesis by (cases "j = i") (auto simp: worker_moves_def)
next
  case st_main
  then show ?thesis
  proof (cases rule: main_step.cases)
    case (mn_start_worker j)
    with assms(2,3,4) show ?thesis
      by (cases "j = i") (auto simp: base_inv_def phase_inv_def started_inv_def)
  qed (use assms(4) in simp_all)
qed (use assms(4) in simp_all)

lemma worker_move_cases:
  assumes "worker_moves E i a a'" and "worker_pcs a ! i = Some k" and "\<not> h_threw a'"
  obtains k' ev s' where "i < length (worker_pcs a)" and "ev \<noteq> Threw"
    and "worker_step (p_cfg E) (p_sys E) (p_arith E) (worker_hb i) ev (k, sh a) (k', s')"
    and "worker_pcs a' ! i = Some k'" and "a' = record_event ev (a\<lparr>worker_pcs := (worker_pcs a)[i := Some k'], sh := s'\<rparr>)"
  using assms by (auto simp: worker_moves_def record_event_histories)

text \<open>Towards the next pop, and towards the count of what it holds, a worker gets closer with every step.\<close>

lemma worker_rank_falls:
  assumes "worker_step cfg sys A hb ev (k, s) (k', s')" and "ev \<noteq> Threw" and "k \<noteq> KPop"
  shows "worker_rank n k' < worker_rank n k"
  using assms by (cases rule: worker_step.cases) simp_all

lemma pop_delivers:
  assumes "worker_step cfg sys A hb ev (KPop, s) (k', s')" and "ev \<noteq> Threw" and "q_queue (inputQueue s) \<noteq> []"
  shows "\<exists>sig. ev = InQ WaitAndPop (Got (Some sig))"
  using assms by (cases rule: worker_step.cases) (auto simp: waitAndPop_def popLockedAndNotify_def)

section \<open>Histories only grow\<close>

lemma accepted_delivered:
  assumes "base_inv E a"
  shows "accepted (h_in a) = delivered (h_in a) @ q_queue (inputQueue (sh a))"
proof -
  have "run_ops (map fst (h_in a)) (in_start E) = Some (h_in a, inputQueue (sh a))" "wf_tsq (in_start E)"
    using assms by (simp_all add: base_inv_def trace_inv_def)
  from run_ops_history [OF this] show ?thesis by (auto simp: in_start_def)
qed

lemma histories_extend:
  assumes "app_step E a a'"
  shows "prefix (h_in a) (h_in a') \<and> prefix (h_results a) (h_results a')"
  using assms
proof (cases rule: app_step.cases)
  case st_main
  then show ?thesis by (cases rule: main_step.cases) simp_all
qed (simp_all add: record_event_histories)

text \<open>A signal can only have been accepted once all workers have been started.\<close>

definition idle_inv :: "'f app \<Rightarrow> bool" where
  "idle_inv a \<longleftrightarrow> (producer_pc a = None \<longrightarrow> accepted (h_in a) = [])"

lemma idle_inv_step:
  assumes "app_step E a a'" and "idle_inv a"
  shows "idle_inv a'"
  using assms(1)
proof (cases rule: app_step.cases)
  case (st_worker i k ev k' s')
  then have "accepted (h_in a') = accepted (h_in a)"
    by (cases rule: worker_event [OF st_worker(4)]) (simp_all add: accepted_append)
  with st_worker(1) assms(2) show ?thesis by (simp add: idle_inv_def)
next
  case (st_logger l ev l' s')
  then show ?thesis using assms(2) by (cases rule: logger_event [OF st_logger(3)]) (auto simp: idle_inv_def)
next
  case (st_watchdog w ev w' s')
  from st_watchdog(3,1) have "h_in a' = h_in a" by (cases rule: watchdog_step.cases) auto
  with st_watchdog(1) assms(2) show ?thesis by (simp add: idle_inv_def)
next
  case st_main
  then show ?thesis using assms(2) by (cases rule: main_step.cases) (simp_all add: idle_inv_def accepted_append)
qed (simp add: idle_inv_def)

definition live_inv :: "('e, 'f) params \<Rightarrow> 'f app \<Rightarrow> bool" where
  "live_inv E a \<longleftrightarrow> drain_inv E a \<and> idle_inv a"

interpretation live: invariant_system "app_init E" "app_step E" "live_inv E" for E
proof unfold_locales
  show "live_inv E a" if "app_init E a" for a
    using that drain.invar_init [OF that] by (auto simp: live_inv_def idle_inv_def elim: app_init_cases)
  show "live_inv E a'" if "app_step E a a'" "live_inv E a" for a a'
    using that drain.invar_step idle_inv_step by (auto simp: live_inv_def)
qed

text \<open>While a signal waits, every worker is at work.\<close>

lemma waiting_workers:
  assumes "live_inv E a" and "\<not> h_threw a" and "q_queue (inputQueue (sh a)) \<noteq> []" and "i < length (worker_pcs a)"
  obtains k where "worker_pcs a ! i = Some k" and "k \<noteq> KDone" and "worker_handler k = None"
proof -
  have base: "base_inv E a" and fin: "end_inv a" and idle: "idle_inv a"
    using assms(1,2) by (auto simp: live_inv_def drain_inv_def)
  have "producer_pc a \<noteq> None" using idle assms(3) accepted_delivered [OF base] by (auto simp: idle_inv_def)
  then have "worker_pcs a ! i \<noteq> None" using base assms(4) by (simp add: base_inv_def phase_inv_def started_inv_def)
  moreover have "worker_pcs a ! i \<noteq> Some KDone" using fin assms(3,4) by (auto simp: end_inv_def seen_end_def)
  moreover have "worker_handler k = None" if "worker_pcs a ! i = Some k" for k
    using fin assms(4) that by (cases k) (auto simp: end_inv_def)
  ultimately show thesis using that by blast
qed

section \<open>Every accepted signal is processed\<close>

text \<open>Results together with what some workers hold only gain.\<close>

definition secured :: "('e, 'f) params \<Rightarrow> nat set \<Rightarrow> 'f app \<Rightarrow> 'f processed_signal multiset" where
  "secured E P a = mset (h_results a) + (\<Sum>i \<in> P. inflight (p_arith E) (worker_pcs a ! i))"

lemma secured_step:
  assumes "app_step E a a'" and "base_inv E a" and "\<not> h_threw a'" and "finite P" and "P \<subseteq> {..< length (worker_pcs a)}"
  shows "secured E P a \<subseteq># secured E P a'"
  using assms(1)
proof (cases rule: app_step.cases)
  case (st_producer p ev p' s')
  then show ?thesis by (simp add: secured_def record_event_histories)
next
  case (st_worker i k ev k' s')
  let ?f = "inflight (p_arith E)"
  have ev: "ev \<noteq> Threw" using assms(3) st_worker(1) by (auto simp: record_event_histories)
  have "?f (Some k') + counted ev = ?f (Some k) + taken (p_arith E) ev"
    using worker_flow [OF st_worker(4) ev] .
  then have flow: "?f (Some k) \<subseteq># ?f (Some k') + counted ev" by (metis mset_subset_eq_add_left)
  have res: "mset (h_results a') = mset (h_results a) + counted ev"
    using st_worker(1) by (cases ev) (simp_all add: counted_def)
  have pcs: "worker_pcs a' = (worker_pcs a)[i := Some k']" using st_worker(1) by simp
  have rest: "(\<Sum>j \<in> Q. ?f (worker_pcs a' ! j)) = (\<Sum>j \<in> Q. ?f (worker_pcs a ! j))" if "i \<notin> Q" for Q
    using that by (auto simp: pcs intro!: sum.cong) (metis nth_list_update_neq)
  show ?thesis
  proof (cases "i \<in> P")
    case True
    then have "P = insert i (P - {i})" by blast
    with rest [of "P - {i}"] flow res pcs st_worker(2,3) assms(4) show ?thesis
      by (simp add: secured_def sum.remove [OF assms(4) True] ac_simps)
  next
    case False
    with rest res show ?thesis by (simp add: secured_def)
  qed
next
  case (st_logger l ev l' s')
  then show ?thesis by (simp add: secured_def record_event_histories)
next
  case (st_watchdog w ev w' s')
  then show ?thesis by (simp add: secured_def record_event_histories)
next
  case st_main
  then show ?thesis
  proof (cases rule: main_step.cases)
    case (mn_start_worker i)
    then have "worker_pcs a ! i = None" using assms(2) by (auto simp: base_inv_def phase_inv_def started_inv_def)
    with mn_start_worker have "inflight (p_arith E) (worker_pcs a' ! j) = inflight (p_arith E) (worker_pcs a ! j)" for j
      by (cases "j = i") simp_all
    then show ?thesis using mn_start_worker by (simp add: secured_def)
  qed (simp_all add: secured_def)
qed

locale fair_application =
  fixes E :: "('e, 'f) params" and \<sigma> :: "nat \<Rightarrow> 'f app"
  assumes quiet: "quiet_run E \<sigma>" and fairness: "fair_to_workers E \<sigma>"

sublocale fair_application < worker: weakly_fair_run "app_init E" "app_step E" "live_inv E" \<sigma>
  "worker_can_move E i" "worker_moves E i" for i
proof unfold_locales
  show "app_init E (\<sigma> 0)" using quiet by (simp add: quiet_run_def)
  show "\<sigma> (Suc n) = \<sigma> n \<or> app_step E (\<sigma> n) (\<sigma> (Suc n))" for n using quiet by (simp add: quiet_run_def)
  show "\<exists>m \<ge> n. worker_moves E i (\<sigma> m) (\<sigma> (Suc m))" if "\<And>m. n \<le> m \<Longrightarrow> worker_can_move E i (\<sigma> m)" for n
    using that fairness by (simp add: fair_to_workers_def)
qed

context fair_application
begin

lemma state_facts:
  shows "live_inv E (\<sigma> n)" "\<not> h_threw (\<sigma> n)" "base_inv E (\<sigma> n)" "work_inv E (\<sigma> n)"
    "length (worker_pcs (\<sigma> n)) = workerCount (pool (p_cfg E))" "q_policy (outputQueue (sh (\<sigma> n))) = DropOldest"
proof -
  show live: "live_inv E (\<sigma> n)" by (rule worker.run_invar)
  show quiet_n: "\<not> h_threw (\<sigma> n)" using quiet by (simp add: quiet_run_def)
  show base: "base_inv E (\<sigma> n)" and "work_inv E (\<sigma> n)"
    using live quiet_n by (auto simp: live_inv_def drain_inv_def)
  then show "length (worker_pcs (\<sigma> n)) = workerCount (pool (p_cfg E))"
    by (simp add: base_inv_def phase_inv_def closed_inv_def)
  show "q_policy (outputQueue (sh (\<sigma> n))) = DropOldest" using base by (rule base_inv_queues(3))
qed

lemma histories_grow:
  assumes "n \<le> m"
  shows "prefix (h_in (\<sigma> n)) (h_in (\<sigma> m)) \<and> prefix (h_results (\<sigma> n)) (h_results (\<sigma> m))"
  by (rule worker.run_preserves [where R = "\<lambda>a b. prefix (h_in a) (h_in b) \<and> prefix (h_results a) (h_results b)"])
    (use assms in \<open>auto dest: histories_extend intro: prefix_order.trans\<close>)

lemma accepted_grows: "n \<le> m \<Longrightarrow> prefix (accepted (h_in (\<sigma> n))) (accepted (h_in (\<sigma> m)))"
  and delivered_grows: "n \<le> m \<Longrightarrow> prefix (delivered (h_in (\<sigma> n))) (delivered (h_in (\<sigma> m)))"
  using histories_grow [of n m] by (auto simp: prefix_def accepted_append delivered_append)

text \<open>A worker at work gets to the next pop or count.\<close>

lemma worker_rank_steps:
  assumes "worker_pcs (\<sigma> m) ! i = Some k" and "i < workerCount (pool (p_cfg E))"
  shows "worker_pcs (\<sigma> (Suc m)) ! i = Some k \<or> worker_moves E i (\<sigma> m) (\<sigma> (Suc m))"
  using worker.moves_on [of m] worker_pc_change [OF _ state_facts(3)] assms state_facts(5) by metis

lemma eventually_pops:
  assumes "0 < workerCount (pool (p_cfg E))" and "q_queue (inputQueue (sh (\<sigma> n))) \<noteq> []"
  shows "\<exists>m \<ge> n. length (delivered (h_in (\<sigma> n))) < length (delivered (h_in (\<sigma> m)))"
proof (rule worker.progress [where i = 0 and rank = "\<lambda>a. rank_of (worker_rank 0) (worker_pcs a ! 0)"])
  fix m
  assume m: "n \<le> m" and no: "\<not> length (delivered (h_in (\<sigma> n))) < length (delivered (h_in (\<sigma> m)))"
  have waits: "q_queue (inputQueue (sh (\<sigma> m))) \<noteq> []"
    using accepted_grows [OF m] accepted_delivered [OF state_facts(3), of n] accepted_delivered [OF state_facts(3), of m]
      no assms(2) by (auto simp: prefix_def dest!: arg_cong [of _ _ length])
  then obtain k where k: "worker_pcs (\<sigma> m) ! 0 = Some k" "k \<noteq> KDone" "worker_handler k = None"
    using waiting_workers [OF state_facts(1,2), of m 0] assms(1) state_facts(5) by metis
  show "worker_can_move E 0 (\<sigma> m)"
    using worker_step_exists [OF k(2,3) _ state_facts(6)] waits k(1) assms(1) state_facts(5) [of m]
    unfolding worker_can_move_def by metis
  have moved: "length (delivered (h_in (\<sigma> n))) < length (delivered (h_in (\<sigma> (Suc m))))
      \<or> rank_of (worker_rank 0) (worker_pcs (\<sigma> (Suc m)) ! 0) < rank_of (worker_rank 0) (worker_pcs (\<sigma> m) ! 0)"
    if "worker_moves E 0 (\<sigma> m) (\<sigma> (Suc m))"
  proof -
    note move = that
    obtain k' ev s' where step: "ev \<noteq> Threw"
        "worker_step (p_cfg E) (p_sys E) (p_arith E) (worker_hb 0) ev (k, sh (\<sigma> m)) (k', s')"
        "worker_pcs (\<sigma> (Suc m)) ! 0 = Some k'"
        "\<sigma> (Suc m) = record_event ev (\<sigma> m\<lparr>worker_pcs := (worker_pcs (\<sigma> m))[0 := Some k'], sh := s'\<rparr>)"
      by (rule worker_move_cases [OF move k(1) state_facts(2)]) blast
    show ?thesis
    proof (cases "k = KPop")
      case True
      with pop_delivers step(1,2) waits obtain sig where "ev = InQ WaitAndPop (Got (Some sig))" by metis
      with step(4) have "delivered (h_in (\<sigma> (Suc m))) = delivered (h_in (\<sigma> m)) @ [sig]"
        by (simp add: delivered_append)
      moreover have "length (delivered (h_in (\<sigma> n))) \<le> length (delivered (h_in (\<sigma> m)))"
        using delivered_grows [OF m] by (rule prefix_length_le)
      ultimately show ?thesis by simp
    next
      case False
      with worker_rank_falls [OF step(2,1)] step(3) k(1) show ?thesis by (simp add: rank_of_def)
    qed
  qed
  then show "length (delivered (h_in (\<sigma> n))) < length (delivered (h_in (\<sigma> (Suc m))))
      \<or> rank_of (worker_rank 0) (worker_pcs (\<sigma> (Suc m)) ! 0) < rank_of (worker_rank 0) (worker_pcs (\<sigma> m) ! 0)"
    if "worker_moves E 0 (\<sigma> m) (\<sigma> (Suc m))" using that .
  show "length (delivered (h_in (\<sigma> n))) < length (delivered (h_in (\<sigma> (Suc m))))
      \<or> rank_of (worker_rank 0) (worker_pcs (\<sigma> (Suc m)) ! 0) \<le> rank_of (worker_rank 0) (worker_pcs (\<sigma> m) ! 0)"
    using worker_rank_steps [OF k(1) assms(1)] moved k(1) by fastforce
qed

text \<open>All that has been accepted is taken.\<close>

lemma eventually_delivered:
  assumes "0 < workerCount (pool (p_cfg E))"
  shows "\<exists>m \<ge> n. length (accepted (h_in (\<sigma> n))) \<le> length (delivered (h_in (\<sigma> m)))"
proof -
  have "n \<le> m \<Longrightarrow> \<exists>m' \<ge> n. length (accepted (h_in (\<sigma> n))) \<le> length (delivered (h_in (\<sigma> m')))" for m
  proof (induction "length (accepted (h_in (\<sigma> n))) - length (delivered (h_in (\<sigma> m)))" arbitrary: m rule: less_induct)
    case less
    show ?case
    proof (cases "length (accepted (h_in (\<sigma> n))) \<le> length (delivered (h_in (\<sigma> m)))")
      case False
      moreover have "length (accepted (h_in (\<sigma> n))) \<le> length (accepted (h_in (\<sigma> m)))"
        using accepted_grows [OF less.prems] by (rule prefix_length_le)
      ultimately have "q_queue (inputQueue (sh (\<sigma> m))) \<noteq> []"
        using accepted_delivered [OF state_facts(3), of m] by auto
      from eventually_pops [OF assms this] obtain m' where
        "m \<le> m'" "length (delivered (h_in (\<sigma> m))) < length (delivered (h_in (\<sigma> m')))" by blast
      with less False show ?thesis by (meson diff_less_mono2 le_trans not_le)
    qed (use less.prems in blast)
  qed
  then show ?thesis by blast
qed

text \<open>What a worker holds is counted.\<close>

lemma eventually_counts:
  assumes i: "i < workerCount (pool (p_cfg E))"
  shows "\<exists>m \<ge> n. inflight A (worker_pcs (\<sigma> m) ! i) = {#}"
proof (rule worker.progress [where i = i and rank = "\<lambda>a. rank_of (worker_rank 0) (worker_pcs a ! i)"])
  fix m
  assume holds: "inflight A (worker_pcs (\<sigma> m) ! i) \<noteq> {#}"
  then obtain k where k: "worker_pcs (\<sigma> m) ! i = Some k" by (cases "worker_pcs (\<sigma> m) ! i") auto
  have busy: "k \<noteq> KDone" "k \<noteq> KPop" "worker_handler k = None" using holds k by (cases k; simp)+
  show "worker_can_move E i (\<sigma> m)"
    using worker_step_exists [OF busy(1,3) _ state_facts(6)] k busy(2) i state_facts(5) [of m]
    unfolding worker_can_move_def by metis
  have falls: "rank_of (worker_rank 0) (worker_pcs (\<sigma> (Suc m)) ! i) < rank_of (worker_rank 0) (worker_pcs (\<sigma> m) ! i)"
    if "worker_moves E i (\<sigma> m) (\<sigma> (Suc m))"
    using that k state_facts(2)
  proof (rule worker_move_cases)
    fix k' ev s'
    assume "ev \<noteq> Threw" "worker_step (p_cfg E) (p_sys E) (p_arith E) (worker_hb i) ev (k, sh (\<sigma> m)) (k', s')"
      "worker_pcs (\<sigma> (Suc m)) ! i = Some k'"
    with worker_rank_falls k busy(2) show ?thesis by (simp add: rank_of_def)
  qed
  then show "inflight A (worker_pcs (\<sigma> (Suc m)) ! i) = {#}
      \<or> rank_of (worker_rank 0) (worker_pcs (\<sigma> (Suc m)) ! i) < rank_of (worker_rank 0) (worker_pcs (\<sigma> m) ! i)"
    if "worker_moves E i (\<sigma> m) (\<sigma> (Suc m))" using that by simp
  show "inflight A (worker_pcs (\<sigma> (Suc m)) ! i) = {#}
      \<or> rank_of (worker_rank 0) (worker_pcs (\<sigma> (Suc m)) ! i) \<le> rank_of (worker_rank 0) (worker_pcs (\<sigma> m) ! i)"
    using worker_rank_steps [OF k i] falls k by fastforce
qed

lemma secured_grows:
  assumes "n \<le> m" and "finite P" and "P \<subseteq> {..< workerCount (pool (p_cfg E))}"
  shows "secured E P (\<sigma> n) \<subseteq># secured E P (\<sigma> m)"
  using assms(1)
proof (induction m rule: dec_induct)
  case (step m)
  have "secured E P (\<sigma> m) \<subseteq># secured E P (\<sigma> (Suc m))"
    using worker.moves_on [of m] secured_step [OF _ state_facts(3,2) assms(2)] assms(3) state_facts(5) by auto
  with step.IH show ?case by (rule subset_mset.order_trans)
qed simp

lemma eventually_all_counted:
  assumes "finite P" and "P \<subseteq> {..< workerCount (pool (p_cfg E))}" and "D \<subseteq># secured E P (\<sigma> n)"
  shows "\<exists>m \<ge> n. D \<subseteq># mset (h_results (\<sigma> m))"
  using assms
proof (induction P arbitrary: n rule: finite_induct)
  case empty
  then show ?case by (auto simp: secured_def)
next
  case (insert i P)
  obtain m where m: "n \<le> m" "inflight (p_arith E) (worker_pcs (\<sigma> m) ! i) = {#}"
    using eventually_counts [of i n "p_arith E"] insert.prems(1) by auto
  have "D \<subseteq># secured E (insert i P) (\<sigma> m)"
    using insert.prems secured_grows [OF m(1), of "insert i P"] insert.hyps(1) subset_mset.order_trans by blast
  then have "D \<subseteq># secured E P (\<sigma> m)" using m(2) insert.hyps by (simp add: secured_def)
  with insert.IH [of m] insert.prems(1) m(1) show ?case by (meson insert_subset le_trans)
qed

lemma eventually_processed:
  assumes "0 < workerCount (pool (p_cfg E))"
  shows "\<exists>m \<ge> n. image_mset (process (p_arith E)) (mset (accepted (h_in (\<sigma> n)))) \<subseteq># mset (h_results (\<sigma> m))"
proof -
  obtain m where m: "n \<le> m" "length (accepted (h_in (\<sigma> n))) \<le> length (delivered (h_in (\<sigma> m)))"
    using eventually_delivered [OF assms] by blast
  have "prefix (accepted (h_in (\<sigma> n))) (delivered (h_in (\<sigma> m)))"
    using accepted_grows [OF m(1)] m(2) accepted_delivered [OF state_facts(3), of m]
    by (metis prefixI prefix_length_prefix)
  then have "image_mset (process (p_arith E)) (mset (accepted (h_in (\<sigma> n))))
      \<subseteq># mset (map (process (p_arith E)) (delivered (h_in (\<sigma> m))))"
    by (auto simp: prefix_def)
  also have "\<dots> = secured E {..< length (worker_pcs (\<sigma> m))} (\<sigma> m)"
    using state_facts(4) [of m] by (simp add: work_inv_def secured_def sum_list_sum_nth atLeast0LessThan)
  finally obtain k where "m \<le> k" "image_mset (process (p_arith E)) (mset (accepted (h_in (\<sigma> n)))) \<subseteq># mset (h_results (\<sigma> k))"
    using eventually_all_counted [of "{..< length (worker_pcs (\<sigma> m))}"] state_facts(5) [of m] by auto
  with m(1) show ?thesis by (meson le_trans)
qed

end

section \<open>Runs of scripts\<close>

text \<open>A script that ends with the exit of the program, continued by doing nothing.\<close>

definition scripted_run :: "('e, 'f) params \<Rightarrow> 'e \<Rightarrow> move list \<Rightarrow> 'f app \<Rightarrow> nat \<Rightarrow> 'f app" where
  "scripted_run E e ms a n = the (run_script E e (take n ms) a)"

lemma scripted_run_step:
  assumes "run_script E e ms a = Some z" and "app_init E a"
  shows "app_init E (scripted_run E e ms a 0)"
    and "scripted_run E e ms a (Suc n) = scripted_run E e ms a n
      \<or> app_step E (scripted_run E e ms a n) (scripted_run E e ms a (Suc n))"
proof -
  show "app_init E (scripted_run E e ms a 0)" using assms(2) by (simp add: scripted_run_def)
  have def: "run_script E e (take k ms) a = Some (scripted_run E e ms a k)" for k
    using assms(1) run_script_append [of E e "take k ms" "drop k ms" a]
    by (cases "run_script E e (take k ms) a") (simp_all add: scripted_run_def)
  show "scripted_run E e ms a (Suc n) = scripted_run E e ms a n
      \<or> app_step E (scripted_run E e ms a n) (scripted_run E e ms a (Suc n))"
  proof (cases "n < length ms")
    case True
    then have "move_exec E e (ms ! n) (scripted_run E e ms a n) = Some (scripted_run E e ms a (Suc n))"
      using def [of n] def [of "Suc n"] run_script_append [of E e "take n ms" "[ms ! n]" a]
      by (simp add: take_Suc_conv_app_nth split: option.splits)
    from move_exec_step [OF this] show ?thesis ..
  qed (simp add: scripted_run_def)
qed

lemma h_threw_stays:
  assumes "app_step E a a'" and "h_threw a"
  shows "h_threw a'"
  using assms(1)
proof (cases rule: app_step.cases)
  case st_main
  then show ?thesis using assms(2) by (cases rule: main_step.cases) simp_all
qed (use assms(2) in \<open>simp_all add: record_event_histories\<close>)

lemma scripted_run_fair:
  assumes run: "run_script E e ms a = Some z" and init: "app_init E a" and z: "main_pc z = MExit b" "\<not> h_threw z"
  shows "fair_application E (scripted_run E e ms a)"
proof
  let ?\<sigma> = "scripted_run E e ms a"
  have r: "infinite_run (app_init E) (app_step E) (live_inv E) ?\<sigma>"
    using scripted_run_step [OF run init] by unfold_locales
  have final: "?\<sigma> (max n (length ms)) = z" for n using run by (simp add: scripted_run_def)
  have "h_threw (?\<sigma> n) \<longrightarrow> h_threw (?\<sigma> (max n (length ms)))" for n
    by (rule infinite_run.run_preserves [OF r, where R = "\<lambda>a b. h_threw a \<longrightarrow> h_threw b"]) (auto dest: h_threw_stays)
  then show "quiet_run E ?\<sigma>" using scripted_run_step [OF run init] final z(2) by (auto simp: quiet_run_def)
  have "live_inv E z" using infinite_run.run_invar [OF r] final by metis
  then have "\<not> app_step E z a'" for a' using exited_final z(1) by (auto simp: live_inv_def drain_inv_def)
  then have "\<not> worker_can_move E i z" for i by (auto simp: worker_can_move_def dest: st_worker)
  then show "fair_to_workers E ?\<sigma>" using final by (metis fair_to_workers_def max.cobounded1)
qed

section \<open>Properties\<close>

text \<open>C5: Every accepted signal is eventually processed. In every infinite run of the program without thread
  exceptions that is weakly fair to the workers, with at least one worker, at any moment a later
  moment exists at which all signals accepted by then have been processed and counted, each as often
  as it was accepted.\<close>

theorem accepted_signals_processed_eventually:
  assumes "quiet_run E \<sigma>" and "fair_to_workers E \<sigma>" and "0 < workerCount (pool (p_cfg E))"
  shows "\<exists>m \<ge> n. image_mset (process (p_arith E)) (mset (accepted (h_in (\<sigma> n)))) \<subseteq># mset (h_results (\<sigma> m))"
proof -
  from assms(1,2) have "fair_application E \<sigma>" by unfold_locales
  then show ?thesis using assms(3) by (rule fair_application.eventually_processed)
qed

interpretation demo_fair: fair_application demo "scripted_run demo () demo_script demo_start"
  using demo_run scripted_run_fair demo_init by metis

theorem accepted_signals_processed_eventually_witness:
  "\<exists>\<sigma> m n. quiet_run demo \<sigma> \<and> fair_to_workers demo \<sigma> \<and> accepted (h_in (\<sigma> n)) = [demo_signal]
     \<and> process (p_arith demo) demo_signal \<in># mset (h_results (\<sigma> m))"
proof -
  let ?\<sigma> = "scripted_run demo () demo_script demo_start"
  have "accepted (h_in (?\<sigma> (length demo_script))) = [demo_signal]"
    using demo_run by (auto simp: scripted_run_def)
  moreover have "0 < workerCount (pool (p_cfg demo))" by simp
  ultimately show ?thesis
    using accepted_signals_processed_eventually [OF demo_fair.quiet demo_fair.fairness, of "length demo_script"]
      demo_fair.quiet demo_fair.fairness by (auto simp: insert_subset_eq_iff)
qed

end
