(* ===== verification/Application_Exceptions.thy ===== *)
theory Application_Exceptions
  imports Application_Report Application_Shutdown
begin

text \<open>
  Exceptions in the threads, seen from the whole program: the boundary at the top of every thread
  function turns each of them into one counted, graceful shutdown request, and none is lost. The
  handler is three steps (report, count, request), and anything may happen between them.
\<close>

section \<open>Modes\<close>

text \<open>All that matters of a thread here.\<close>

datatype mode = Working | Handling unwinding | Ended

definition mode_of :: "('p \<Rightarrow> unwinding option) \<Rightarrow> ('p \<Rightarrow> bool) \<Rightarrow> 'p option \<Rightarrow> mode" where
  "mode_of handler finished po =
     (case po of
        None \<Rightarrow> Working
      | Some p \<Rightarrow> if finished p then Ended else case handler p of None \<Rightarrow> Working | Some u \<Rightarrow> Handling u)"

fun mode_after :: "unwinding option \<Rightarrow> mode" where
  "mode_after None = Ended"
| "mode_after (Some u) = Handling u"

definition modes :: "'f app \<Rightarrow> mode list" where
  "modes a = mode_of producer_handler (\<lambda>p. p = PDone) (producer_pc a)
     # mode_of logger_handler (\<lambda>p. p = LDone) (logger_pc a)
     # mode_of watchdog_handler (\<lambda>p. p = WdDone) (watchdog_pc a)
     # map (mode_of worker_handler (\<lambda>p. p = KDone)) (worker_pcs a)"

text \<open>What a step of a thread does to its mode and to the shared state.\<close>

definition mode_change :: "'f event \<Rightarrow> mode \<times> 'f shared \<Rightarrow> mode \<times> 'f shared \<Rightarrow> bool" where
  "mode_change ev = (\<lambda>(m, s) (m', s').
     (ev \<noteq> Threw \<and> m = Working \<and> (m' = Working \<or> m' = Ended)
        \<and> (tok_requested (shutdownToken s) \<longrightarrow> tok_requested (shutdownToken s')))
   \<or> (ev = Threw \<and> m = Working \<and> (\<exists>e. m' = Handling (UReport e)) \<and> s' = s)
   \<or> (ev = Threw \<and> (\<exists>u built role. m = Handling u \<and> m' = mode_after (fst (boundary_step built role u s))
        \<and> s' = snd (boundary_step built role u s))))"

lemma mode_changeE:
  assumes "mode_change ev (m, s) (m', s')"
  obtains (ordinary) "ev \<noteq> Threw" and "m = Working" and "m' = Working \<or> m' = Ended"
      and "tok_requested (shutdownToken s) \<longrightarrow> tok_requested (shutdownToken s')"
    | (throw) e where "ev = Threw" and "m = Working" and "m' = Handling (UReport e)" and "s' = s"
    | (handle) u built role where "ev = Threw" and "m = Handling u"
      and "m' = mode_after (fst (boundary_step built role u s))" and "s' = snd (boundary_step built role u s)"
  using assms unfolding mode_change_def by auto

context pipeline_thread
begin

lemma step_mode:
  assumes "tstep ev (p, s) (p', s')"
  shows "mode_change ev (mode_of handler finished (Some p), s) (mode_of handler finished (Some p'), s')"
proof (cases "handler p")
  case None
  have p: "mode_of handler finished (Some p) = Working"
    using finished_final [of p ev s p' s'] assms None by (auto simp: mode_of_def)
  show ?thesis
  proof (cases "ev = Threw")
    case True
    with step_throws [of p s p' s'] assms None obtain e where e: "s' = s" "handler p' = Some (UReport e)" by auto
    moreover have "\<not> finished p'" using finished_handler [of p'] e(2) by auto
    ultimately show ?thesis using True p by (auto simp: mode_change_def mode_of_def)
  next
    case False
    with step_handler [OF assms] step_token [OF assms] p show ?thesis by (auto simp: mode_change_def mode_of_def)
  qed
next
  case (Some u)
  from step_handles [OF assms Some] obtain built role where h: "ev = Threw"
    "handler p' = fst (boundary_step built role u s)" "s' = snd (boundary_step built role u s)" "handler p' = None \<longrightarrow> finished p'"
    by (elim conjE exE) (rule that; assumption)
  have "mode_of handler finished (Some p') = mode_after (handler p')"
    using h(4) finished_handler [of p'] by (cases "handler p'") (auto simp: mode_of_def)
  moreover have "mode_of handler finished (Some p) = Handling u"
    using Some finished_handler [of p] by (auto simp: mode_of_def)
  ultimately show ?thesis using h by (auto simp: mode_change_def)
qed

end

lemma main_step_modes:
  assumes "main_step E a a'" and "started_inv a"
  shows "modes a' = modes a \<and> h_threw a' = h_threw a
    \<and> (tok_requested (shutdownToken (sh a)) \<longrightarrow> tok_requested (shutdownToken (sh a')))
    \<and> threadExceptions (sh_metrics (sh a')) = threadExceptions (sh_metrics (sh a))"
  using assms
proof (induction rule: main_step.induct)
  case (mn_start_worker a i)
  then have "worker_pcs a ! i = None" by (auto simp: started_inv_def)
  with mn_start_worker show ?case by (simp add: modes_def mode_of_def map_update list_update_same_conv)
qed (auto simp: modes_def mode_of_def step_defs started_inv_def dest: wait_token simp del: waitForShutdown.simps)

text \<open>A step of the program changes at most one mode.\<close>

lemma app_step_modes:
  assumes "app_step E a a'" and "base_inv E a"
  obtains (main) "modes a' = modes a" and "h_threw a' = h_threw a"
      and "tok_requested (shutdownToken (sh a)) \<longrightarrow> tok_requested (shutdownToken (sh a'))"
      and "threadExceptions (sh_metrics (sh a')) = threadExceptions (sh_metrics (sh a))"
    | (thread) j ev where "j < length (modes a)" and "modes a' = (modes a)[j := modes a' ! j]"
      and "mode_change ev (modes a ! j, sh a) (modes a' ! j, sh a')" and "h_threw a' \<longleftrightarrow> h_threw a \<or> ev = Threw"
      and "ev \<noteq> Threw \<Longrightarrow> threadExceptions (sh_metrics (sh a')) = threadExceptions (sh_metrics (sh a))"
  using assms(1)
proof (cases rule: app_step.cases)
  case (st_producer p ev p' s')
  with producer_thread.step_mode [OF st_producer(3)] exceptions_counted(1) [OF st_producer(3)] show thesis
    by (intro thread [of 0 ev]) (simp_all add: modes_def record_event_histories)
next
  case (st_worker i k ev k' s')
  with worker_thread.step_mode [OF st_worker(4)] exceptions_counted(2) [OF st_worker(4)] show thesis
    by (intro thread [of "Suc (Suc (Suc i))" ev]) (simp_all add: modes_def record_event_histories map_update)
next
  case (st_logger l ev l' s')
  with logger_thread.step_mode [OF st_logger(3)] exceptions_counted(3) [OF st_logger(3)] show thesis
    by (intro thread [of 1 ev]) (simp_all add: modes_def record_event_histories)
next
  case (st_watchdog w ev w' s')
  with watchdog_thread.step_mode [OF st_watchdog(3)] exceptions_counted(4) [OF st_watchdog(3)] show thesis
    by (intro thread [of 2 ev]) (simp_all add: modes_def record_event_histories)
next
  case st_main
  with assms(2) main_step_modes show thesis by (intro main) (auto simp: base_inv_def phase_inv_def)
qed

section \<open>The invariant\<close>

definition handling :: "'f app \<Rightarrow> bool" where
  "handling a \<longleftrightarrow> (\<exists>u. Handling u \<in> set (modes a))"

definition counted_mode :: "mode \<Rightarrow> bool" where
  "counted_mode m \<longleftrightarrow> m = Ended \<or> m = Handling URequest"

fun steps_left :: "mode \<Rightarrow> nat" where
  "steps_left (Handling u) = handler_rank u"
| "steps_left _ = 0"

text \<open>
  An exception is in a handler that has not requested shutdown yet, or shutdown is requested; it is in
  a handler that has not counted it yet, or the counter is not zero.
\<close>

definition exception_inv :: "('e, 'f) params \<Rightarrow> 'f app \<Rightarrow> bool" where
  "exception_inv E a \<longleftrightarrow> base_inv E a
     \<and> (handling a \<longrightarrow> h_threw a)
     \<and> (h_threw a \<longrightarrow> tok_requested (shutdownToken (sh a)) \<or> handling a)
     \<and> (threadExceptions (sh_metrics (sh a)) \<noteq> 0 \<longrightarrow> h_threw a)
     \<and> (workerCount (pool (p_cfg E)) + 3 < 2 ^ 64 \<longrightarrow>
          unat (threadExceptions (sh_metrics (sh a))) \<le> number_of counted_mode (modes a)
          \<and> (h_threw a \<longrightarrow> threadExceptions (sh_metrics (sh a)) \<noteq> 0
               \<or> (\<exists>m \<in> set (modes a). 1 < steps_left m)))"

lemma length_modes: "base_inv E a \<Longrightarrow> length (modes a) = workerCount (pool (p_cfg E)) + 3"
  by (simp add: modes_def base_inv_def phase_inv_def closed_inv_def)

lemma set_update_other: "j < length xs \<Longrightarrow> x \<in> set xs \<Longrightarrow> x \<noteq> xs ! j \<Longrightarrow> x \<in> set (xs[j := y])"
  by (metis in_set_conv_nth length_list_update nth_list_update_neq)

text \<open>A mode that is not the one that changes stays.\<close>

lemma other_mode_stays:
  assumes "j < length (modes a)" and "modes a' = (modes a)[j := modes a' ! j]"
    and "\<exists>m \<in> set (modes a). P m" and "\<not> P (modes a ! j)"
  shows "\<exists>m \<in> set (modes a'). P m"
  using assms set_update_other [OF assms(1)] by metis

lemma changed_mode: "j < length (modes a) \<Longrightarrow> modes a' = (modes a)[j := modes a' ! j] \<Longrightarrow> modes a' ! j \<in> set (modes a')"
  by (metis length_list_update nth_mem)

lemma handling_modes: "handling a \<longleftrightarrow> (\<exists>m \<in> set (modes a). \<exists>u. m = Handling u)"
  by (auto simp: handling_def)

lemma counted_update:
  assumes "j < length (modes a)" and "modes a' = (modes a)[j := modes a' ! j]"
  shows "number_of counted_mode (modes a') + (if counted_mode (modes a ! j) then 1 else 0)
    = number_of counted_mode (modes a) + (if counted_mode (modes a' ! j) then 1 else 0)"
  using number_of_update [OF assms(1), of counted_mode "modes a' ! j"] assms(2) by simp

lemma exception_inv_handle:
  assumes inv: "exception_inv E a" and base: "base_inv E a'" and j: "j < length (modes a)"
    and modes: "modes a' = (modes a)[j := modes a' ! j]" and threw: "h_threw a'"
    and handle: "modes a ! j = Handling u" "modes a' ! j = mode_after (fst (boundary_step built role u (sh a)))"
      "sh a' = snd (boundary_step built role u (sh a))"
  shows "exception_inv E a'"
proof -
  let ?n = "threadExceptions (sh_metrics (sh a))"
  note count = counted_update [OF j modes] and here = changed_mode [OF j modes]
  show ?thesis
  proof (cases u)
    case (UReport e)
    with handle here have "handling a'" "\<exists>m \<in> set (modes a'). 1 < steps_left m"
      by (auto simp: handling_def intro!: bexI [of _ "modes a' ! j"])
    with inv base handle UReport count threw show ?thesis by (auto simp: exception_inv_def counted_mode_def)
  next
    case UCount
    have "unat (threadExceptions (sh_metrics (sh a'))) = Suc (unat ?n)" "Suc (unat ?n) \<le> number_of counted_mode (modes a')"
      if "workerCount (pool (p_cfg E)) + 3 < 2 ^ 64"
    proof -
      show le: "Suc (unat ?n) \<le> number_of counted_mode (modes a')"
        using inv that count handle UCount by (simp add: exception_inv_def counted_mode_def)
      also have "\<dots> \<le> workerCount (pool (p_cfg E)) + 3"
        using number_of_le_length [of counted_mode "modes a'"] length_modes [OF base] by simp
      finally have "Suc (unat ?n) < 2 ^ 64" using that by simp
      then show "unat (threadExceptions (sh_metrics (sh a'))) = Suc (unat ?n)"
        using handle UCount by (simp add: threadExceptions_def metrics_simps on_metrics_def unat_word_ariths)
    qed
    moreover have "handling a'" using handle here UCount by (auto simp: handling_def)
    ultimately show ?thesis using base threw by (auto simp: exception_inv_def simp flip: unat_eq_zero)
  next
    case URequest
    with handle have "tok_requested (shutdownToken (sh a'))" by (simp add: request_shutdown_def)
    moreover have "\<exists>m \<in> set (modes a'). 1 < steps_left m" if "\<exists>m \<in> set (modes a). 1 < steps_left m"
      using other_mode_stays [OF j modes that] handle(1) URequest by simp
    moreover have "h_threw a" using inv handle(1) j by (metis exception_inv_def handling_def nth_mem)
    ultimately show ?thesis
      using inv base handle URequest count threw by (auto simp: exception_inv_def counted_mode_def request_shutdown_def)
  qed
qed

lemma exception_inv_step:
  assumes step: "app_step E a a'" and inv: "exception_inv E a"
  shows "exception_inv E a'"
proof -
  have base: "base_inv E a" "base_inv E a'"
    using assms application.invar_step by (auto simp: exception_inv_def)
  from step base(1) show ?thesis
  proof (cases rule: app_step_modes)
    case main
    with inv base(2) show ?thesis by (auto simp: exception_inv_def handling_def)
  next
    case (thread j ev)
    note stays = other_mode_stays [OF thread(1,2)] and here = changed_mode [OF thread(1,2)]
      and count = counted_update [OF thread(1,2)]
    from thread(3) show ?thesis
    proof (cases rule: mode_changeE)
      case ordinary
      have "handling a'" if "handling a"
        using stays [of "\<lambda>m. \<exists>u. m = Handling u"] that ordinary(2) by (simp add: handling_modes)
      moreover have "handling a" if "handling a'"
        using that ordinary(3) thread(1,2) by (metis handling_def mode.distinct(1,5) set_update_subset_insert insert_iff subset_iff)
      moreover have "\<exists>m \<in> set (modes a'). 1 < steps_left m" if "\<exists>m \<in> set (modes a). 1 < steps_left m"
        using stays [OF that] ordinary(2) by simp
      ultimately show ?thesis
        using inv base(2) ordinary count thread(4,5) by (auto simp: exception_inv_def counted_mode_def)
    next
      case (throw e)
      have "handling a'" using here throw(3) by (auto simp: handling_def)
      moreover have "\<exists>m \<in> set (modes a'). 1 < steps_left m" using here throw(3) by (intro bexI [of _ "modes a' ! j"]) simp_all
      ultimately show ?thesis
        using inv base(2) throw count thread(4) by (auto simp: exception_inv_def counted_mode_def)
    next
      case (handle u built role)
      with thread(4) show ?thesis by (intro exception_inv_handle [OF inv base(2) thread(1,2)]) simp_all
    qed
  qed
qed

interpretation exceptions: invariant_system "app_init E" "app_step E" "exception_inv E" for E
proof unfold_locales
  show "exception_inv E a" if "app_init E a" for a
    using that application.invar_init [OF that]
    by (auto simp: exception_inv_def handling_def modes_def mode_of_def new_metrics_def threadExceptions_def elim!: app_init_cases)
  show "exception_inv E a'" if "app_step E a a'" "exception_inv E a" for a a'
    using that by (rule exception_inv_step)
qed

section \<open>A handler can always go on\<close>

lemma mode_resumed [simp]:
  "mode_of producer_handler (\<lambda>p. p = PDone) (Some (producer_resume x)) = mode_after x"
  "mode_of worker_handler (\<lambda>p. p = KDone) (Some (worker_resume x)) = mode_after x"
  "mode_of logger_handler (\<lambda>p. p = LDone) (Some (logger_resume x)) = mode_after x"
  "mode_of watchdog_handler (\<lambda>p. p = WdDone) (Some (watchdog_resume x)) = mode_after x"
  by (cases x; simp add: mode_of_def)+

lemma steps_left_falls: "steps_left (mode_after (fst (boundary_step built role u s))) < handler_rank u"
  by (cases u) simp_all

lemma mode_of_handling:
  assumes "mode_of handler finished po = Handling u"
  obtains p where "po = Some p" and "handler p = Some u"
  using assms by (auto simp: mode_of_def split: option.splits if_splits)

definition handler_steps :: "'f app \<Rightarrow> nat" where
  "handler_steps a = sum_list (map steps_left (modes a))"

lemma mode_handled [simp]:
  "mode_of producer_handler (\<lambda>p. p = PDone) (Some (PUnwind u)) = Handling u"
  "mode_of worker_handler (\<lambda>p. p = KDone) (Some (KUnwind u)) = Handling u"
  "mode_of logger_handler (\<lambda>p. p = LDone) (Some (LUnwind u)) = Handling u"
  "mode_of watchdog_handler (\<lambda>p. p = WdDone) (Some (WdUnwind u)) = Handling u"
  by (simp_all add: mode_of_def)

lemma handler_steps_update:
  assumes "j < length (modes a)" and "modes a' = (modes a)[j := m]" and "steps_left m < steps_left (modes a ! j)"
  shows "handler_steps a' < handler_steps a"
proof -
  have "modes a = take j (modes a) @ modes a ! j # drop (Suc j) (modes a)"
    and "modes a' = take j (modes a) @ m # drop (Suc j) (modes a)"
    using assms by (simp_all add: id_take_nth_drop upd_conv_take_nth_drop)
  then have "handler_steps a = sum_list (map steps_left (take j (modes a))) + (steps_left (modes a ! j)
      + sum_list (map steps_left (drop (Suc j) (modes a))))"
    and "handler_steps a' = sum_list (map steps_left (take j (modes a))) + (steps_left m
      + sum_list (map steps_left (drop (Suc j) (modes a))))"
    unfolding handler_steps_def by (metis map_append list.simps(9) sum_list.Cons sum_list_append)+
  with assms(3) show ?thesis by simp
qed

lemma handler_goes_on:
  assumes "handling a"
  shows "\<exists>a'. app_step E a a' \<and> handler_steps a' < handler_steps a"
proof -
  obtain u where u: "Handling u \<in> set (modes a)" using assms by (auto simp: handling_def)
  consider (producer) "producer_pc a = Some (PUnwind u)" | (logger) "logger_pc a = Some (LUnwind u)"
    | (watchdog) "watchdog_pc a = Some (WdUnwind u)" | (worker) i where "i < length (worker_pcs a)" "worker_pcs a ! i = Some (KUnwind u)"
    using u by (auto simp: modes_def in_set_conv_nth elim!: mode_of_handling [OF sym])
  then show ?thesis
  proof cases
    case producer
    from st_producer [OF this pr_handle [where built = True], of E] show ?thesis
      by (intro exI conjI) (assumption, rule handler_steps_update [where j = 0], simp_all add: modes_def record_event_histories producer, rule steps_left_falls)
  next
    case logger
    from st_logger [OF this lg_handle [where built = True], of E] show ?thesis
      by (intro exI conjI) (assumption, rule handler_steps_update [where j = 1], simp_all add: modes_def record_event_histories logger, rule steps_left_falls)
  next
    case watchdog
    from st_watchdog [OF this wd_handle [where built = True], of E] show ?thesis
      by (intro exI conjI) (assumption, rule handler_steps_update [where j = 2], simp_all add: modes_def record_event_histories watchdog, rule steps_left_falls)
  next
    case (worker i)
    from st_worker [OF worker wk_handle [where built = True], of E] show ?thesis
      by (intro exI conjI) (assumption, rule handler_steps_update [where j = "Suc (Suc (Suc i))"],
        simp_all add: modes_def record_event_histories worker map_update, rule steps_left_falls)
  qed
qed

section \<open>Properties\<close>

text \<open>C7: No exception is lost and none leaves the program running. Whatever happens between the steps of
  the handlers, in every reachable state an exception of a thread is in a handler that has still to
  request shutdown, or shutdown is requested; the exception counter never exceeds the number of threads
  that have counted or ended, and is zero while there was no exception. Outside the handlers the counter
  is non-zero exactly when a thread threw, and then shutdown is requested and, once startup is over, the
  program cannot run for ever. A handler is never blocked: while one is active, the program has a step
  that shortens what the handlers have left to do.\<close>

theorem exceptions_end_the_run:
  assumes "reaches (app_init E) (app_step E) a" and "workerCount (pool (p_cfg E)) + 3 < 2 ^ 64"
  shows "(h_threw a \<longrightarrow> shutdownRequested (shutdownToken (sh a)) \<or> handling a)
    \<and> unat (threadExceptions (sh_metrics (sh a))) \<le> number_of counted_mode (modes a)
    \<and> (threadExceptions (sh_metrics (sh a)) \<noteq> 0 \<longrightarrow> h_threw a)
    \<and> (\<not> handling a \<longrightarrow> (h_threw a \<longleftrightarrow> threadExceptions (sh_metrics (sh a)) \<noteq> 0)
        \<and> (h_threw a \<longrightarrow> shutdownRequested (shutdownToken (sh a))
            \<and> (2 \<le> phase (main_pc a) \<longrightarrow> \<not> (\<exists>f. f 0 = a \<and> (\<forall>i. app_step E (f i) (f (Suc i)))))))
    \<and> (handling a \<longrightarrow> (\<exists>a'. app_step E a a' \<and> handler_steps a' < handler_steps a))"
proof -
  have inv: "exception_inv E a" using exceptions.reaches_invar [OF assms(1)] .
  have counted: "threadExceptions (sh_metrics (sh a)) \<noteq> 0" if "h_threw a" "\<not> handling a"
  proof (rule ccontr)
    assume "\<not> threadExceptions (sh_metrics (sh a)) \<noteq> 0"
    with inv that assms(2) obtain m where m: "m \<in> set (modes a)" "1 < steps_left m"
      by (auto simp: exception_inv_def)
    then have "handling a" by (cases m rule: mode.exhaust) (auto simp: handling_def)
    with that show False by simp
  qed
  have ends: "\<not> (\<exists>f. f 0 = a \<and> (\<forall>i. app_step E (f i) (f (Suc i))))"
    if "shutdownRequested (shutdownToken (sh a))" "2 \<le> phase (main_pc a)"
    using stopping_no_infinite_run [of a E] inv that by (auto simp: exception_inv_def shutdownRequested_def stopping_def)
  have token: "shutdownRequested (shutdownToken (sh a)) \<or> handling a" if "h_threw a"
    using inv that by (simp add: exception_inv_def shutdownRequested_def)
  show ?thesis
    using inv assms(2) counted ends token handler_goes_on [of a E] by (intro conjI impI) (auto simp: exception_inv_def)
qed

text \<open>A run in which the producer is ended by an exception of unknown type, right after the start.\<close>

lemma demo_throws:
  "\<exists>a. reaches (app_init demo) (app_step demo) a \<and> h_threw a \<and> \<not> handling a \<and> main_pc a = MWait"
proof -
  obtain a where a: "run_script demo () (replicate 5 (MoveMain sigint)) demo_start = Some a"
    and pc: "main_pc a = MWait" "producer_pc a = Some PInit" "\<not> handling a"
    by (simp add: demo_start_def demo_exec handling_def modes_def mode_of_def eval_nat_numeral del: waitForShutdown.simps)
  have "reaches (app_init demo) (app_step demo) a"
    using run_script_reaches [OF a] reaches_init [of "app_init demo", OF demo_init] by blast
  moreover define b where "b = record_event Threw (a\<lparr>producer_pc := Some (PUnwind (UReport OtherException)), sh := sh a\<rparr>)"
  moreover have "app_step demo a b"
    unfolding b_def by (rule st_producer [OF pc(2)]) (simp add: pr_throw)
  ultimately have b: "reaches (app_init demo) (app_step demo) b" by (auto intro: reaches_step)
  obtain c where c: "run_script demo () (replicate 3 (MoveProducer 0)) b = Some c"
    and cpc: "h_threw c" "main_pc c = MWait" "\<not> handling c"
    using pc by (simp add: b_def demo_exec eval_nat_numeral record_event_histories handling_def modes_def mode_of_def del: waitForShutdown.simps)
  with run_script_reaches [OF c b] show ?thesis by blast
qed

theorem exceptions_end_the_run_witness:
  "\<exists>a. reaches (app_init demo) (app_step demo) a \<and> h_threw a
     \<and> threadExceptions (sh_metrics (sh a)) \<noteq> 0 \<and> shutdownRequested (shutdownToken (sh a))
     \<and> \<not> (\<exists>f. f 0 = a \<and> (\<forall>i. app_step demo (f i) (f (Suc i))))"
proof -
  obtain a where a: "reaches (app_init demo) (app_step demo) a" "h_threw a" "\<not> handling a" "main_pc a = MWait"
    using demo_throws by blast
  with exceptions_end_the_run [OF a(1)] show ?thesis by (intro exI [of _ a]) simp
qed

end
