(* ===== verification/Log_Liveness.thy ===== *)
theory Log_Liveness
  imports Application_Fairness Application_Exceptions
begin

text \<open>
  Liveness of the log in normal operation: in a run without exceptions that is fair to the logger
  thread, every record that the log queue accepts eventually leaves it, evicted and counted or taken by the
  logger, and what the logger takes reaches every sink, whether or not the program is ever shut
  down.
\<close>

section \<open>Steps of the logger\<close>

definition logger_moves :: "('e, 'f) params \<Rightarrow> 'f app \<Rightarrow> 'f app \<Rightarrow> bool" where
  "logger_moves E a a' \<longleftrightarrow> (\<exists>l ev l' s'. logger_pc a = Some l
     \<and> logger_step (p_cfg E) (p_sys E) (p_show E) (logger_hb E) ev (l, sh a) (l', s')
     \<and> a' = record_event ev (a\<lparr>logger_pc := Some l', sh := s'\<rparr>))"

definition logger_can_move :: "('e, 'f) params \<Rightarrow> 'f app \<Rightarrow> bool" where
  "logger_can_move E a \<longleftrightarrow> (\<exists>l ev l' s'. logger_pc a = Some l \<and> ev \<noteq> Threw
     \<and> logger_step (p_cfg E) (p_sys E) (p_show E) (logger_hb E) ev (l, sh a) (l', s'))"

definition fair_to_logger :: "('e, 'f) params \<Rightarrow> (nat \<Rightarrow> 'f app) \<Rightarrow> bool" where
  "fair_to_logger E \<sigma> \<longleftrightarrow> (\<forall>n. (\<forall>m \<ge> n. logger_can_move E (\<sigma> m)) \<longrightarrow> (\<exists>m \<ge> n. logger_moves E (\<sigma> m) (\<sigma> (Suc m))))"

text \<open>Only an empty queue keeps the logger from running.\<close>

lemma logger_step_exists:
  assumes "l \<noteq> LDone" and "logger_handler l = None" and "l = LPop \<longrightarrow> q_queue (outputQueue s) \<noteq> []"
  shows "\<exists>ev l' s'. ev \<noteq> Threw \<and> logger_step cfg sys fmt hb ev (l, s) (l', s')"
proof -
  have "\<exists>ev l' s'. ev \<noteq> Threw \<and> logger_exec cfg sys fmt hb now l s = Some (ev, l', s')" for now
    using assms by (cases l) (auto simp: waitAndPop_def popLockedAndNotify_def)
  then show ?thesis using logger_exec_step by metis
qed

lemma logger_rank_falls:
  assumes "logger_step cfg sys fmt hb ev (l, s) (l', s')" and "ev \<noteq> Threw" and "l \<noteq> LPop" and "n = length (sinks s)"
  shows "logger_rank n l' < logger_rank n l"
  using assms by (cases rule: logger_step.cases) simp_all

lemma logger_pops:
  assumes "logger_step cfg sys fmt hb ev (LPop, s) (l', s')" and "ev \<noteq> Threw" and "q_queue (outputQueue s) \<noteq> []"
  shows "\<exists>r. ev = OutQ WaitAndPop (Got (Some r)) \<and> length (q_queue (outputQueue s)) = Suc (length (q_queue (outputQueue s')))"
  using assms by (cases rule: logger_step.cases) (auto simp: waitAndPop_def popLockedAndNotify_def)

text \<open>The logger's pc changes by its own steps only, and the sinks stay.\<close>

lemma logger_pc_change:
  assumes "app_step E a a'" and "base_inv E a" and "logger_pc a = Some l"
  shows "logger_pc a' = Some l \<or> logger_moves E a a'"
  using assms(1)
proof (cases rule: app_step.cases)
  case (st_logger l' ev l'' s')
  with assms(3) show ?thesis by (auto simp: logger_moves_def)
next
  case st_main
  then show ?thesis
  proof (cases rule: main_step.cases)
    case mn_start_logger
    with assms(2,3) show ?thesis by (auto simp: base_inv_def phase_inv_def started_inv_def)
  qed (use assms(3) in simp_all)
qed (use assms(3) in simp_all)

lemma sinks_stay:
  assumes "app_step E a a'"
  shows "length (sinks (sh a')) = length (sinks (sh a))"
  using assms
proof (cases rule: app_step.cases)
  case (st_producer p ev p' s')
  with producer_thread.step_sizes [OF st_producer(3)] show ?thesis by simp
next
  case (st_worker i k ev k' s')
  with worker_thread.step_sizes [OF st_worker(4)] show ?thesis by simp
next
  case (st_logger l ev l' s')
  with logger_thread.step_sizes [OF st_logger(3)] show ?thesis by simp
next
  case (st_watchdog w ev w' s')
  with watchdog_thread.step_sizes [OF st_watchdog(3)] show ?thesis by simp
next
  case st_main
  then show ?thesis by (cases rule: main_step.cases) (simp_all add: step_defs)
qed

lemma log_history_extends:
  assumes "app_step E a a'"
  shows "prefix (h_out a) (h_out a')"
  using assms
proof (cases rule: app_step.cases)
  case st_main
  then show ?thesis by (cases rule: main_step.cases) simp_all
qed (simp_all add: record_event_histories)

section \<open>Records leave the queue in order\<close>

text \<open>How many of the accepted records have left the queue.\<close>

definition gone_records :: "'f app \<Rightarrow> nat" where
  "gone_records a = length (accepted (h_out a)) - length (q_queue (outputQueue (sh a)))"

lemma run_ops_app:
  "run_ops (xs @ ys) q = (case run_ops xs q of None \<Rightarrow> None
     | Some (tr, q1) \<Rightarrow> (case run_ops ys q1 of None \<Rightarrow> None | Some (tr', q2) \<Rightarrow> Some (tr @ tr', q2)))"
  by (induction xs arbitrary: q) (auto split: outcome.splits option.splits)

lemma log_history:
  assumes "base_inv E a"
  shows "\<exists>removed evicted. accepted (h_out a) = removed @ q_queue (outputQueue (sh a))
    \<and> removed \<in> shuffles (delivered (h_out a)) evicted \<and> length removed = gone_records a
    \<and> droppedCount (outputQueue (sh a)) = of_nat (length evicted)"
proof -
  have run: "run_ops (map fst (h_out a)) (out_start E) = Some (h_out a, outputQueue (sh a))" "wf_tsq (out_start E)"
    using assms by (simp_all add: base_inv_def trace_inv_def)
  have "rejected False (h_out a) = 0" using drop_oldest_no_rejection [OF run(1)] by (simp add: out_start_def)
  moreover obtain removed evicted where
    "q_queue (out_start E) @ accepted (h_out a) = removed @ q_queue (outputQueue (sh a))"
    "removed \<in> shuffles (delivered (h_out a)) evicted"
    "q_droppedCount (outputQueue (sh a))
       = q_droppedCount (out_start E) + of_nat (length evicted + rejected (q_closed (out_start E)) (h_out a))"
    using run_ops_history [OF run] by blast
  ultimately show ?thesis
    by (intro exI [of _ removed] exI [of _ evicted]) (simp add: out_start_def droppedCount_def gone_records_def)
qed

lemma gone_records_grow:
  assumes "base_inv E a" and "base_inv E a'" and "prefix (h_out a) (h_out a')"
  shows "gone_records a \<le> gone_records a'"
proof -
  obtain zs where zs: "h_out a' = h_out a @ zs" using assms(3) by (auto simp: prefix_def)
  have wf: "wf_tsq (out_start E)" and run: "run_ops (map fst (h_out a)) (out_start E) = Some (h_out a, outputQueue (sh a))"
    and run': "run_ops (map fst (h_out a')) (out_start E) = Some (h_out a', outputQueue (sh a'))"
    using assms(1,2) by (simp_all add: base_inv_def trace_inv_def)
  have "run_ops (map fst zs) (outputQueue (sh a)) = Some (zs, outputQueue (sh a'))"
    using run run' zs by (simp add: run_ops_app split: option.splits prod.splits)
  from run_ops_history [OF this run_ops_wf [OF run wf]] obtain removed
    where "q_queue (outputQueue (sh a)) @ accepted zs = removed @ q_queue (outputQueue (sh a'))" by blast
  then have "length (q_queue (outputQueue (sh a))) + length (accepted zs) = length removed + length (q_queue (outputQueue (sh a')))"
    by (metis length_append)
  with zs show ?thesis by (simp add: gone_records_def accepted_append)
qed

section \<open>The invariant\<close>

text \<open>Before the logger there is no thread that writes to the log.\<close>

definition unlogged_inv :: "'f app \<Rightarrow> bool" where
  "unlogged_inv a \<longleftrightarrow> (logger_pc a = None \<longrightarrow> watchdog_pc a = None \<and> (\<forall>i < length (worker_pcs a). worker_pcs a ! i = None)
     \<and> accepted (h_out a) = [])"

lemma unlogged_inv_step:
  assumes "app_step E a a'" and "unlogged_inv a" and "started_inv a"
  shows "unlogged_inv a'"
  using assms(1)
proof (cases rule: app_step.cases)
  case (st_producer p ev p' s')
  from st_producer(3,1) have "h_out a' = h_out a" by (cases rule: producer_step.cases) auto
  with st_producer(1) assms(2) show ?thesis by (simp add: unlogged_inv_def)
next
  case st_main
  then show ?thesis
    using assms(2,3) by (cases rule: main_step.cases) (auto simp: unlogged_inv_def accepted_append started_inv_def)
qed (use assms(2) in \<open>auto simp: unlogged_inv_def\<close>)

definition log_inv :: "('e, 'f) params \<Rightarrow> 'f app \<Rightarrow> bool" where
  "log_inv E a \<longleftrightarrow> drain_inv E a \<and> exception_inv E a \<and> unlogged_inv a"

interpretation logging: invariant_system "app_init E" "app_step E" "log_inv E" for E
proof unfold_locales
  show "log_inv E a" if "app_init E a" for a
    using that drain.invar_init [OF that] exceptions.invar_init [OF that]
    by (auto simp: log_inv_def unlogged_inv_def elim: app_init_cases)
  show "log_inv E a'" if "app_step E a a'" "log_inv E a" for a a'
    using that drain.invar_step exceptions.invar_step unlogged_inv_step
    by (auto simp: log_inv_def drain_inv_def base_inv_def phase_inv_def)
qed

text \<open>While a record waits, the logger is at work.\<close>

lemma waiting_logger:
  assumes "log_inv E a" and "\<not> h_threw a" and "q_queue (outputQueue (sh a)) \<noteq> []"
  obtains l where "logger_pc a = Some l" and "l \<noteq> LDone" and "logger_handler l = None" and "\<forall>k. l \<noteq> LFlush k"
proof -
  have base: "base_inv E a" and fin: "end_inv a" and idle: "unlogged_inv a" and calm: "\<not> handling a"
    using assms(1,2) by (auto simp: log_inv_def drain_inv_def exception_inv_def)
  obtain l where l: "logger_pc a = Some l"
    using idle assms(3) log_history [OF base] by (cases "logger_pc a") (auto simp: unlogged_inv_def)
  moreover have "logger_handler l = None"
    using calm l by (cases "logger_handler l") (auto simp: handling_def modes_def)
  moreover have "l \<noteq> LDone" "\<forall>k. l \<noteq> LFlush k" using fin l assms(3) by (auto simp: end_inv_def seen_end_def)
  ultimately show thesis using that by blast
qed

section \<open>Every record is logged or evicted\<close>

text \<open>The logger between two records.\<close>

fun between_records :: "'f lpc option \<Rightarrow> bool" where
  "between_records (Some (LDepth r)) = False"
| "between_records (Some (LStoreDepth r d)) = False"
| "between_records (Some (LRun r)) = False"
| "between_records (Some (LWrite line k)) = False"
| "between_records _ = True"

lemma between_written: "between_records po \<Longrightarrow> written po k rs = rs"
  by (cases "(po, k, rs)" rule: written.cases) simp_all

lemma busy_logger:
  assumes "\<not> between_records po"
  obtains l where "po = Some l" and "l \<noteq> LDone" and "logger_handler l = None" and "l \<noteq> LPop"
  using assms by (cases po rule: between_records.cases) auto

locale fair_logging =
  fixes E :: "('e, 'f) params" and \<sigma> :: "nat \<Rightarrow> 'f app"
  assumes quiet: "quiet_run E \<sigma>" and fairness: "fair_to_logger E \<sigma>"

sublocale fair_logging < logger: weakly_fair_run "app_init E" "app_step E" "log_inv E" \<sigma>
  "logger_can_move E" "logger_moves E"
proof unfold_locales
  show "app_init E (\<sigma> 0)" using quiet by (simp add: quiet_run_def)
  show "\<sigma> (Suc n) = \<sigma> n \<or> app_step E (\<sigma> n) (\<sigma> (Suc n))" for n using quiet by (simp add: quiet_run_def)
  show "\<exists>m \<ge> n. logger_moves E (\<sigma> m) (\<sigma> (Suc m))" if "\<And>m. n \<le> m \<Longrightarrow> logger_can_move E (\<sigma> m)" for n
    using that fairness by (simp add: fair_to_logger_def)
qed

context fair_logging
begin

abbreviation rank :: "'f app \<Rightarrow> nat" where
  "rank a \<equiv> rank_of (logger_rank (length (sinks (sh a)))) (logger_pc a)"

lemma run_facts:
  shows "log_inv E (\<sigma> n)" "\<not> h_threw (\<sigma> n)" "base_inv E (\<sigma> n)" "sink_inv E (\<sigma> n)"
proof -
  show log: "log_inv E (\<sigma> n)" by (rule logger.run_invar)
  show quiet_n: "\<not> h_threw (\<sigma> n)" using quiet by (simp add: quiet_run_def)
  show "base_inv E (\<sigma> n)" "sink_inv E (\<sigma> n)" using log quiet_n by (auto simp: log_inv_def drain_inv_def)
qed

lemma log_grows: "n \<le> m \<Longrightarrow> prefix (h_out (\<sigma> n)) (h_out (\<sigma> m))"
  by (rule logger.run_preserves [where R = "\<lambda>a b. prefix (h_out a) (h_out b)"])
    (auto dest: log_history_extends intro: prefix_order.trans)

lemma gone_grow: "n \<le> m \<Longrightarrow> gone_records (\<sigma> n) \<le> gone_records (\<sigma> m)"
  by (rule gone_records_grow [OF run_facts(3) run_facts(3) log_grows])

text \<open>A step of the run: the logger stays where it is, or it moves.\<close>

lemma logger_stays_or_moves:
  assumes "logger_pc (\<sigma> m) = Some l"
  shows "logger_pc (\<sigma> (Suc m)) = Some l \<and> rank (\<sigma> (Suc m)) = rank (\<sigma> m) \<or> logger_moves E (\<sigma> m) (\<sigma> (Suc m))"
  using logger.moves_on [of m] logger_pc_change [OF _ run_facts(3) assms] sinks_stay [of E "\<sigma> m" "\<sigma> (Suc m)"] assms by metis

lemma logger_move:
  assumes "logger_moves E (\<sigma> m) (\<sigma> (Suc m))" and "logger_pc (\<sigma> m) = Some l"
  obtains ev l' where "ev \<noteq> Threw"
    and "logger_step (p_cfg E) (p_sys E) (p_show E) (logger_hb E) ev (l, sh (\<sigma> m)) (l', sh (\<sigma> (Suc m)))"
    and "logger_pc (\<sigma> (Suc m)) = Some l'" and "\<sigma> (Suc m) = record_event ev (\<sigma> m\<lparr>logger_pc := Some l', sh := sh (\<sigma> (Suc m))\<rparr>)"
  using assms run_facts(2) [of "Suc m"] by (auto simp: logger_moves_def record_event_histories)

lemma logger_gets_closer:
  assumes "logger_moves E (\<sigma> m) (\<sigma> (Suc m))" and "logger_pc (\<sigma> m) = Some l" and "l \<noteq> LPop"
  shows "rank (\<sigma> (Suc m)) < rank (\<sigma> m)"
proof -
  obtain ev l' where step: "ev \<noteq> Threw" "logger_pc (\<sigma> (Suc m)) = Some l'"
    "logger_step (p_cfg E) (p_sys E) (p_show E) (logger_hb E) ev (l, sh (\<sigma> m)) (l', sh (\<sigma> (Suc m)))"
    by (rule logger_move [OF assms(1,2)]) blast
  have "length (sinks (sh (\<sigma> (Suc m)))) = length (sinks (sh (\<sigma> m)))" using logger_thread.step_sizes [OF step(3)] by simp
  with logger_rank_falls [OF step(3,1) assms(3) refl] step(2) assms(2) show ?thesis by (simp add: rank_of_def)
qed

lemma eventually_leaves:
  assumes "q_queue (outputQueue (sh (\<sigma> n))) \<noteq> []"
  shows "\<exists>m \<ge> n. gone_records (\<sigma> n) < gone_records (\<sigma> m)"
proof (rule logger.progress [where rank = rank])
  fix m
  assume m: "n \<le> m" and no: "\<not> gone_records (\<sigma> n) < gone_records (\<sigma> m)"
  have len: "length (accepted (h_out (\<sigma> k))) = gone_records (\<sigma> k) + length (q_queue (outputQueue (sh (\<sigma> k))))" for k
    using log_history [OF run_facts(3), of k] by auto
  have "length (accepted (h_out (\<sigma> n))) \<le> length (accepted (h_out (\<sigma> m)))"
    using log_grows [OF m] by (auto simp: prefix_def accepted_append)
  moreover have "0 < length (q_queue (outputQueue (sh (\<sigma> n))))" using assms by simp
  ultimately have "0 < length (q_queue (outputQueue (sh (\<sigma> m))))" using len [of n] len [of m] no by linarith
  then have waits: "q_queue (outputQueue (sh (\<sigma> m))) \<noteq> []" by simp
  obtain l where l: "logger_pc (\<sigma> m) = Some l" "l \<noteq> LDone" "logger_handler l = None"
    by (rule waiting_logger [OF run_facts(1,2) waits])
  show "logger_can_move E (\<sigma> m)"
    using logger_step_exists [OF l(2,3)] waits l(1) unfolding logger_can_move_def by metis
  have moved: "gone_records (\<sigma> n) < gone_records (\<sigma> (Suc m)) \<or> rank (\<sigma> (Suc m)) < rank (\<sigma> m)"
    if move: "logger_moves E (\<sigma> m) (\<sigma> (Suc m))"
  proof (cases "l = LPop")
    case True
    obtain ev l' where step: "ev \<noteq> Threw" "\<sigma> (Suc m) = record_event ev (\<sigma> m\<lparr>logger_pc := Some l', sh := sh (\<sigma> (Suc m))\<rparr>)"
      "logger_step (p_cfg E) (p_sys E) (p_show E) (logger_hb E) ev (LPop, sh (\<sigma> m)) (l', sh (\<sigma> (Suc m)))"
      by (rule logger_move [OF move l(1)]) (simp add: True)
    obtain r where r: "ev = OutQ WaitAndPop (Got (Some r))"
      "length (q_queue (outputQueue (sh (\<sigma> m)))) = Suc (length (q_queue (outputQueue (sh (\<sigma> (Suc m))))))"
      using logger_pops [OF step(3,1) waits] by blast
    have "h_out (\<sigma> (Suc m)) = h_out (\<sigma> m) @ [(WaitAndPop, Got (Some r))]"
      by (subst step(2)) (simp add: r(1))
    then have "accepted (h_out (\<sigma> (Suc m))) = accepted (h_out (\<sigma> m))" by (simp add: accepted_append)
    with len [of m] len [of "Suc m"] r(2) gone_grow [OF m] show ?thesis by simp
  qed (use logger_gets_closer [OF move l(1)] in simp)
  then show "gone_records (\<sigma> n) < gone_records (\<sigma> (Suc m)) \<or> rank (\<sigma> (Suc m)) < rank (\<sigma> m)"
    if "logger_moves E (\<sigma> m) (\<sigma> (Suc m))" using that .
  show "gone_records (\<sigma> n) < gone_records (\<sigma> (Suc m)) \<or> rank (\<sigma> (Suc m)) \<le> rank (\<sigma> m)"
    using logger_stays_or_moves [OF l(1)] moved by auto
qed

lemma eventually_all_leave: "\<exists>m \<ge> n. length (accepted (h_out (\<sigma> n))) \<le> gone_records (\<sigma> m)"
proof -
  let ?N = "length (accepted (h_out (\<sigma> n)))"
  have "n \<le> m \<Longrightarrow> \<exists>m' \<ge> n. ?N \<le> gone_records (\<sigma> m')" for m
  proof (induction "?N - gone_records (\<sigma> m)" arbitrary: m rule: less_induct)
    case less
    show ?case
    proof (cases "?N \<le> gone_records (\<sigma> m)")
      case False
      have "?N \<le> length (accepted (h_out (\<sigma> m)))"
        using log_grows [OF less.prems] by (auto simp: prefix_def accepted_append)
      with False have "q_queue (outputQueue (sh (\<sigma> m))) \<noteq> []" by (auto simp: gone_records_def)
      from eventually_leaves [OF this] obtain m' where "m \<le> m'" "gone_records (\<sigma> m) < gone_records (\<sigma> m')" by blast
      with less False show ?thesis by (meson diff_less_mono2 le_trans not_le)
    qed (use less.prems in blast)
  qed
  then show ?thesis by blast
qed

lemma eventually_between: "\<exists>m \<ge> n. between_records (logger_pc (\<sigma> m))"
proof (rule logger.progress [where rank = rank])
  fix m
  assume "\<not> between_records (logger_pc (\<sigma> m))"
  then obtain l where l: "logger_pc (\<sigma> m) = Some l" "l \<noteq> LDone" "logger_handler l = None" "l \<noteq> LPop"
    by (rule busy_logger)
  show "logger_can_move E (\<sigma> m)"
    using logger_step_exists [OF l(2,3)] l(1,4) unfolding logger_can_move_def by metis
  show "between_records (logger_pc (\<sigma> (Suc m))) \<or> rank (\<sigma> (Suc m)) < rank (\<sigma> m)"
    if "logger_moves E (\<sigma> m) (\<sigma> (Suc m))" using logger_gets_closer [OF that l(1,4)] by simp
  show "between_records (logger_pc (\<sigma> (Suc m))) \<or> rank (\<sigma> (Suc m)) \<le> rank (\<sigma> m)"
    using logger_stays_or_moves [OF l(1)] logger_gets_closer [OF _ l(1,4)] by fastforce
qed

lemma eventually_logged:
  "\<exists>m \<ge> n. \<exists>removed evicted.
      accepted (h_out (\<sigma> m)) = removed @ q_queue (outputQueue (sh (\<sigma> m)))
    \<and> prefix (accepted (h_out (\<sigma> n))) removed \<and> removed \<in> shuffles (delivered (h_out (\<sigma> m))) evicted
    \<and> droppedCount (outputQueue (sh (\<sigma> m))) = of_nat (length evicted)
    \<and> (\<forall>k \<in> set (sinks (sh (\<sigma> m))). sink_lines k = map (formatLine (p_show E)) (delivered (h_out (\<sigma> m))))"
proof -
  obtain j where j: "n \<le> j" "length (accepted (h_out (\<sigma> n))) \<le> gone_records (\<sigma> j)" using eventually_all_leave by blast
  obtain m where m: "j \<le> m" "between_records (logger_pc (\<sigma> m))" using eventually_between by blast
  obtain removed evicted where h: "accepted (h_out (\<sigma> m)) = removed @ q_queue (outputQueue (sh (\<sigma> m)))"
    "removed \<in> shuffles (delivered (h_out (\<sigma> m))) evicted" "length removed = gone_records (\<sigma> m)"
    "droppedCount (outputQueue (sh (\<sigma> m))) = of_nat (length evicted)"
    using log_history [OF run_facts(3)] by blast
  have nm: "n \<le> m" using j(1) m(1) by simp
  have "prefix (accepted (h_out (\<sigma> n))) (accepted (h_out (\<sigma> m)))"
    using log_grows [OF nm] by (auto simp: prefix_def accepted_append)
  moreover have "length (accepted (h_out (\<sigma> n))) \<le> length removed" using j(2) gone_grow [OF m(1)] h(3) by simp
  ultimately have "prefix (accepted (h_out (\<sigma> n))) removed" using h(1) by (metis prefixI prefix_length_prefix)
  moreover have "sink_lines k = map (formatLine (p_show E)) (delivered (h_out (\<sigma> m)))" if "k \<in> set (sinks (sh (\<sigma> m)))" for k
    using that run_facts(4) [of m] between_written [OF m(2)] by (auto simp: sink_inv_def in_set_conv_nth)
  ultimately show ?thesis using nm h by blast
qed

end

text \<open>A script that ends with the exit of the program is fair to the logger.\<close>

lemma scripted_run_fair_logger:
  assumes run: "run_script E e ms a = Some z" and init: "app_init E a" and z: "main_pc z = MExit b" "\<not> h_threw z"
  shows "fair_logging E (scripted_run E e ms a)"
proof
  let ?\<sigma> = "scripted_run E e ms a"
  from scripted_run_fair [OF assms] show "quiet_run E ?\<sigma>" by (rule fair_application.quiet)
  have final: "?\<sigma> (max n (length ms)) = z" for n using run by (simp add: scripted_run_def)
  have "base_inv E z" using application.reaches_invar [OF run_script_reaches [OF run reaches_init [of "app_init E", OF init]]] .
  then have "\<not> app_step E z a'" for a' using exited_final z(1) by blast
  then have "\<not> logger_can_move E z" by (auto simp: logger_can_move_def dest: st_logger)
  then show "fair_to_logger E ?\<sigma>" using final by (metis fair_to_logger_def max.cobounded1)
qed

interpretation demo_logging: fair_logging demo "scripted_run demo () demo_script demo_start"
  using demo_run scripted_run_fair_logger demo_init by metis

section \<open>Properties\<close>

text \<open>C6: Every record is eventually logged, or evicted and counted. In every infinite run of the program
  without thread exceptions that is weakly fair to the logger thread, at any moment \<open>n\<close> a later moment
  \<open>m\<close> exists at which every record the log queue had accepted at \<open>n\<close> has left it: what the queue has
  accepted by \<open>m\<close> is what was removed followed by what it still holds, and the records accepted at \<open>n\<close>
  are all among the removed. The removed ones are a merge of those the logger took and those that
  were evicted, which the drop counter counts (modulo 2^64), and every sink holds exactly the lines
  of all records taken so far, in order.\<close>

theorem records_logged_eventually:
  assumes "quiet_run E \<sigma>" and "fair_to_logger E \<sigma>"
  shows "\<exists>m \<ge> n. \<exists>removed evicted.
      accepted (h_out (\<sigma> m)) = removed @ q_queue (outputQueue (sh (\<sigma> m)))
    \<and> prefix (accepted (h_out (\<sigma> n))) removed \<and> removed \<in> shuffles (delivered (h_out (\<sigma> m))) evicted
    \<and> droppedCount (outputQueue (sh (\<sigma> m))) = of_nat (length evicted)
    \<and> (\<forall>k \<in> set (sinks (sh (\<sigma> m))). sink_lines k = map (formatLine (p_show E)) (delivered (h_out (\<sigma> m))))"
proof -
  from assms have "fair_logging E \<sigma>" by unfold_locales
  then show ?thesis by (rule fair_logging.eventually_logged)
qed

theorem records_logged_eventually_witness:
  "\<exists>\<sigma> m n. quiet_run demo \<sigma> \<and> fair_to_logger demo \<sigma> \<and> accepted (h_out (\<sigma> n)) \<noteq> []
     \<and> (\<exists>removed evicted. accepted (h_out (\<sigma> m)) = removed @ q_queue (outputQueue (sh (\<sigma> m)))
          \<and> prefix (accepted (h_out (\<sigma> n))) removed \<and> removed \<in> shuffles (delivered (h_out (\<sigma> m))) evicted
          \<and> droppedCount (outputQueue (sh (\<sigma> m))) = of_nat (length evicted))"
proof -
  let ?\<sigma> = "scripted_run demo () demo_script demo_start"
  have "delivered (h_out (?\<sigma> (length demo_script))) \<noteq> []"
    using demo_run by (auto simp: scripted_run_def)
  then have "accepted (h_out (?\<sigma> (length demo_script))) \<noteq> []"
    using log_history [OF demo_logging.run_facts(3), of "length demo_script"] by auto
  with records_logged_eventually [OF demo_logging.quiet demo_logging.fairness, of "length demo_script"]
    demo_logging.quiet demo_logging.fairness show ?thesis by metis
qed

end
