(* ===== verification/Application_Order.thy ===== *)
theory Application_Order
  imports Application_Fairness
begin

text \<open>
  The order of results. Several workers may overtake each other; with one worker the results are
  counted, and their records logged, in the order in which the signals were accepted, also when a
  thread is ended by an exception.
\<close>

section \<open>What the worker holds, as lists\<close>

fun held :: "'f arith \<Rightarrow> 'f kpc option \<Rightarrow> 'f processed_signal list" where
  "held A (Some (KDepth sig)) = [process A sig]"
| "held A (Some (KStoreDepth sig d)) = [process A sig]"
| "held A (Some (KRun sig)) = [process A sig]"
| "held A (Some (KProcess sig)) = [process A sig]"
| "held A (Some (KCount res)) = [res]"
| "held A _ = []"

fun unsent :: "'f kpc option \<Rightarrow> 'f log_record list" where
  "unsent (Some (KLatency res)) = [toLogRecord res]"
| "unsent (Some (KPush r)) = [r]"
| "unsent _ = []"

definition from_dsp :: "'f log_record list \<Rightarrow> 'f log_record list" where
  "from_dsp rs = filter (\<lambda>r. lr_source r = Dsp) rs"

definition taken_now :: "'f arith \<Rightarrow> 'f event \<Rightarrow> 'f processed_signal list" where
  "taken_now A ev = (case ev of InQ x r \<Rightarrow> map (process A) (delivered [(x, r)]) | _ \<Rightarrow> [])"

definition counted_now :: "'f event \<Rightarrow> 'f processed_signal list" where
  "counted_now ev = (case ev of Counted res \<Rightarrow> [res] | _ \<Rightarrow> [])"

definition sent_now :: "'f event \<Rightarrow> 'f log_record list" where
  "sent_now ev = (case ev of OutQ x r \<Rightarrow> from_dsp (accepted [(x, r)]) | _ \<Rightarrow> [])"

lemmas order_defs = taken_now_def counted_now_def sent_now_def from_dsp_def

text \<open>A worker that has ended or is in the handler of an exception.\<close>

fun gone :: "'f kpc \<Rightarrow> bool" where
  "gone KDone = True"
| "gone (KUnwind u) = True"
| "gone _ = False"

lemma gone_resume [simp]: "gone (worker_resume x)"
  by (cases x) simp_all

lemma gone_holds [simp]: "gone k \<Longrightarrow> held A (Some k) = []" "gone k \<Longrightarrow> unsent (Some k) = []"
  by (cases k; simp)+

text \<open>A worker passes on what it takes, first in, first out, unless an exception ends it.\<close>

lemma worker_order:
  assumes "worker_step cfg sys A hb ev (k, s) (k', s')"
    and "\<not> q_closed (outputQueue s)" and "q_policy (outputQueue s) = DropOldest" and "own_records (Some k)"
  shows "if gone k' then taken_now A ev = [] \<and> counted_now ev = [] \<and> sent_now ev = []
     else \<not> gone k \<and> held A (Some k) @ taken_now A ev = counted_now ev @ held A (Some k')
       \<and> unsent (Some k) @ map toLogRecord (counted_now ev) = sent_now ev @ unsent (Some k')"
  using assms
  by (cases rule: worker_step.cases, simp_all add: order_defs push_def)
    (auto simp: enqueueLocked_def Let_def split: if_splits)

section \<open>The invariant\<close>

definition order_inv :: "('e, 'f) params \<Rightarrow> 'f app \<Rightarrow> bool" where
  "order_inv E a \<longleftrightarrow> shape_inv E a \<and> (\<forall>i < length (worker_pcs a). own_records (worker_pcs a ! i))
     \<and> (\<forall>pc. worker_pcs a = [pc] \<longrightarrow>
        (\<exists>lost missing. (lost = [] \<and> missing = [] \<or> (\<exists>k. pc = Some k \<and> gone k))
          \<and> map (process (p_arith E)) (delivered (h_in a)) = h_results a @ held (p_arith E) pc @ lost
          \<and> map toLogRecord (h_results a) = from_dsp (accepted (h_out a)) @ unsent pc @ missing))"

lemma update_single: "i < length xs \<Longrightarrow> xs[i := y] = [z] \<longleftrightarrow> xs = [xs ! i] \<and> z = y"
  by (cases xs; cases i) auto

text \<open>Steps that leave the worker and what it has done alone.\<close>

lemma order_inv_other:
  assumes "order_inv E a" and "shape_inv E a'" and "worker_pcs a' = worker_pcs a"
    and "delivered (h_in a') = delivered (h_in a)" and "h_results a' = h_results a"
    and "from_dsp (accepted (h_out a')) = from_dsp (accepted (h_out a))"
  shows "order_inv E a'"
  using assms by (simp add: order_inv_def)

lemma order_inv_worker:
  assumes inv: "order_inv E a" and i: "i < length (worker_pcs a)" "worker_pcs a ! i = Some k"
    and step: "worker_step cfg sys (p_arith E) hb ev (k, sh a) (k', s')"
    and a': "a' = record_event ev (a\<lparr>worker_pcs := (worker_pcs a)[i := Some k'], sh := s'\<rparr>)" "shape_inv E a'"
  shows "order_inv E a'"
proof -
  let ?A = "p_arith E"
  have base: "base_inv E a" using inv by (simp add: order_inv_def shape_inv_def)
  have own: "own_records (Some k)" using inv i by (metis order_inv_def)
  have k: "k \<noteq> KDone" using worker_thread.finished_final step by blast
  note order = worker_order [OF step worker_output_open [OF base i k] own]
  have hist: "map (process ?A) (delivered (h_in a')) = map (process ?A) (delivered (h_in a)) @ taken_now ?A ev"
    "h_results a' = h_results a @ counted_now ev"
    "from_dsp (accepted (h_out a')) = from_dsp (accepted (h_out a)) @ sent_now ev"
    unfolding a' by (cases ev; simp add: order_defs delivered_append accepted_append)+
  have "own_records (worker_pcs a' ! j)" if "j < length (worker_pcs a')" for j
    using inv that worker_own_records [OF step] a' by (cases "j = i") (auto simp: order_inv_def)
  moreover have "\<exists>lost missing. (lost = [] \<and> missing = [] \<or> (\<exists>k. pc = Some k \<and> gone k))
      \<and> map (process ?A) (delivered (h_in a')) = h_results a' @ held ?A pc @ lost
      \<and> map toLogRecord (h_results a') = from_dsp (accepted (h_out a')) @ unsent pc @ missing"
    if "worker_pcs a' = [pc]" for pc
  proof -
    have pc: "worker_pcs a = [Some k]" "pc = Some k'"
      using that a'(1) update_single [OF i(1)] i(2) by simp_all
    with inv obtain lost missing where none: "lost = [] \<and> missing = [] \<or> gone k"
      and eq: "map (process ?A) (delivered (h_in a)) = h_results a @ held ?A (Some k) @ lost"
        "map toLogRecord (h_results a) = from_dsp (accepted (h_out a)) @ unsent (Some k) @ missing"
      unfolding order_inv_def by blast
    show ?thesis
    proof (cases "gone k'")
      case True
      with order eq hist pc show ?thesis
        by (intro exI [of _ "held ?A (Some k) @ lost"] exI [of _ "unsent (Some k) @ missing"]) simp
    next
      case False
      with order none eq hist pc show ?thesis by (intro exI [of _ "[]"]) simp
    qed
  qed
  ultimately show ?thesis using a'(2) by (simp add: order_inv_def)
qed

lemma order_inv_step:
  assumes "app_step E a a'" and inv: "order_inv E a"
  shows "order_inv E a'"
proof -
  have shape: "shape_inv E a" "shape_inv E a'" using assms shape_inv_step by (auto simp: order_inv_def)
  show ?thesis
    using assms(1)
  proof (cases rule: app_step.cases)
    case (st_producer p ev p' s')
    with inv shape(2) show ?thesis
      by (cases rule: producer_event [OF st_producer(3)])
        (auto intro!: order_inv_other [OF inv] simp: delivered_append)
  next
    case (st_worker i k ev k' s')
    then show ?thesis using order_inv_worker [OF inv _ _ _ _ shape(2)] by blast
  next
    case (st_logger l ev l' s')
    with inv shape(2) show ?thesis
      by (cases rule: logger_event [OF st_logger(3)])
        (auto intro!: order_inv_other [OF inv] simp: accepted_append)
  next
    case (st_watchdog w ev w' s')
    have "watchdog_records (Some w)" using shape(1) st_watchdog by (simp add: shape_inv_def)
    with st_watchdog(3) show ?thesis
    proof (cases rule: watchdog_event)
      case (2 r b)
      with st_watchdog(1) shape(2) show ?thesis
        by (intro order_inv_other [OF inv]) (cases b; simp add: accepted_append from_dsp_def)+
    qed (use st_watchdog(1) shape(2) in \<open>auto intro!: order_inv_other [OF inv]\<close>)
  next
    case st_main
    then show ?thesis
    proof (cases rule: main_step.cases)
      case (mn_start_worker i)
      have none: "worker_pcs a ! i = None"
        using mn_start_worker shape(1) by (auto simp: shape_inv_def base_inv_def phase_inv_def started_inv_def)
      have "own_records (worker_pcs a' ! j)" if "j < length (worker_pcs a')" for j
        using that mn_start_worker(1) inv by (cases "j = i") (simp_all add: order_inv_def)
      moreover have "worker_pcs a = [None]" "pc = Some KInit" if "worker_pcs a' = [pc]" for pc
        using that mn_start_worker(1) update_single [OF mn_start_worker(3)] none by simp_all
      ultimately show ?thesis using mn_start_worker(1) inv shape(2) by (fastforce simp: order_inv_def)
    qed (use inv shape(2) in \<open>auto intro!: order_inv_other [OF inv] simp: delivered_append accepted_append\<close>)
  qed
qed

lemma replicate_single: "replicate n x = [y] \<longleftrightarrow> n = 1 \<and> y = x"
  by (cases n) auto

interpretation ordered: invariant_system "app_init E" "app_step E" "order_inv E" for E
proof unfold_locales
  show "order_inv E a" if "app_init E a" for a
    using that shape_inv_init [OF that]
    by (auto simp: order_inv_def from_dsp_def replicate_single elim!: app_init_cases)
  show "order_inv E a'" if "app_step E a a'" "order_inv E a" for a a'
    using that by (rule order_inv_step)
qed

lemma shuffles_subseq: "zs \<in> shuffles xs ys \<Longrightarrow> subseq xs zs"
  by (induction xs ys arbitrary: zs rule: shuffles.induct) auto

lemma delivered_subseq_accepted:
  assumes "base_inv E a"
  shows "subseq (delivered (h_out a)) (accepted (h_out a))"
proof -
  have "run_ops (map fst (h_out a)) (out_start E) = Some (h_out a, outputQueue (sh a))" "wf_tsq (out_start E)"
    using assms by (simp_all add: base_inv_def trace_inv_def)
  from run_ops_history [OF this] obtain removed evicted where
    "accepted (h_out a) = removed @ q_queue (outputQueue (sh a))" "removed \<in> shuffles (delivered (h_out a)) evicted"
    by (auto simp: out_start_def)
  then show ?thesis using shuffles_subseq by (fastforce intro: subseq_rev_drop_many)
qed

section \<open>Properties\<close>

text \<open>C11: A single worker keeps the order. In every reachable state of a program with one worker the results
  are those of the first signals accepted, in the order of acceptance; their records were offered to
  the log in that order, and the ones the logger has taken are a subsequence of them (the log queue
  may have dropped some). This holds after exceptions too.\<close>

theorem single_worker_keeps_order:
  assumes "reaches (app_init E) (app_step E) a" and "workerCount (pool (p_cfg E)) = 1"
  shows "prefix (h_results a) (map (process (p_arith E)) (accepted (h_in a)))
    \<and> prefix (from_dsp (accepted (h_out a))) (map toLogRecord (h_results a))
    \<and> subseq (from_dsp (delivered (h_out a))) (map toLogRecord (h_results a))"
proof -
  have inv: "order_inv E a" using assms(1) by (rule ordered.reaches_invar)
  then have base: "base_inv E a" by (simp add: order_inv_def shape_inv_def)
  then have "length (worker_pcs a) = 1" using assms(2) by (simp add: base_inv_def phase_inv_def closed_inv_def)
  then obtain pc where pc: "worker_pcs a = [pc]" by (auto simp: length_Suc_conv)
  have "prefix (h_results a) (map (process (p_arith E)) (accepted (h_in a)))"
    using inv pc accepted_delivered [OF base] by (auto simp: order_inv_def)
  moreover have logged: "prefix (from_dsp (accepted (h_out a))) (map toLogRecord (h_results a))"
    using inv pc by (auto simp: order_inv_def)
  moreover have "subseq (from_dsp (delivered (h_out a))) (map toLogRecord (h_results a))"
    using delivered_subseq_accepted [OF base] logged unfolding from_dsp_def
    by (meson subseq_filter prefix_imp_subseq subseq_order.trans)
  ultimately show ?thesis by blast
qed

theorem single_worker_keeps_order_witness:
  "\<exists>a. reaches (app_init demo) (app_step demo) a \<and> accepted (h_in a) = [demo_signal]
     \<and> prefix (h_results a) [process (p_arith demo) demo_signal]
     \<and> subseq (from_dsp (delivered (h_out a))) (map toLogRecord (h_results a))"
proof -
  obtain a where a: "reaches (app_init demo) (app_step demo) a" "accepted (h_in a) = [demo_signal]"
    by (rule demo_reaches)
  with single_worker_keeps_order [OF a(1)] show ?thesis by (intro exI [of _ a]) simp
qed

end
