(* ===== verification/Application_Metrics.thy ===== *)
theory Application_Metrics
  imports Application_Report
begin

text \<open>
  What the counters and gauges of \<^verbatim>\<open>Metrics\<close> say while the program runs. The threads update them at
  points of their own, apart from the operations they are about, and in between any other thread may
  move; also an exception may fall between an operation and its count. The invariants say how far
  the metrics can be from the facts at any moment.
\<close>

section \<open>The producer's counters\<close>

text \<open>
  How many signals were counted (\<open>n\<close>) and how many deadlines missed (\<open>m\<close>) when \<open>l\<close> signals have been
  accepted, by the place the producer is at.
\<close>

fun produced_ok :: "'f ppc option \<Rightarrow> nat \<Rightarrow> nat \<Rightarrow> nat \<Rightarrow> bool" where
  "produced_ok (Some (PCount nd)) n m l \<longleftrightarrow> l = Suc n \<and> m \<le> n"
| "produced_ok (Some (PDepth nd)) n m l \<longleftrightarrow> l = n \<and> m < n"
| "produced_ok (Some (PStoreDepth nd d)) n m l \<longleftrightarrow> l = n \<and> m < n"
| "produced_ok (Some (PDrops nd)) n m l \<longleftrightarrow> l = n \<and> m < n"
| "produced_ok (Some (PStoreDrops nd c)) n m l \<longleftrightarrow> l = n \<and> m < n"
| "produced_ok (Some (PDeadline nd)) n m l \<longleftrightarrow> l = n \<and> m < n"
| "produced_ok (Some (PMissed nd)) n m l \<longleftrightarrow> l = n \<and> m < n"
| "produced_ok (Some (PUnwind u)) n m l \<longleftrightarrow> n \<le> l \<and> l \<le> Suc n \<and> m \<le> n"
| "produced_ok (Some PDone) n m l \<longleftrightarrow> n \<le> l \<and> l \<le> Suc n \<and> m \<le> n"
| "produced_ok _ n m l \<longleftrightarrow> l = n \<and> m \<le> n"

lemma produced_ok_resume [simp]: "produced_ok (Some (producer_resume x)) n m l \<longleftrightarrow> n \<le> l \<and> l \<le> Suc n \<and> m \<le> n"
  by (cases x) simp_all

lemma produced_ok_bounds: "produced_ok p n m l \<Longrightarrow> n \<le> l \<and> l \<le> Suc n \<and> m \<le> n"
  by (induction p n m l rule: produced_ok.induct) simp_all

definition counts :: "metrics \<Rightarrow> nat \<Rightarrow> nat \<Rightarrow> bool" where
  "counts m produced missed \<longleftrightarrow> signalsProduced m = of_nat produced \<and> deadlineMisses m = of_nat missed"

fun new_input :: "'f event \<Rightarrow> nat" where
  "new_input (InQ x r) = length (accepted [(x, r)])"
| "new_input _ = 0"

lemma exI_both: "P x y \<Longrightarrow> \<exists>x y. P x y"
  by blast

lemma producer_production:
  assumes "producer_step cfg sys draw hb ev (p, s) (p', s')"
    and "counts (sh_metrics s) n m" and "produced_ok (Some p) n m l"
  shows "\<exists>n' m'. counts (sh_metrics s') n' m' \<and> produced_ok (Some p') n' m' (l + new_input ev)"
  using assms(1)
proof (cases rule: producer_step.cases)
  case (pr_count nd)
  then show ?thesis
    using assms by (intro exI_both [where x = "Suc n" and y = m]) (simp add: counts_def step_defs metrics_simps metrics_loads)
next
  case (pr_missed nd)
  then show ?thesis
    using assms by (intro exI_both [where x = n and y = "Suc m"]) (simp add: counts_def step_defs metrics_simps metrics_loads)
next
  case (pr_throw e)
  then show ?thesis
    using assms produced_ok_bounds [OF assms(3)]
    by (intro exI_both [where x = n and y = m]) (auto simp: counts_def)
next
  case (pr_handle u built)
  then show ?thesis using assms
    by (intro exI_both [where x = n and y = m])
      (cases u, auto simp: counts_def step_defs metrics_simps metrics_loads)
qed (rule exI_both [where x = n and y = m], use assms in \<open>force simp: counts_def step_defs metrics_simps metrics_loads\<close>)+

lemma other_production:
  "worker_step cfg sys A hb ev (k, s) (k', s') \<Longrightarrow> signalsProduced (sh_metrics s') = signalsProduced (sh_metrics s)
     \<and> deadlineMisses (sh_metrics s') = deadlineMisses (sh_metrics s)"
  "logger_step cfg sys show_float hb ev (l, s) (l', s') \<Longrightarrow> signalsProduced (sh_metrics s') = signalsProduced (sh_metrics s)
     \<and> deadlineMisses (sh_metrics s') = deadlineMisses (sh_metrics s)"
  "watchdog_step cfg sys ev (w, s) (w', s') \<Longrightarrow> signalsProduced (sh_metrics s') = signalsProduced (sh_metrics s)
     \<and> deadlineMisses (sh_metrics s') = deadlineMisses (sh_metrics s)"
  by (erule worker_step.cases logger_step.cases watchdog_step.cases;
      simp add: step_defs metrics_simps metrics_loads)+

section \<open>The drop gauge\<close>

text \<open>The gauge holds a count that the queue once had, and so does a worker about to store one.\<close>

definition once_counted :: "nat \<Rightarrow> u64 \<Rightarrow> bool" where
  "once_counted dropped w \<longleftrightarrow> (\<exists>d \<le> dropped. w = of_nat d)"

fun drops_read :: "'f kpc option \<Rightarrow> u64 option" where
  "drops_read (Some (KStoreDrops n)) = Some n"
| "drops_read _ = None"

lemma once_counted_mono: "once_counted d w \<Longrightarrow> d \<le> d' \<Longrightarrow> once_counted d' w"
  unfolding once_counted_def using le_trans by blast

lemma drops_read_resume [simp]: "drops_read (Some (worker_resume x)) = None"
  by (cases x) simp_all

lemma exec_op_drops:
  assumes "exec_op x q = Returns (r, q')" and "q_policy q = DropOldest"
  shows "\<exists>j \<le> length (accepted [(x, r)]). droppedCount q' = droppedCount q + of_nat j"
proof (cases x)
  case (Push v)
  with assms show ?thesis
    by (auto simp: push_def enqueueLocked_def countDrop_def droppedCount_def Let_def
        intro: exI [of _ 0] exI [of _ 1] split: if_splits)
next
  case (TryPush v)
  with assms show ?thesis
    by (auto simp: tryPush_def enqueueLocked_def countDrop_def droppedCount_def Let_def
        intro: exI [of _ 0] exI [of _ 1] split: if_splits)
qed (use assms in \<open>auto simp: waitAndPop_def tryPop_def popLockedAndNotify_def close_def droppedCount_def split: if_splits\<close>)

lemma event_drops:
  assumes "queue_effect ev s s'" and "q_policy (outputQueue s) = DropOldest" and "sh a = s" and "sh a' = s'"
    and "h_out a' = h_out (record_event ev a)"
  shows "\<exists>j. droppedCount (outputQueue s') = droppedCount (outputQueue s) + of_nat j
    \<and> length (accepted (h_out a)) + j \<le> length (accepted (h_out a'))"
proof (cases ev)
  case (OutQ x r)
  with assms exec_op_drops [of x "outputQueue s" r "outputQueue s'"] show ?thesis by (auto simp: accepted_append)
qed (use assms in \<open>auto intro: exI [of _ 0]\<close>)

lemma gauge_steps:
  "worker_step cfg sys A hb ev (k, s) (k', s') \<Longrightarrow>
     (logDrops (sh_metrics s') = logDrops (sh_metrics s) \<or> drops_read (Some k) = Some (logDrops (sh_metrics s')))
     \<and> (drops_read (Some k') = None \<or> drops_read (Some k') = Some (droppedCount (outputQueue s)))"
  "producer_step cfg sys draw hb' ev (p, s) (p', s') \<Longrightarrow> logDrops (sh_metrics s') = logDrops (sh_metrics s)"
  "logger_step cfg sys show_float hb' ev (l, s) (l', s') \<Longrightarrow> logDrops (sh_metrics s') = logDrops (sh_metrics s)"
  "watchdog_step cfg sys ev (w, s) (w', s') \<Longrightarrow> logDrops (sh_metrics s') = logDrops (sh_metrics s)"
  by (erule worker_step.cases logger_step.cases watchdog_step.cases producer_step.cases;
      auto simp: step_defs metrics_simps metrics_loads)+


section \<open>The depth gauges\<close>

fun depth_read :: "'f ppc option \<Rightarrow> nat option" where
  "depth_read (Some (PStoreDepth nd d)) = Some d"
| "depth_read _ = None"

fun worker_depths :: "'f kpc option \<Rightarrow> nat option \<times> nat option" where
  "worker_depths (Some (KStoreDepth sig d)) = (Some d, None)"
| "worker_depths (Some (KStoreOutDepth d)) = (None, Some d)"
| "worker_depths _ = (None, None)"

fun logger_depth :: "'f lpc option \<Rightarrow> nat option" where
  "logger_depth (Some (LStoreDepth r d)) = Some d"
| "logger_depth _ = None"

lemma depths_resume [simp]:
  "depth_read (Some (producer_resume x)) = None" "worker_depths (Some (worker_resume x)) = (None, None)"
  "logger_depth (Some (logger_resume x)) = None"
  by (cases x; simp)+

definition worker_below :: "nat \<Rightarrow> nat \<Rightarrow> 'f kpc option \<Rightarrow> bool" where
  "worker_below ci co k \<longleftrightarrow> (\<forall>d \<in> set_option (fst (worker_depths k)). d \<le> ci)
     \<and> (\<forall>d \<in> set_option (snd (worker_depths k)). d \<le> co)"

definition depths_below :: "nat \<Rightarrow> nat \<Rightarrow> 'f app \<Rightarrow> bool" where
  "depths_below ci co a \<longleftrightarrow> inputQueueDepth (sh_metrics (sh a)) \<le> ci \<and> outputQueueDepth (sh_metrics (sh a)) \<le> co
     \<and> (\<forall>d \<in> set_option (depth_read (producer_pc a)). d \<le> ci) \<and> (\<forall>d \<in> set_option (logger_depth (logger_pc a)). d \<le> co)
     \<and> (\<forall>k \<in> set (worker_pcs a). worker_below ci co k)"

lemma depth_steps:
  "producer_step cfg sys draw hb ev (p, s) (p', s') \<Longrightarrow>
     (inputQueueDepth (sh_metrics s') = inputQueueDepth (sh_metrics s) \<or> depth_read (Some p) = Some (inputQueueDepth (sh_metrics s')))
     \<and> outputQueueDepth (sh_metrics s') = outputQueueDepth (sh_metrics s)
     \<and> set_option (depth_read (Some p')) \<subseteq> {size_tsq (inputQueue s)}"
  "worker_step cfg sys A hb ev (k, s) (k', s') \<Longrightarrow>
     (inputQueueDepth (sh_metrics s') = inputQueueDepth (sh_metrics s) \<or> fst (worker_depths (Some k)) = Some (inputQueueDepth (sh_metrics s')))
     \<and> (outputQueueDepth (sh_metrics s') = outputQueueDepth (sh_metrics s) \<or> snd (worker_depths (Some k)) = Some (outputQueueDepth (sh_metrics s')))
     \<and> set_option (fst (worker_depths (Some k'))) \<subseteq> {size_tsq (inputQueue s)}
     \<and> set_option (snd (worker_depths (Some k'))) \<subseteq> {size_tsq (outputQueue s)}"
  "logger_step cfg sys show_float hb ev (l, s) (l', s') \<Longrightarrow>
     inputQueueDepth (sh_metrics s') = inputQueueDepth (sh_metrics s)
     \<and> (outputQueueDepth (sh_metrics s') = outputQueueDepth (sh_metrics s) \<or> logger_depth (Some l) = Some (outputQueueDepth (sh_metrics s')))
     \<and> set_option (logger_depth (Some l')) \<subseteq> {size_tsq (outputQueue s)}"
  "watchdog_step cfg sys ev (w, s) (w', s') \<Longrightarrow> inputQueueDepth (sh_metrics s') = inputQueueDepth (sh_metrics s)
     \<and> outputQueueDepth (sh_metrics s') = outputQueueDepth (sh_metrics s)"
  by (erule worker_step.cases logger_step.cases watchdog_step.cases producer_step.cases;
      auto simp: step_defs metrics_simps metrics_loads)+

section \<open>The invariant\<close>

definition production_inv :: "'f app \<Rightarrow> bool" where
  "production_inv a \<longleftrightarrow> (\<exists>n m. counts (sh_metrics (sh a)) n m \<and> produced_ok (producer_pc a) n m (length (accepted (h_in a))))"

definition drops_inv :: "'f app \<Rightarrow> bool" where
  "drops_inv a \<longleftrightarrow> (\<exists>dropped \<le> length (accepted (h_out a)). droppedCount (outputQueue (sh a)) = of_nat dropped
     \<and> once_counted dropped (logDrops (sh_metrics (sh a)))
     \<and> (\<forall>k \<in> set (worker_pcs a). \<forall>n \<in> set_option (drops_read k). once_counted dropped n))"

definition metrics_inv :: "('e, 'f) params \<Rightarrow> 'f app \<Rightarrow> bool" where
  "metrics_inv E a \<longleftrightarrow> counter_inv E a \<and> production_inv a \<and> drops_inv a
     \<and> signalsProcessed (sh_metrics (sh a)) = of_nat (length (h_results a))
     \<and> depths_below (inputCapacity (queues (p_cfg E))) (outputCapacity (queues (p_cfg E))) a"

lemma sizes_below:
  assumes "base_inv E a"
  shows "size_tsq (inputQueue (sh a)) \<le> inputCapacity (queues (p_cfg E))"
    and "size_tsq (outputQueue (sh a)) \<le> outputCapacity (queues (p_cfg E))"
proof -
  have wf: "wf_tsq (inputQueue (sh a))" "wf_tsq (outputQueue (sh a))"
    using assms run_ops_wf by (fastforce simp: base_inv_def trace_inv_def)+
  with base_inv_queues [OF assms] show "size_tsq (inputQueue (sh a)) \<le> inputCapacity (queues (p_cfg E))"
    "size_tsq (outputQueue (sh a)) \<le> outputCapacity (queues (p_cfg E))"
    by (simp_all add: wf_tsq_def size_tsq_def)
qed

lemma production_inv_step:
  assumes "app_step E a a'" and "production_inv a" and "base_inv E a"
  shows "production_inv a'"
  using assms(1)
proof (cases rule: app_step.cases)
  case (st_producer p ev p' s')
  from assms(2) obtain n m where "counts (sh_metrics (sh a)) n m" "produced_ok (Some p) n m (length (accepted (h_in a)))"
    using st_producer(2) by (auto simp: production_inv_def)
  from producer_production [OF st_producer(3) this] obtain n' m' where
    "counts (sh_metrics s') n' m'" "produced_ok (Some p') n' m' (length (accepted (h_in a)) + new_input ev)" by blast
  moreover have "length (accepted (h_in a')) = length (accepted (h_in a)) + new_input ev"
    using st_producer(1) by (cases ev) (simp_all add: accepted_append)
  ultimately show ?thesis using st_producer(1) by (auto simp: production_inv_def)
next
  case (st_worker i k ev k' s')
  then have "accepted (h_in a') = accepted (h_in a)"
    by (cases rule: worker_event [OF st_worker(4)]) (simp_all add: accepted_append)
  with st_worker assms(2) other_production(1) [OF st_worker(4)] show ?thesis by (simp add: production_inv_def counts_def)
next
  case (st_logger l ev l' s')
  then have "h_in a' = h_in a" by (cases rule: logger_event [OF st_logger(3)]) auto
  with st_logger assms(2) other_production(2) [OF st_logger(3)] show ?thesis by (simp add: production_inv_def counts_def)
next
  case (st_watchdog w ev w' s')
  from st_watchdog(3,1) have "h_in a' = h_in a" by (cases rule: watchdog_step.cases) auto
  with st_watchdog assms(2) other_production(3) [OF st_watchdog(3)] show ?thesis by (simp add: production_inv_def counts_def)
next
  case st_main
  then show ?thesis
  proof (cases rule: main_step.cases)
    case (mn_start_producer i)
    then have "producer_pc a = None" using assms(3) by (auto simp: base_inv_def phase_inv_def started_inv_def)
    with mn_start_producer assms(2) show ?thesis by (auto simp: production_inv_def)
  qed (use assms(2) in \<open>auto simp: production_inv_def accepted_append step_defs\<close>)
qed


lemma app_step_drops:
  assumes "app_step E a a'" and "base_inv E a"
  shows "\<exists>j. droppedCount (outputQueue (sh a')) = droppedCount (outputQueue (sh a)) + of_nat j
    \<and> length (accepted (h_out a)) + j \<le> length (accepted (h_out a'))"
proof -
  note policy = base_inv_queues(3) [OF assms(2)]
  from assms(1) show ?thesis
  proof (cases rule: app_step.cases)
    case (st_producer p ev p' s')
    show ?thesis
      using event_drops [OF producer_thread.step_queues [OF st_producer(3)] policy refl, of a'] st_producer(1)
      by (simp add: record_event_histories)
  next
    case (st_worker i k ev k' s')
    show ?thesis
      using event_drops [OF worker_thread.step_queues [OF st_worker(4)] policy refl, of a'] st_worker(1)
      by (simp add: record_event_histories)
  next
    case (st_logger l ev l' s')
    show ?thesis
      using event_drops [OF logger_thread.step_queues [OF st_logger(3)] policy refl, of a'] st_logger(1)
      by (simp add: record_event_histories)
  next
    case (st_watchdog w ev w' s')
    show ?thesis
      using event_drops [OF watchdog_thread.step_queues [OF st_watchdog(3)] policy refl, of a'] st_watchdog(1)
      by (simp add: record_event_histories)
  next
    case st_main
    then show ?thesis
      by (cases rule: main_step.cases)
        (auto simp: step_defs accepted_append close_def droppedCount_def intro!: exI [of _ 0])
  qed
qed

text \<open>Where the gauge and the values about to be stored in it come from.\<close>

lemma app_step_gauge:
  assumes "app_step E a a'"
  shows "logDrops (sh_metrics (sh a')) = logDrops (sh_metrics (sh a))
      \<or> (\<exists>k \<in> set (worker_pcs a). drops_read k = Some (logDrops (sh_metrics (sh a'))))"
    and "k \<in> set (worker_pcs a') \<Longrightarrow> n \<in> set_option (drops_read k)
      \<Longrightarrow> n = droppedCount (outputQueue (sh a)) \<or> (\<exists>k \<in> set (worker_pcs a). n \<in> set_option (drops_read k))"
proof -
  have "(logDrops (sh_metrics (sh a')) = logDrops (sh_metrics (sh a))
        \<or> (\<exists>k \<in> set (worker_pcs a). drops_read k = Some (logDrops (sh_metrics (sh a')))))
    \<and> (\<forall>k \<in> set (worker_pcs a'). \<forall>n \<in> set_option (drops_read k).
        n = droppedCount (outputQueue (sh a)) \<or> (\<exists>k \<in> set (worker_pcs a). n \<in> set_option (drops_read k)))"
    using assms
  proof (cases rule: app_step.cases)
    case (st_worker i k ev k' s')
    have "set (worker_pcs a') \<subseteq> insert (Some k') (set (worker_pcs a))" "Some k \<in> set (worker_pcs a)"
      using st_worker(1) set_update_subset_insert [of "worker_pcs a" i "Some k'"] nth_mem [OF st_worker(2)] st_worker(3) by auto
    with gauge_steps(1) [OF st_worker(4)] st_worker(1) show ?thesis by (fastforce simp: subset_iff)
  next
    case st_main
    then show ?thesis
      using set_update_subset_insert [of "worker_pcs a" _ "Some KInit"]
      by (cases rule: main_step.cases) (fastforce simp: step_defs)+
  qed (auto dest: gauge_steps)
  then show "logDrops (sh_metrics (sh a')) = logDrops (sh_metrics (sh a))
      \<or> (\<exists>k \<in> set (worker_pcs a). drops_read k = Some (logDrops (sh_metrics (sh a'))))"
    and "k \<in> set (worker_pcs a') \<Longrightarrow> n \<in> set_option (drops_read k)
      \<Longrightarrow> n = droppedCount (outputQueue (sh a)) \<or> (\<exists>k \<in> set (worker_pcs a). n \<in> set_option (drops_read k))"
    by blast+
qed

lemma drops_inv_step:
  assumes "app_step E a a'" and "drops_inv a" and "base_inv E a"
  shows "drops_inv a'"
proof -
  from assms(2) obtain d where d: "d \<le> length (accepted (h_out a))" "droppedCount (outputQueue (sh a)) = of_nat d"
    "once_counted d (logDrops (sh_metrics (sh a)))" "\<forall>k \<in> set (worker_pcs a). \<forall>n \<in> set_option (drops_read k). once_counted d n"
    by (auto simp: drops_inv_def)
  from app_step_drops [OF assms(1,3)] obtain j where
    j: "droppedCount (outputQueue (sh a')) = of_nat (d + j)" "d + j \<le> length (accepted (h_out a'))"
    using d(1,2) by auto
  have "once_counted d (droppedCount (outputQueue (sh a)))" using d(2) by (auto simp: once_counted_def)
  with d(3,4) app_step_gauge [OF assms(1)] have
    "once_counted d (logDrops (sh_metrics (sh a')))" "\<forall>k \<in> set (worker_pcs a'). \<forall>n \<in> set_option (drops_read k). once_counted d n"
    by (metis option.set_intros, blast)
  with j show ?thesis unfolding drops_inv_def by (metis le_add1 once_counted_mono)
qed

lemma processed_step:
  assumes "app_step E a a'" and "signalsProcessed (sh_metrics (sh a)) = of_nat (length (h_results a))"
  shows "signalsProcessed (sh_metrics (sh a')) = of_nat (length (h_results a'))"
  using assms(1)
proof (cases rule: app_step.cases)
  case (st_producer p ev p' s')
  then show ?thesis using assms(2) producer_frame(1,4) [OF st_producer(3)]
    by (cases ev) (auto simp: signalsProcessed_def)
next
  case (st_worker i k ev k' s')
  then show ?thesis using assms(2) worker_counters(2) [OF st_worker(4)]
    by (cases ev) (auto simp: signalsProcessed_def counted_def)
next
  case (st_logger l ev l' s')
  then show ?thesis using assms(2) logger_frame(2,4) [OF st_logger(3)]
    by (cases ev) (auto simp: signalsProcessed_def)
next
  case (st_watchdog w ev w' s')
  then show ?thesis using assms(2) watchdog_frame(2,5) [OF st_watchdog(3)]
    by (cases ev) (auto simp: signalsProcessed_def)
next
  case st_main
  then show ?thesis using assms(2) by (cases rule: main_step.cases) (auto simp: step_defs)
qed

lemma depths_below_step:
  assumes "app_step E a a'" and "depths_below ci co a"
    and "size_tsq (inputQueue (sh a)) \<le> ci" and "size_tsq (outputQueue (sh a)) \<le> co"
  shows "depths_below ci co a'"
  using assms(1)
proof (cases rule: app_step.cases)
  case (st_producer p ev p' s')
  then show ?thesis using assms(2-4) depth_steps(1) [OF st_producer(3)] by (auto simp: depths_below_def)
next
  case (st_worker i k ev k' s')
  have "set (worker_pcs a') \<subseteq> insert (Some k') (set (worker_pcs a))" "Some k \<in> set (worker_pcs a)"
    using st_worker(1) set_update_subset_insert [of "worker_pcs a" i "Some k'"] nth_mem [OF st_worker(2)] st_worker(3) by auto
  moreover from this(2) have "worker_below ci co (Some k)" using assms(2) by (simp add: depths_below_def)
  moreover have "worker_below ci co (Some k')"
    using depth_steps(2) [OF st_worker(4)] assms(3,4) unfolding worker_below_def by (auto simp: subset_iff)
  moreover have "inputQueueDepth (sh_metrics s') \<le> ci" "outputQueueDepth (sh_metrics s') \<le> co"
    using depth_steps(2) [OF st_worker(4)] assms(2) calculation(3) by (auto simp: depths_below_def worker_below_def)
  ultimately show ?thesis using st_worker(1) assms(2) by (auto simp: depths_below_def)
next
  case (st_logger l ev l' s')
  then show ?thesis using assms(2-4) depth_steps(3) [OF st_logger(3)] by (auto simp: depths_below_def)
next
  case (st_watchdog w ev w' s')
  then show ?thesis using assms(2-4) depth_steps(4) [OF st_watchdog(3)] by (auto simp: depths_below_def)
next
  case st_main
  then show ?thesis
    using assms(2-4) set_update_subset_insert [of "worker_pcs a" _ "Some KInit"]
    by (cases rule: main_step.cases) (fastforce simp: depths_below_def worker_below_def step_defs)+
qed


interpretation metrics: invariant_system "app_init E" "app_step E" "metrics_inv E" for E
proof unfold_locales
  show "metrics_inv E a" if "app_init E a" for a
  proof -
    from that have "counts (sh_metrics (sh a)) 0 0 \<and> produced_ok (producer_pc a) 0 0 (length (accepted (h_in a)))"
      by (rule app_init_cases) (simp add: counts_def new_metrics_def metrics_loads)
    then have "production_inv a" unfolding production_inv_def by blast
    then show ?thesis
      using that counters.invar_init [OF that]
      by (auto simp: metrics_inv_def drops_inv_def depths_below_def worker_below_def once_counted_def
          droppedCount_def out_start_def new_metrics_def metrics_loads elim!: app_init_cases)
  qed
  show "metrics_inv E a'" if step: "app_step E a a'" and inv: "metrics_inv E a" for a a'
  proof -
    have base: "base_inv E a" using inv by (simp add: metrics_inv_def counter_inv_def)
    show ?thesis
      using inv counters.invar_step [OF step] production_inv_step [OF step _ base] drops_inv_step [OF step _ base]
        processed_step [OF step] depths_below_step [OF step _ sizes_below [OF base]]
      by (simp add: metrics_inv_def)
  qed
qed

section \<open>The deadlines\<close>

text \<open>
  Where the producer's deadline is when \<open>d\<close> signals have been accepted and \<open>m\<close> deadlines missed since
  it was at \<open>base\<close>.
\<close>

fun on_grid :: "duration \<Rightarrow> time_point \<Rightarrow> 'f ppc option \<Rightarrow> nat \<Rightarrow> nat \<Rightarrow> bool" where
  "on_grid period base (Some PInit) d m \<longleftrightarrow> False"
| "on_grid period base (Some PClock) d m \<longleftrightarrow> False"
| "on_grid period base (Some (PCheck nd)) d m \<longleftrightarrow> m \<le> d \<and> (m = 0 \<longrightarrow> nd = base + int d * period)"
| "on_grid period base (Some (PSample nd)) d m \<longleftrightarrow> m \<le> d \<and> (m = 0 \<longrightarrow> nd = base + int d * period)"
| "on_grid period base (Some (PPush nd sig)) d m \<longleftrightarrow> m \<le> d \<and> (m = 0 \<longrightarrow> nd = base + int d * period)"
| "on_grid period base (Some (PRest nd)) d m \<longleftrightarrow> m \<le> d \<and> (m = 0 \<longrightarrow> nd = base + int d * period)"
| "on_grid period base (Some (PWait nd)) d m \<longleftrightarrow> m \<le> d \<and> (m = 0 \<longrightarrow> nd = base + int d * period)"
| "on_grid period base (Some (PCount nd)) d m \<longleftrightarrow> m < d \<and> (m = 0 \<longrightarrow> nd + period = base + int d * period)"
| "on_grid period base (Some (PDepth nd)) d m \<longleftrightarrow> m < d \<and> (m = 0 \<longrightarrow> nd + period = base + int d * period)"
| "on_grid period base (Some (PStoreDepth nd k)) d m \<longleftrightarrow> m < d \<and> (m = 0 \<longrightarrow> nd + period = base + int d * period)"
| "on_grid period base (Some (PDrops nd)) d m \<longleftrightarrow> m < d \<and> (m = 0 \<longrightarrow> nd + period = base + int d * period)"
| "on_grid period base (Some (PStoreDrops nd c)) d m \<longleftrightarrow> m < d \<and> (m = 0 \<longrightarrow> nd + period = base + int d * period)"
| "on_grid period base (Some (PDeadline nd)) d m \<longleftrightarrow> m < d \<and> (m = 0 \<longrightarrow> nd + period = base + int d * period)"
| "on_grid period base (Some (PMissed nd)) d m \<longleftrightarrow> m < d"
| "on_grid period base (Some (PUnwind u)) d m \<longleftrightarrow> m \<le> d"
| "on_grid period base (Some PDone) d m \<longleftrightarrow> m \<le> d"
| "on_grid period base None d m \<longleftrightarrow> False"

lemma on_grid_resume [simp]: "on_grid period base (Some (producer_resume x)) d m \<longleftrightarrow> m \<le> d"
  by (cases x) simp_all

lemma on_grid_le: "on_grid period base p d m \<Longrightarrow> m \<le> d"
  by (induction period base p d m rule: on_grid.induct) simp_all

lemma producer_grid:
  assumes "producer_step cfg sys draw hb ev (p, s) (p', s')" and "on_grid (period_of cfg) base (Some p) d m"
    and "deadlineMisses (sh_metrics s) = w + of_nat m"
  shows "\<exists>m'. deadlineMisses (sh_metrics s') = w + of_nat m' \<and> on_grid (period_of cfg) base (Some p') (d + new_input ev) m'"
  using assms(1)
proof (cases rule: producer_step.cases)
  case (pr_missed nd)
  then show ?thesis using assms by (intro exI [of _ "Suc m"]) (simp add: step_defs metrics_simps metrics_loads)
next
  case (pr_throw e)
  then show ?thesis using assms on_grid_le [OF assms(2)] by auto
next
  case (pr_handle u built)
  then show ?thesis using assms by (intro exI [of _ m], cases u) (auto simp: step_defs metrics_simps metrics_loads)
qed (rule exI [of _ m], use assms in \<open>force simp: step_defs metrics_simps metrics_loads next_deadline_def Let_def algebra_simps split: if_splits\<close>)+

definition grid_from :: "('e, 'f) params \<Rightarrow> 'f app \<Rightarrow> time_point \<Rightarrow> 'f app \<Rightarrow> bool" where
  "grid_from E a base b \<longleftrightarrow> (\<exists>d m. length (accepted (h_in b)) = length (accepted (h_in a)) + d
     \<and> deadlineMisses (sh_metrics (sh b)) = deadlineMisses (sh_metrics (sh a)) + of_nat m
     \<and> on_grid (period_of (p_cfg E)) base (producer_pc b) d m)"

lemma grid_from_step:
  assumes "app_step E b c" and "grid_from E a base b" and "base_inv E b"
  shows "grid_from E a base c"
proof -
  obtain d m where g: "length (accepted (h_in b)) = length (accepted (h_in a)) + d"
    "deadlineMisses (sh_metrics (sh b)) = deadlineMisses (sh_metrics (sh a)) + of_nat m"
    "on_grid (period_of (p_cfg E)) base (producer_pc b) d m"
    using assms(2) by (auto simp: grid_from_def)
  from assms(1) show ?thesis
  proof (cases rule: app_step.cases)
    case (st_producer p ev p' s')
    from producer_grid [OF st_producer(3) g(3) [unfolded st_producer(2)] g(2)] obtain m' where
      "deadlineMisses (sh_metrics s') = deadlineMisses (sh_metrics (sh a)) + of_nat m'"
      "on_grid (period_of (p_cfg E)) base (Some p') (d + new_input ev) m'" by blast
    moreover have "length (accepted (h_in c)) = length (accepted (h_in b)) + new_input ev"
      using st_producer(1) by (cases ev) (simp_all add: accepted_append)
    ultimately show ?thesis using st_producer(1) g(1) unfolding grid_from_def
      by (intro exI_both [where x = "d + new_input ev" and y = m']) simp
  next
    case (st_worker i k ev k' s')
    then have "accepted (h_in c) = accepted (h_in b)"
      by (cases rule: worker_event [OF st_worker(4)]) (simp_all add: accepted_append)
    with st_worker g other_production(1) [OF st_worker(4)] show ?thesis
      unfolding grid_from_def by (intro exI_both [where x = d and y = m]) simp
  next
    case (st_logger l ev l' s')
    then have "h_in c = h_in b" by (cases rule: logger_event [OF st_logger(3)]) auto
    with st_logger g other_production(2) [OF st_logger(3)] show ?thesis
      unfolding grid_from_def by (intro exI_both [where x = d and y = m]) simp
  next
    case (st_watchdog w ev w' s')
    from st_watchdog(3,1) have "h_in c = h_in b" by (cases rule: watchdog_step.cases) auto
    with st_watchdog g other_production(3) [OF st_watchdog(3)] show ?thesis
      unfolding grid_from_def by (intro exI_both [where x = d and y = m]) simp
  next
    case st_main
    then show ?thesis
    proof (cases rule: main_step.cases)
      case (mn_start_producer i)
      then have "producer_pc b = None" using assms(3) by (auto simp: base_inv_def phase_inv_def started_inv_def)
      with g(3) show ?thesis by simp
    qed (use assms(2) in \<open>auto simp: grid_from_def accepted_append step_defs\<close>)
  qed
qed

lemma grid_from_steps:
  assumes "(app_step E)\<^sup>*\<^sup>* a b" and "base_inv E a" and "producer_pc a = Some (PCheck base)"
  shows "grid_from E a base b \<and> base_inv E b"
  using assms(1)
proof (induction rule: rtranclp_induct)
  case base
  then show ?case
    using assms(2,3) unfolding grid_from_def by (auto intro: exI_both [where x = 0 and y = 0])
next
  case (step b c)
  then show ?case using grid_from_step application.invar_step by blast
qed


section \<open>Properties\<close>

text \<open>C10: The metrics track the run. In every reachable state, whatever the scheduling and also after exceptions,
  as long as fewer than 2^64 signals and records have been accepted: the signals counted as produced
  are the accepted ones, or all but the last; those counted as processed are exactly the results, of
  which there are no more than accepted signals; no more deadlines are counted as missed than signals
  as produced; the log-drop gauge is never above the queue's own drop count, nor is that above the
  number of accepted records; no input drop is ever counted; and the depth gauges are within the
  capacities.\<close>

theorem metrics_track_the_run:
  assumes "reaches (app_init E) (app_step E) a"
    and "length (accepted (h_in a)) < 2 ^ 64" and "length (accepted (h_out a)) < 2 ^ 64"
  shows "length (accepted (h_in a)) \<in> {unat (signalsProduced (sh_metrics (sh a))), unat (signalsProduced (sh_metrics (sh a))) + 1}
    \<and> unat (signalsProcessed (sh_metrics (sh a))) = length (h_results a)
    \<and> length (h_results a) \<le> length (accepted (h_in a))
    \<and> deadlineMisses (sh_metrics (sh a)) \<le> signalsProduced (sh_metrics (sh a))
    \<and> logDrops (sh_metrics (sh a)) \<le> droppedCount (outputQueue (sh a))
    \<and> unat (droppedCount (outputQueue (sh a))) \<le> length (accepted (h_out a))
    \<and> inputDrops (sh_metrics (sh a)) = 0
    \<and> inputQueueDepth (sh_metrics (sh a)) \<le> inputCapacity (queues (p_cfg E))
    \<and> outputQueueDepth (sh_metrics (sh a)) \<le> outputCapacity (queues (p_cfg E))"
proof -
  note inv = metrics.reaches_invar [OF assms(1)]
  obtain n m where nm: "counts (sh_metrics (sh a)) n m" "n \<le> length (accepted (h_in a))"
    "length (accepted (h_in a)) \<le> Suc n" "m \<le> n"
    using inv produced_ok_bounds [of "producer_pc a"] by (auto simp: metrics_inv_def production_inv_def)
  then have "unat (signalsProduced (sh_metrics (sh a))) = n" "unat (deadlineMisses (sh_metrics (sh a))) = m"
    using assms(2) by (simp_all add: counts_def unat_of_nat)
  moreover obtain d where d: "d \<le> length (accepted (h_out a))" "droppedCount (outputQueue (sh a)) = of_nat d"
    "once_counted d (logDrops (sh_metrics (sh a)))"
    using inv by (auto simp: metrics_inv_def drops_inv_def)
  then have "unat (droppedCount (outputQueue (sh a))) = d" "unat (logDrops (sh_metrics (sh a))) \<le> d"
    using assms(3) by (auto simp: once_counted_def unat_of_nat)
  moreover have "length (h_results a) \<le> length (accepted (h_in a))"
    using size_mset_mono [OF results_from_accepted [OF assms(1)]] by simp
  moreover from this have "unat (signalsProcessed (sh_metrics (sh a))) = length (h_results a)"
    using inv assms(2) by (simp add: metrics_inv_def unat_of_nat)
  ultimately show ?thesis
    using inv nm(2-4) d(1) by (auto simp: metrics_inv_def counter_inv_def depths_below_def word_le_nat_alt)
qed

theorem metrics_track_the_run_witness:
  "\<exists>a. reaches (app_init demo) (app_step demo) a \<and> accepted (h_in a) = [demo_signal]
     \<and> unat (signalsProcessed (sh_metrics (sh a))) = length (h_results a) \<and> logDrops (sh_metrics (sh a)) \<le> droppedCount (outputQueue (sh a))"
proof -
  obtain a where a: "run_script demo () demo_startup demo_start = Some a" "accepted (h_in a) = [demo_signal]" "accepted (h_out a) = []"
    by (simp add: demo_startup_def demo_start_def demo_wait demo_exec eval_nat_numeral del: waitForShutdown.simps)
  have "reaches (app_init demo) (app_step demo) a"
    using run_script_reaches [OF a(1)] reaches_init [of "app_init demo", OF demo_init] by blast
  with metrics_track_the_run [OF this] a(2,3) show ?thesis by (intro exI [of _ a]) simp
qed

text \<open>C29: The sample schedule does not drift. Take two moments of a run at which the producer is at the top of its
  loop, with no deadline miss counted in between (and fewer than 2^64 signals accepted): between
  them the deadline has advanced by exactly one period for every signal accepted, whatever the other
  threads did, however long the pushes blocked and whatever the clock read.\<close>

theorem deadlines_do_not_drift:
  assumes "reaches (app_init E) (app_step E) a" and "(app_step E)\<^sup>*\<^sup>* a b"
    and "producer_pc a = Some (PCheck nextDeadline)" and "producer_pc b = Some (PCheck nextDeadline')"
    and "deadlineMisses (sh_metrics (sh b)) = deadlineMisses (sh_metrics (sh a))"
    and "length (accepted (h_in b)) < 2 ^ 64"
  shows "length (accepted (h_in a)) \<le> length (accepted (h_in b))
    \<and> nextDeadline' = nextDeadline
        + int (length (accepted (h_in b)) - length (accepted (h_in a))) * period_of (p_cfg E)"
proof -
  obtain d m where g: "length (accepted (h_in b)) = length (accepted (h_in a)) + d" "of_nat m = (0 :: u64)"
    "m \<le> d" "m = 0 \<longrightarrow> nextDeadline' = nextDeadline + int d * period_of (p_cfg E)"
    using grid_from_steps [OF assms(2) application.reaches_invar [OF assms(1)] assms(3)] assms(4,5)
    by (auto simp: grid_from_def)
  have "m < 2 ^ 64" using g(1,3) assms(6) by simp
  then have "unat (of_nat m :: u64) = m" by (simp only: unat_of_nat) simp
  with g(2) have "m = 0" by simp
  with g show ?thesis by simp
qed

definition first_moves :: "move list" where
  "first_moves = replicate 5 (MoveMain sigint) @ replicate 2 (MoveProducer 7)"

definition two_samples :: "move list" where
  "two_samples = replicate 11 (MoveProducer 300) @ replicate 11 (MoveProducer 1700000)"

lemma first_moves_run:
  "\<exists>a. run_script demo () first_moves demo_start = Some a \<and> producer_pc a = Some (PCheck 7)
     \<and> h_in a = [] \<and> deadlineMisses (sh_metrics (sh a)) = 0"
  by (simp add: first_moves_def demo_start_def demo_wait demo_exec new_metrics_def metrics_loads eval_nat_numeral
      del: waitForShutdown.simps)

lemma two_samples_run:
  "\<exists>b nd. run_script demo () (first_moves @ two_samples) demo_start = Some b \<and> producer_pc b = Some (PCheck nd)
     \<and> length (accepted (h_in b)) = 2 \<and> deadlineMisses (sh_metrics (sh b)) = 0"
  by (simp add: first_moves_def two_samples_def demo_start_def demo_wait demo_exec new_metrics_def metrics_simps metrics_loads
      eval_nat_numeral del: waitForShutdown.simps)

theorem deadlines_do_not_drift_witness:
  "\<exists>a b. reaches (app_init demo) (app_step demo) a \<and> (app_step demo)\<^sup>*\<^sup>* a b
     \<and> length (accepted (h_in a)) = 0 \<and> length (accepted (h_in b)) = 2
     \<and> producer_pc a = Some (PCheck 7) \<and> producer_pc b = Some (PCheck 2000007)"
proof -
  obtain a where a: "run_script demo () first_moves demo_start = Some a" "producer_pc a = Some (PCheck 7)"
    "h_in a = []" "deadlineMisses (sh_metrics (sh a)) = 0"
    using first_moves_run by blast
  obtain b nd where b: "run_script demo () two_samples a = Some b" "producer_pc b = Some (PCheck nd)"
    "length (accepted (h_in b)) = 2" "deadlineMisses (sh_metrics (sh b)) = 0"
    using two_samples_run by (auto simp: run_script_append a(1))
  have r: "reaches (app_init demo) (app_step demo) a"
    using run_script_reaches [OF a(1)] reaches_init [of "app_init demo", OF demo_init] by blast
  from deadlines_do_not_drift [OF r run_script_steps [OF b(1)] a(2) b(2)] have "nd = 2000007"
    using a(3,4) b(3,4) by simp
  with r run_script_steps [OF b(1)] a b show ?thesis by (intro exI [of _ a] exI [of _ b]) simp
qed

end
