(* ===== verification/Application_Heartbeats.thy ===== *)
theory Application_Heartbeats
  imports Application_Report
begin

text \<open>
  The heartbeats of the running program: what the watchdog sees of a thread, by the place the thread
  is at. Each thread marks its own heartbeat, at points apart from the queue operations, and no
  thread touches another's.
\<close>

section \<open>What a heartbeat shows\<close>

text \<open>The state a thread at a given place must have marked; nothing is said of the places in between.\<close>

fun producer_shows :: "'f ppc option \<Rightarrow> HeartbeatState option" where
  "producer_shows None = Some WaitingForInput"
| "producer_shows (Some PInit) = Some WaitingForInput"
| "producer_shows (Some PClock) = Some WaitingForInput"
| "producer_shows (Some (PPush nd sig)) = Some Running"
| "producer_shows (Some (PCount nd)) = Some Running"
| "producer_shows (Some (PDepth nd)) = Some Running"
| "producer_shows (Some (PStoreDepth nd d)) = Some Running"
| "producer_shows (Some (PDrops nd)) = Some Running"
| "producer_shows (Some (PStoreDrops nd c)) = Some Running"
| "producer_shows (Some (PDeadline nd)) = Some Running"
| "producer_shows (Some (PMissed nd)) = Some Running"
| "producer_shows (Some (PRest nd)) = Some Running"
| "producer_shows (Some (PWait nd)) = Some WaitingForInput"
| "producer_shows _ = None"

fun worker_shows :: "'f kpc option \<Rightarrow> HeartbeatState option" where
  "worker_shows None = Some WaitingForInput"
| "worker_shows (Some KInit) = Some WaitingForInput"
| "worker_shows (Some KPop) = Some WaitingForInput"
| "worker_shows (Some (KDepth sig)) = Some WaitingForInput"
| "worker_shows (Some (KStoreDepth sig d)) = Some WaitingForInput"
| "worker_shows (Some (KRun sig)) = Some WaitingForInput"
| "worker_shows (Some (KProcess sig)) = Some Running"
| "worker_shows (Some (KCount res)) = Some Running"
| "worker_shows (Some (KLatency res)) = Some Running"
| "worker_shows (Some (KPush r)) = Some Running"
| "worker_shows (Some KOutDepth) = Some Running"
| "worker_shows (Some (KStoreOutDepth d)) = Some Running"
| "worker_shows (Some KDrops) = Some Running"
| "worker_shows (Some (KStoreDrops n)) = Some Running"
| "worker_shows _ = None"

fun logger_shows :: "'f lpc option \<Rightarrow> HeartbeatState option" where
  "logger_shows None = Some WaitingForInput"
| "logger_shows (Some LInit) = Some WaitingForInput"
| "logger_shows (Some LPop) = Some WaitingForInput"
| "logger_shows (Some (LDepth r)) = Some WaitingForInput"
| "logger_shows (Some (LStoreDepth r d)) = Some WaitingForInput"
| "logger_shows (Some (LRun r)) = Some WaitingForInput"
| "logger_shows (Some (LWrite line k)) = Some Running"
| "logger_shows (Some (LFlush k)) = Some WaitingForInput"
| "logger_shows _ = None"

definition shown :: "HeartbeatState option \<Rightarrow> string \<times> heartbeat \<Rightarrow> bool" where
  "shown st entry \<longleftrightarrow> (\<forall>x \<in> set_option st. hb_state (snd entry) = x)"

lemma shows_resume [simp]:
  "producer_shows (Some (producer_resume x)) = None" "worker_shows (Some (worker_resume x)) = None"
  "logger_shows (Some (logger_resume x)) = None"
  by (cases x; simp)+

lemma shown_None [simp]: "shown None entry"
  by (simp add: shown_def)





section \<open>The invariant\<close>







section \<open>Properties\<close>






end
