(* ===== verification/Fft_Correctness.thy ===== *)
theory Fft_Correctness
  imports Dsp_Pipeline Complex_Main
begin

text \<open>
  The signal processing in exact real arithmetic: the in-place radix-2 transform computes the
  discrete Fourier transform, the noise filter averages, the detector finds the peak. The bit
  reversal is a statement about indices and holds for every arithmetic.
\<close>

section \<open>Bit reversal\<close>

fun rev_bits :: "nat \<Rightarrow> nat \<Rightarrow> nat" where
  "rev_bits 0 i = 0"
| "rev_bits (Suc m) i = (i mod 2) * 2 ^ m + rev_bits m (i div 2)"

lemma rev_bits_zero [simp]: "rev_bits m 0 = 0"
  by (induction m) simp_all

lemma rev_bits_less: "rev_bits m i < 2 ^ m"
proof (induction m arbitrary: i)
  case (Suc m)
  have "i mod 2 = 0 \<or> i mod 2 = 1" by auto
  with Suc.IH [of "i div 2"] show ?case by auto
qed simp

lemma rev_bits_top:
  assumes "i < 2 ^ Suc m"
  shows "rev_bits (Suc m) i = 2 * rev_bits m (i mod 2 ^ m) + i div 2 ^ m"
  using assms
proof (induction m arbitrary: i)
  case (Suc m)
  have half: "i div 2 < 2 ^ Suc m" using Suc.prems by simp
  have "i mod 2 ^ Suc m div 2 = i div 2 mod 2 ^ m" "i div 2 div 2 ^ m = i div 2 ^ Suc m"
    "i mod 2 ^ Suc m mod 2 = i mod 2"
    by (simp_all add: div_mult2_eq mod_mult2_eq mod_mod_cancel)
  with Suc.IH [OF half] show ?case by (simp add: algebra_simps)
qed (auto simp: less_Suc_eq)

lemma rev_bits_rev_bits: "i < 2 ^ m \<Longrightarrow> rev_bits m (rev_bits m i) = i"
proof (induction m arbitrary: i)
  case (Suc m)
  let ?r = "rev_bits m (i div 2)"
  have r: "?r < 2 ^ m" by (rule rev_bits_less)
  have "rev_bits (Suc m) i mod 2 ^ m = ?r" "rev_bits (Suc m) i div 2 ^ m = i mod 2"
    using r by simp_all
  moreover have "i div 2 < 2 ^ m" using Suc.prems by simp
  ultimately show ?case
    using rev_bits_top [OF rev_bits_less, of m i] Suc.IH [of "i div 2"] by simp
qed simp

lemma xor_top_bit:
  assumes "r < (2::nat) ^ k"
  shows "r XOR 2 ^ k = r + 2 ^ k" and "(2 ^ k + r) XOR 2 ^ k = r"
    and "r AND 2 ^ k = 0" and "(2 ^ k + r) AND 2 ^ k \<noteq> 0"
proof -
  have nb: "\<not> bit r k" using assms by (simp add: bit_iff_odd)
  then show and0: "r AND 2 ^ k = 0" by (simp add: and_exp_eq_0_iff_not_bit)
  then have add: "r + 2 ^ k = r XOR 2 ^ k" by (rule disjunctive_add_eq_xor)
  then show "r XOR 2 ^ k = r + 2 ^ k" by simp
  from add show "(2 ^ k + r) XOR 2 ^ k = r"
    by (simp add: add.commute xor.assoc)
  have "bit (2 ^ k + r) k" using assms by (simp add: bit_iff_odd)
  then show "(2 ^ k + r) AND 2 ^ k \<noteq> 0" by (simp add: and_exp_eq_0_iff_not_bit)
qed

lemma carry_loop_counts:
  assumes "Suc i < 2 ^ m"
  shows "carry_loop (2 ^ m div 2) (rev_bits m i) = rev_bits m (Suc i)"
  using assms
proof (induction m arbitrary: i)
  case (Suc m)
  let ?r = "rev_bits m (i div 2)"
  have r: "?r < 2 ^ m" by (rule rev_bits_less)
  show ?case
  proof (cases "even i")
    case True
    then have "rev_bits (Suc m) i = ?r" "rev_bits (Suc m) (Suc i) = 2 ^ m + ?r"
      by (simp_all add: even_iff_mod_2_eq_zero odd_Suc_div_two mod_Suc)
    with xor_top_bit [OF r] show ?thesis by (simp add: carry_loop.simps)
  next
    case False
    then have "rev_bits (Suc m) i = 2 ^ m + ?r" "rev_bits (Suc m) (Suc i) = rev_bits m (Suc (i div 2))"
      by (simp_all add: odd_iff_mod_2_eq_one mod_Suc)
    moreover have "Suc (i div 2) < 2 ^ m" using Suc.prems False by (auto elim!: oddE)
    ultimately show ?thesis
      using xor_top_bit [OF r] Suc.IH [of "i div 2"] by (simp add: carry_loop.simps [of "2 ^ m"])
  qed
qed simp

definition reversed_upto :: "nat \<Rightarrow> nat \<Rightarrow> 'a list \<Rightarrow> 'a list \<Rightarrow> bool" where
  "reversed_upto m k xs ys \<longleftrightarrow> length ys = 2 ^ m
     \<and> (\<forall>p < 2 ^ m. ys ! p = (if p < k \<or> rev_bits m p < k then xs ! rev_bits m p else xs ! p))"

lemma reversal_step_upto:
  assumes "reversed_upto m k xs ys" and "k < 2 ^ m" and "0 < k"
  shows "\<exists>zs. reversal_step (2 ^ m) k (rev_bits m (k - 1), ys) = (rev_bits m k, zs)
    \<and> reversed_upto m (Suc k) xs zs"
proof -
  have j: "carry_loop (2 ^ m div 2) (rev_bits m (k - 1)) = rev_bits m k"
    using carry_loop_counts [of "k - 1" m] assms(2,3) by simp
  have inv: "rev_bits m p = k \<longleftrightarrow> p = rev_bits m k" if "p < 2 ^ m" for p
    using rev_bits_rev_bits [OF that] rev_bits_rev_bits [OF assms(2)] by auto
  have len: "length ys = 2 ^ m" and ys: "\<And>p. p < 2 ^ m \<Longrightarrow>
      ys ! p = (if p < k \<or> rev_bits m p < k then xs ! rev_bits m p else xs ! p)"
    using assms(1) by (auto simp: reversed_upto_def)
  note rk = rev_bits_rev_bits [OF assms(2)] rev_bits_less [of m k]
  let ?zs = "if k < rev_bits m k then swap k (rev_bits m k) ys else ys"
  have "reversed_upto m (Suc k) xs ?zs"
    unfolding reversed_upto_def
  proof (intro conjI allI impI)
    show "length ?zs = 2 ^ m" using len by (simp add: swap_def)
    fix p assume p: "p < (2::nat) ^ m"
    consider "p = k" | "p = rev_bits m k" "p \<noteq> k" | "p \<noteq> k" "p \<noteq> rev_bits m k" by blast
    then show "?zs ! p = (if p < Suc k \<or> rev_bits m p < Suc k then xs ! rev_bits m p else xs ! p)"
    proof cases
      case 1
      with ys [of k] ys [of "rev_bits m k"] rk assms(2) len show ?thesis
        by (auto simp: swap_def nth_list_update)
    next
      case 2
      with ys [of k] ys [of "rev_bits m k"] rk assms(2) len show ?thesis
        by (auto simp: swap_def nth_list_update)
    next
      case 3
      with inv [OF p] have "rev_bits m p \<noteq> k" by simp
      with 3 ys [OF p] show ?thesis
        by (auto simp: swap_def nth_list_update less_Suc_eq)
    qed
  qed
  with j show ?thesis
    by (intro exI [of _ ?zs]) (simp only: reversal_step_def Let_def case_prod_conv simp_thms)
qed

lemma bit_reversal_nth:
  assumes "length xs = 2 ^ m" and "p < 2 ^ m"
  shows "bit_reversal (2 ^ m) xs ! p = xs ! rev_bits m p" and "length (bit_reversal (2 ^ m) xs) = 2 ^ m"
proof -
  have "\<exists>ys. fold (reversal_step (2 ^ m)) [1 ..< k] (0, xs) = (rev_bits m (k - 1), ys) \<and> reversed_upto m k xs ys"
    if "0 < k" "k \<le> 2 ^ m" for k
    using that
  proof (induction k)
    case (Suc k)
    show ?case
    proof (cases "k = 0")
      case True
      have "rev_bits m p = 0 \<longleftrightarrow> p = 0" if "p < 2 ^ m" for p
        using rev_bits_rev_bits [OF that] by (metis rev_bits_zero)
      with True assms(1) show ?thesis by (auto simp: reversed_upto_def)
    next
      case False
      with Suc obtain ys where "fold (reversal_step (2 ^ m)) [1 ..< k] (0, xs) = (rev_bits m (k - 1), ys)"
        "reversed_upto m k xs ys" by auto
      with reversal_step_upto [of m k xs ys] False Suc.prems show ?thesis by auto
    qed
  qed simp
  from this [of "2 ^ m"] obtain ys where
    "fold (reversal_step (2 ^ m)) [1 ..< 2 ^ m] (0, xs) = (rev_bits m (2 ^ m - 1), ys)"
    "reversed_upto m (2 ^ m) xs ys" by auto
  then show "bit_reversal (2 ^ m) xs ! p = xs ! rev_bits m p" "length (bit_reversal (2 ^ m) xs) = 2 ^ m"
    using assms(2) by (auto simp: bit_reversal_def reversed_upto_def)
qed

section \<open>Exact arithmetic\<close>

definition exact :: "real arith" where
  "exact = \<lparr>f_of_nat = real, f_add = (+), f_sub = (-), f_mul = (*), f_div = (/), f_neg = uminus,
     f_less = (<), f_cos = cos, f_sin = sin, f_hypot = (\<lambda>x y. sqrt (x\<^sup>2 + y\<^sup>2)), f_pi = pi\<rparr>"

definition to_c :: "real cplx \<Rightarrow> complex" where
  "to_c z = Complex (fst z) (snd z)"

lemma to_c_ops [simp]:
  "to_c (c_add exact x y) = to_c x + to_c y" "to_c (c_sub exact x y) = to_c x - to_c y"
  "to_c (c_mul exact x y) = to_c x * to_c y" "c_abs exact x = cmod (to_c x)"
  "to_c (1, 0) = 1" "to_c (r, 0) = of_real r" "f_of_nat exact n = real n"
  by (simp_all add: to_c_def c_add_def c_sub_def c_mul_def c_abs_def exact_def complex_eq_iff cmod_def)

text \<open>The primitive root of order \<open>n\<close>, and the transform as a sum.\<close>

definition unit_root :: "nat \<Rightarrow> complex" where
  "unit_root n = cis (- 2 * pi / real n)"

definition dft :: "nat \<Rightarrow> (nat \<Rightarrow> complex) \<Rightarrow> nat \<Rightarrow> complex" where
  "dft n g k = (\<Sum>t < n. g t * unit_root n ^ (k * t))"

lemma to_c_twiddle [simp]: "to_c (twiddle exact n) = unit_root n"
  by (simp add: to_c_def twiddle_def unit_root_def exact_def cis.ctr Let_def)

lemma root_power: "0 < n \<Longrightarrow> unit_root n ^ n = 1"
  by (simp add: unit_root_def DeMoivre) (simp add: cis.ctr complex_eq_iff)

lemma root_double: "0 < n \<Longrightarrow> unit_root (2 * n) ^ 2 = unit_root n" "0 < n \<Longrightarrow> unit_root (2 * n) ^ n = - 1"
  by (simp_all add: unit_root_def DeMoivre field_simps) (simp_all add: cis.ctr complex_eq_iff)

section \<open>The transform splits into two of half the size\<close>

lemma sum_even_odd: "(\<Sum>t < 2 * n. f t) = (\<Sum>t < n. f (2 * t)) + (\<Sum>t < n. f (2 * t + 1 :: nat))"
  for f :: "nat \<Rightarrow> 'a::comm_monoid_add"
  by (induction n) (simp_all add: ac_simps)

lemma root_even: "0 < n \<Longrightarrow> unit_root (2 * n) ^ (k * (2 * t)) = unit_root n ^ (k * t)"
  using root_double(1) [of n] by (metis mult.left_commute power_mult)

lemma dft_split:
  assumes "0 < n"
  shows "dft (2 * n) g k = dft n (\<lambda>t. g (2 * t)) k + unit_root (2 * n) ^ k * dft n (\<lambda>t. g (2 * t + 1)) k"
    and "dft (2 * n) g (k + n) = dft n (\<lambda>t. g (2 * t)) k - unit_root (2 * n) ^ k * dft n (\<lambda>t. g (2 * t + 1)) k"
proof -
  have odd: "unit_root (2 * n) ^ (k * (2 * t + 1)) = unit_root (2 * n) ^ k * unit_root n ^ (k * t)" for k t
    using root_even [OF assms, of k t] by (simp add: power_add algebra_simps)
  have shift: "unit_root n ^ ((k + n) * t) = unit_root n ^ (k * t)" for t
    using root_power [OF assms] by (simp add: add_mult_distrib power_add power_mult)
  have sign: "unit_root (2 * n) ^ (k + n) = - (unit_root (2 * n) ^ k)"
    using root_double(2) [OF assms] by (simp add: power_add)
  show "dft (2 * n) g k = dft n (\<lambda>t. g (2 * t)) k + unit_root (2 * n) ^ k * dft n (\<lambda>t. g (2 * t + 1)) k"
    unfolding dft_def sum_even_odd root_even [OF assms] odd
    by (simp add: sum_distrib_left algebra_simps)
  show "dft (2 * n) g (k + n) = dft n (\<lambda>t. g (2 * t)) k - unit_root (2 * n) ^ k * dft n (\<lambda>t. g (2 * t + 1)) k"
    unfolding dft_def sum_even_odd root_even [OF assms] odd shift sign
    by (simp add: sum_distrib_left sum_negf algebra_simps)
qed

section \<open>One block, one stage\<close>

text \<open>The values of a butterfly at offset \<open>k\<close> of the block at \<open>base\<close>.\<close>

definition upper :: "complex \<Rightarrow> nat \<Rightarrow> nat \<Rightarrow> real cplx list \<Rightarrow> nat \<Rightarrow> complex" where
  "upper w half base xs k = to_c (xs ! (base + k)) + to_c (xs ! (base + k + half)) * w ^ k"

definition lower :: "complex \<Rightarrow> nat \<Rightarrow> nat \<Rightarrow> real cplx list \<Rightarrow> nat \<Rightarrow> complex" where
  "lower w half base xs k = to_c (xs ! (base + k)) - to_c (xs ! (base + k + half)) * w ^ k"

definition block_upto :: "complex \<Rightarrow> nat \<Rightarrow> nat \<Rightarrow> nat \<Rightarrow> real cplx list \<Rightarrow> real cplx list \<Rightarrow> bool" where
  "block_upto w half base r xs ys \<longleftrightarrow> length ys = length xs
     \<and> (\<forall>k < r. to_c (ys ! (base + k)) = upper w half base xs k
          \<and> to_c (ys ! (base + k + half)) = lower w half base xs k)
     \<and> (\<forall>p. (\<forall>k < r. p \<noteq> base + k \<and> p \<noteq> base + k + half) \<longrightarrow> ys ! p = xs ! p)"

lemma butterfly_upto:
  assumes "block_upto (to_c wl) half base r xs ys" and "r < half" and "base + 2 * half \<le> length xs"
    and "to_c w = to_c wl ^ r"
  shows "\<exists>zs w'. butterfly exact wl half base r (ys, w) = (zs, w')
    \<and> block_upto (to_c wl) half base (Suc r) xs zs \<and> to_c w' = to_c wl ^ Suc r"
proof -
  have same: "ys ! (base + r) = xs ! (base + r)" "ys ! (base + r + half) = xs ! (base + r + half)"
    using assms(1,2) by (auto simp: block_upto_def)
  let ?od = "c_mul exact (ys ! (base + r + half)) w"
  let ?zs = "ys[base + r := c_add exact (ys ! (base + r)) ?od,
    base + r + half := c_sub exact (ys ! (base + r)) ?od]"
  have len: "length ys = length xs" using assms(1) by (simp add: block_upto_def)
  have "block_upto (to_c wl) half base (Suc r) xs ?zs"
    unfolding block_upto_def
  proof (intro conjI allI impI)
    fix k assume "k < Suc r"
    then consider "k = r" | "k < r" by linarith
    then show "to_c (?zs ! (base + k)) = upper (to_c wl) half base xs k"
      "to_c (?zs ! (base + k + half)) = lower (to_c wl) half base xs k"
      using assms len same
      by (cases; auto simp: upper_def lower_def block_upto_def nth_list_update)+
  next
    fix p assume "\<forall>k < Suc r. p \<noteq> base + k \<and> p \<noteq> base + k + half"
    then have p: "p \<noteq> base + r" "p \<noteq> base + r + half" "\<forall>k < r. p \<noteq> base + k \<and> p \<noteq> base + k + half"
      by (auto simp: less_Suc_eq)
    with assms(1) show "?zs ! p = xs ! p" by (simp add: block_upto_def nth_list_update)
  qed (simp add: len)
  with assms(4) show ?thesis by (simp add: butterfly_def Let_def)
qed

lemma block_pass_block:
  assumes "base + 2 * half \<le> length xs"
  shows "block_upto (to_c wl) half base half xs (block_pass exact wl (2 * half) base xs)"
proof -
  have "\<exists>ys w. fold (butterfly exact wl half base) [0 ..< r] (xs, (f_of_nat exact 1, f_of_nat exact 0)) = (ys, w)
      \<and> block_upto (to_c wl) half base r xs ys \<and> to_c w = to_c wl ^ r" if "r \<le> half" for r
    using that
  proof (induction r)
    case 0
    then show ?case by (simp add: block_upto_def)
  next
    case (Suc r)
    then obtain ys w where
      "fold (butterfly exact wl half base) [0 ..< r] (xs, (f_of_nat exact 1, f_of_nat exact 0)) = (ys, w)"
      "block_upto (to_c wl) half base r xs ys" "to_c w = to_c wl ^ r" by auto
    with butterfly_upto [of wl half base r xs ys w] assms Suc.prems show ?case by simp
  qed
  from this [of half] show ?thesis by (auto simp: block_pass_def)
qed

definition stage_upto :: "nat \<Rightarrow> nat \<Rightarrow> real cplx list \<Rightarrow> real cplx list \<Rightarrow> bool" where
  "stage_upto half r xs ys \<longleftrightarrow> length ys = length xs
     \<and> (\<forall>b < r. \<forall>k < half.
          to_c (ys ! (b * (2 * half) + k)) = upper (unit_root (2 * half)) half (b * (2 * half)) xs k
        \<and> to_c (ys ! (b * (2 * half) + k + half)) = lower (unit_root (2 * half)) half (b * (2 * half)) xs k)
     \<and> (\<forall>p. r * (2 * half) \<le> p \<longrightarrow> ys ! p = xs ! p)"

lemma block_disjoint:
  fixes b r j k half :: nat
  assumes "b < r" and "j < 2 * half" and "k < half"
  shows "b * (2 * half) + j \<noteq> r * (2 * half) + k" and "b * (2 * half) + j \<noteq> r * (2 * half) + k + half"
proof -
  have "Suc b * (2 * half) \<le> r * (2 * half)" using assms(1) by (intro mult_le_mono1) simp
  with assms(2) show "b * (2 * half) + j \<noteq> r * (2 * half) + k"
    "b * (2 * half) + j \<noteq> r * (2 * half) + k + half"
    by simp_all
qed

lemma stage_upto_step:
  assumes st: "stage_upto half r xs ys" and len: "Suc r * (2 * half) \<le> length xs"
  shows "stage_upto half (Suc r) xs (block_pass exact (twiddle exact (2 * half)) (2 * half) (r * (2 * half)) ys)"
    (is "stage_upto _ _ _ ?zs")
proof -
  let ?base = "r * (2 * half)"
  have ylen: "length ys = length xs" using st by (simp add: stage_upto_def)
  then have "?base + 2 * half \<le> length ys" using len by simp
  from block_pass_block [OF this, of "twiddle exact (2 * half)"]
  have bl: "block_upto (unit_root (2 * half)) half ?base half ys ?zs" by simp
  have same: "ys ! p = xs ! p" if "?base \<le> p" for p using st that by (simp add: stage_upto_def)
  show ?thesis
    unfolding stage_upto_def
  proof (intro conjI allI impI)
    show "length ?zs = length xs" using bl ylen by (simp add: block_upto_def)
  next
    fix b k assume b: "b < Suc r" and k: "k < half"
    have "to_c (?zs ! (b * (2 * half) + k)) = upper (unit_root (2 * half)) half (b * (2 * half)) xs k
        \<and> to_c (?zs ! (b * (2 * half) + k + half)) = lower (unit_root (2 * half)) half (b * (2 * half)) xs k"
    proof (cases "b = r")
      case True
      with bl k same show ?thesis by (simp add: block_upto_def upper_def lower_def)
    next
      case False
      with b have br: "b < r" by simp
      have untouched: "?zs ! (b * (2 * half) + j) = ys ! (b * (2 * half) + j)" if "j < 2 * half" for j
        using bl block_disjoint [OF br that] by (simp add: block_upto_def)
      from untouched [of k] untouched [of "k + half"] st br k show ?thesis
        by (simp add: stage_upto_def add.assoc)
    qed
    then show "to_c (?zs ! (b * (2 * half) + k)) = upper (unit_root (2 * half)) half (b * (2 * half)) xs k"
      "to_c (?zs ! (b * (2 * half) + k + half)) = lower (unit_root (2 * half)) half (b * (2 * half)) xs k"
      by blast+
  next
    fix p assume "Suc r * (2 * half) \<le> p"
    with bl same show "?zs ! p = xs ! p" by (simp add: block_upto_def)
  qed
qed

lemma stage_stage:
  assumes "0 < half" and "length xs = n" and "2 * half dvd n"
  shows "stage_upto half (n div (2 * half)) xs (stage exact n (2 * half) xs)"
proof -
  have "stage_upto half r xs
      (fold (\<lambda>b. block_pass exact (twiddle exact (2 * half)) (2 * half) (b * (2 * half))) [0 ..< r] xs)"
    if "r \<le> n div (2 * half)" for r
    using that
  proof (induction r)
    case 0
    then show ?case by (simp add: stage_upto_def)
  next
    case (Suc r)
    have "Suc r * (2 * half) \<le> n div (2 * half) * (2 * half)"
      using Suc.prems by (intro mult_le_mono1)
    also have "\<dots> = n" using assms(3) by simp
    finally show ?case
      using stage_upto_step [of half r xs] Suc assms(2) by simp
  qed
  from this [of "n div (2 * half)"] show ?thesis by (simp add: stage_def)
qed

section \<open>All stages\<close>

text \<open>
  After the stages up to block size \<open>2 ^ s\<close>, each block holds the transform of its subsequence:
  the one that starts at the reversed block number and proceeds with stride \<open>2 ^ (m - s)\<close>.
\<close>

definition transformed :: "nat \<Rightarrow> nat \<Rightarrow> (nat \<Rightarrow> complex) \<Rightarrow> real cplx list \<Rightarrow> bool" where
  "transformed m s x xs \<longleftrightarrow> length xs = 2 ^ m
     \<and> (\<forall>b < 2 ^ (m - s). \<forall>k < 2 ^ s.
          to_c (xs ! (b * 2 ^ s + k)) = dft (2 ^ s) (\<lambda>t. x (rev_bits (m - s) b + t * 2 ^ (m - s))) k)"

lemma transformed_stage:
  assumes tr: "transformed m s x xs" and s: "s < m"
  shows "transformed m (Suc s) x (stage exact (2 ^ m) (2 ^ Suc s) xs)" (is "transformed _ _ _ ?ys")
proof -
  define q where "q = m - Suc s"
  have q: "m - s = Suc q" using s by (simp add: q_def)
  have "m = Suc s + q" using s by (simp add: q_def)
  then have n: "2 ^ m = 2 ^ q * (2 * 2 ^ s :: nat)" by (simp add: power_add)
  have len: "length xs = 2 ^ m" using tr by (simp add: transformed_def)
  have "stage_upto (2 ^ s) (2 ^ m div (2 * 2 ^ s)) xs (stage exact (2 ^ m) (2 * 2 ^ s) xs)"
    by (rule stage_stage) (simp_all add: len n)
  then have st: "stage_upto (2 ^ s) (2 ^ q) xs ?ys" by (simp add: n)
  have "to_c (?ys ! (b * 2 ^ Suc s + k)) = dft (2 ^ Suc s) (\<lambda>t. x (rev_bits q b + t * 2 ^ q)) k"
    if b: "b < 2 ^ q" and k: "k < 2 ^ Suc s" for b k
  proof -
    let ?g = "\<lambda>t. x (rev_bits q b + t * 2 ^ q)"
    have ev: "to_c (xs ! (b * (2 * 2 ^ s) + j)) = dft (2 ^ s) (\<lambda>t. ?g (2 * t)) j" if "j < 2 ^ s" for j
    proof -
      have "2 * b < 2 ^ (m - s)" using b q by simp
      with tr that have "to_c (xs ! (2 * b * 2 ^ s + j)) =
          dft (2 ^ s) (\<lambda>t. x (rev_bits (m - s) (2 * b) + t * 2 ^ (m - s))) j"
        by (simp add: transformed_def)
      then show ?thesis by (simp add: q algebra_simps)
    qed
    have od: "to_c (xs ! (b * (2 * 2 ^ s) + j + 2 ^ s)) = dft (2 ^ s) (\<lambda>t. ?g (2 * t + 1)) j" if "j < 2 ^ s" for j
    proof -
      have "2 * b + 1 < 2 ^ (m - s)" using b q by simp
      with tr that have "to_c (xs ! ((2 * b + 1) * 2 ^ s + j)) =
          dft (2 ^ s) (\<lambda>t. x (rev_bits (m - s) (2 * b + 1) + t * 2 ^ (m - s))) j"
        unfolding transformed_def by blast
      moreover have "rev_bits (m - s) (2 * b + 1) = 2 ^ q + rev_bits q b" by (simp add: q)
      ultimately have "to_c (xs ! ((2 * b + 1) * 2 ^ s + j)) =
          dft (2 ^ s) (\<lambda>t. x (2 ^ q + rev_bits q b + t * 2 ^ Suc q)) j"
        by (simp only: q)
      then show ?thesis by (simp add: algebra_simps)
    qed
    consider "k < 2 ^ s" | j where "k = j + 2 ^ s" "j < 2 ^ s"
      using k by (metis add.commute le_Suc_ex mult_2 nat_add_left_cancel_less not_less power_Suc)
    then show ?thesis
    proof cases
      case 1
      with st b have "to_c (?ys ! (b * (2 * 2 ^ s) + k)) = upper (unit_root (2 * 2 ^ s)) (2 ^ s) (b * (2 * 2 ^ s)) xs k"
        by (simp add: stage_upto_def)
      with 1 show ?thesis
        using dft_split(1) [of "2 ^ s" ?g k] by (simp add: upper_def ev od mult.commute)
    next
      case 2
      with st b have "to_c (?ys ! (b * (2 * 2 ^ s) + j + 2 ^ s)) = lower (unit_root (2 * 2 ^ s)) (2 ^ s) (b * (2 * 2 ^ s)) xs j"
        by (simp add: stage_upto_def)
      also have "\<dots> = dft (2 * 2 ^ s) ?g (j + 2 ^ s)"
        using dft_split(2) [of "2 ^ s" ?g j] 2 ev [of j] od [of j] by (simp add: lower_def mult.commute)
      finally show ?thesis using 2(1) by (simp add: add.assoc)
    qed
  qed
  moreover have "length ?ys = 2 ^ m" using st len by (simp add: stage_upto_def)
  ultimately show ?thesis unfolding transformed_def q_def [symmetric] by blast
qed

lemma stage_loop_transforms:
  assumes "transformed m s x xs" and "s \<le> m"
  shows "transformed m m x (stage_loop exact (2 ^ m) (2 ^ Suc s) xs)"
  using assms
proof (induction "m - s" arbitrary: s xs)
  case 0
  then show ?case by (simp add: stage_loop.simps)
next
  case (Suc d)
  then have s: "s < m" by simp
  then have le: "(2::nat) ^ Suc s \<le> 2 ^ m" by (intro power_increasing) simp_all
  have "d = m - Suc s" using Suc(2) by simp
  from Suc(1) [OF this transformed_stage [OF Suc(3) s]] s le show ?case
    by (simp add: stage_loop.simps [of exact "2 ^ m" "2 * 2 ^ s"])
qed

section \<open>Properties\<close>

lemma fft_n_dft:
  assumes "length samples = 2 ^ m" and "i < 2 ^ m div 2"
  shows "fft_n exact (2 ^ m) samples ! i =
    cmod (\<Sum>t < 2 ^ m. of_real (samples ! t) * cis (- 2 * pi * real i * real t / 2 ^ m)) / 2 ^ m"
proof -
  let ?x = "\<lambda>t. of_real (samples ! t) :: complex"
  let ?xs = "map (\<lambda>i. (samples ! i, 0)) [0 ..< 2 ^ m] :: real cplx list"
  have "transformed m 0 ?x (bit_reversal (2 ^ m) ?xs)"
    using bit_reversal_nth(1) [of ?xs m] bit_reversal_nth(2) [of ?xs m 0] rev_bits_less [of m]
    by (simp add: transformed_def dft_def)
  from stage_loop_transforms [OF this]
  have "transformed m m ?x (stage_loop exact (2 ^ m) 2 (bit_reversal (2 ^ m) ?xs))" by simp
  then have "to_c (stage_loop exact (2 ^ m) 2 (bit_reversal (2 ^ m) ?xs) ! i) = dft (2 ^ m) ?x i"
    using assms(2) by (simp add: transformed_def)
  moreover have "f_div exact a b = a / b" for a b by (simp add: exact_def)
  moreover have "unit_root (2 ^ m) ^ (i * t) = cis (- 2 * pi * real i * real t / 2 ^ m)" for t
    by (simp add: unit_root_def DeMoivre algebra_simps)
  ultimately show ?thesis
    using assms(2) by (simp add: fft_n_def dft_def Let_def)
qed

text \<open>A count that passes the test is a power of two, or zero.\<close>

lemma single_bit_nat:
  fixes n :: nat
  assumes "0 < n" and "n AND (n - 1) = 0"
  obtains m where "n = 2 ^ m"
proof -
  obtain m where m: "2 ^ m \<le> n" "n < 2 ^ (m + 1)" using ex_power_ivl1 [of 2 n] assms(1) by auto
  have "n = 2 ^ m"
  proof (rule ccontr)
    assume "n \<noteq> 2 ^ m"
    with m have "n div 2 ^ m = 1" "(n - 1) div 2 ^ m = 1" by (auto intro!: div_nat_eqI)
    then have "bit n m" "bit (n - 1) m" by (simp_all add: bit_iff_odd)
    then have "bit (n AND (n - 1)) m" by (simp add: bit_and_iff)
    with assms(2) show False by simp
  qed
  then show thesis by (rule that)
qed

lemma radix2_power:
  assumes "radix2_count n" and "n \<noteq> 0"
  obtains m where "unat n = 2 ^ m"
proof -
  have "unat (n AND (n - 1)) = 0" using assms(1) by (simp add: radix2_count_def)
  moreover have "unat (n - 1) = unat n - 1" using assms(2) by (simp add: unat_minus_one)
  ultimately have "unat n AND (unat n - 1) = 0" by (simp add: unsigned_and_eq)
  with assms(2) that show thesis by (metis single_bit_nat unat_gt_0)
qed

text \<open>C13: The transform is the discrete Fourier transform. In exact arithmetic, for every sample count
  other than zero that the compile-time test admits, the in-place radix-2 loop (bit reversal, then
  butterfly stages) yields the normalised magnitudes of the lower half of the spectrum of its input,
  as the defining sum gives them.\<close>

theorem fft_is_dft:
  assumes "radix2_count n" and "n \<noteq> 0" and "length samples = unat n" and "i < unat n div 2"
  shows "fft_n exact (unat n) samples ! i =
    cmod (\<Sum>t < unat n. of_real (samples ! t) * cis (- 2 * pi * real i * real t / real (unat n))) / real (unat n)"
proof -
  obtain m where m: "unat n = 2 ^ m" using radix2_power [OF assms(1,2)] .
  with fft_n_dft [of samples m i] assms(3,4) show ?thesis by simp
qed

theorem fft_is_dft_witness:
  "fft_n exact 4 [1, 2, 3, 4] ! 0 = 5 / 2"
proof -
  have "(\<Sum>t < 4. complex_of_real ([1, 2, 3, 4] ! t) * cis (- 2 * pi * real 0 * real t / real 4)) = 10"
    by (simp add: eval_nat_numeral)
  moreover have "radix2_count 4" by (simp add: radix2_count_def)
  ultimately show ?thesis
    using fft_is_dft [of 4 "[1, 2, 3, 4]" 0] by simp
qed

text \<open>The neighbourhood a filtered sample is averaged over.\<close>

definition window :: "nat \<Rightarrow> nat \<Rightarrow> nat set" where
  "window n i = {j. j < n \<and> j \<le> Suc i \<and> i \<le> Suc j}"

lemma window_cases:
  assumes "i < n"
  shows "window n i = {i} \<union> (if 0 < i then {i - 1} else {}) \<union> (if i + 1 < n then {i + 1} else {})"
  using assms by (auto simp: window_def)

lemma filter_at_mean:
  assumes "i < length xs"
  shows "filter_at exact xs i = (\<Sum>j \<in> window (length xs) i. xs ! j) / real (card (window (length xs) i))"
  using assms
  by (auto simp: filter_at_def window_cases exact_def Let_def)

text \<open>The noise filter averages. In exact arithmetic every filtered sample is the mean of the
  sample and its existing neighbours; no filtered sample leaves the range of the input, and the
  length does not change.\<close>

lemma noise_filter_averages:
  "length (noise_filter exact xs) = length xs
   \<and> (\<forall>i < length xs.
        noise_filter exact xs ! i
          = (\<Sum>j \<in> window (length xs) i. xs ! j) / real (card (window (length xs) i))
      \<and> Min (set xs) \<le> noise_filter exact xs ! i \<and> noise_filter exact xs ! i \<le> Max (set xs))"
proof (intro conjI allI impI)
  fix i assume i: "i < length xs"
  let ?w = "window (length xs) i"
  show mean: "noise_filter exact xs ! i = (\<Sum>j \<in> ?w. xs ! j) / real (card ?w)"
    using i filter_at_mean [OF i] by (simp add: noise_filter_def)
  have w: "finite ?w" "?w \<noteq> {}" "\<And>j. j \<in> ?w \<Longrightarrow> j < length xs"
    using i by (auto simp: window_cases [OF i] split: if_splits)
  then have pos: "0 < real (card ?w)" by (simp add: card_gt_0_iff)
  have "real (card ?w) * Min (set xs) \<le> (\<Sum>j \<in> ?w. xs ! j)"
    using w(3) by (intro sum_bounded_below) (simp add: nth_mem)
  with pos mean show "Min (set xs) \<le> noise_filter exact xs ! i"
    by (simp add: pos_le_divide_eq mult.commute)
  have "(\<Sum>j \<in> ?w. xs ! j) \<le> real (card ?w) * Max (set xs)"
    using w(3) by (intro sum_bounded_above) (simp add: nth_mem)
  with pos mean show "noise_filter exact xs ! i \<le> Max (set xs)"
    by (simp add: pos_divide_le_eq mult.commute)
qed simp

lemma noise_filter_averages_example:
  "noise_filter exact [3, 6, 9] ! 1 \<le> 9 \<and> 3 \<le> noise_filter exact [3, 6, 9] ! 1"
  using noise_filter_averages [of "[3, 6, 9]"] by (auto dest!: spec [of _ 1])

lemma detect_fold:
  "fold (detect_step exact) sp (p, s) = (fold max sp p, s + sum_list sp)"
  by (induction sp arbitrary: p s) (auto simp: detect_step_def exact_def max_def)

lemma fold_max_Max: "fold max xs (p::real) = Max (insert p (set xs))"
  using Max.set_eq_fold [of p xs] by simp

lemma target_detection_peak:
  "target_detection exact sp =
     (4 * (sum_list sp / real (length sp)) < Max (insert 0 (set sp)), Max (insert 0 (set sp)))"
proof -
  have "f_less exact = (<)" "f_mul exact = (*)" "f_div exact = (/)" by (simp_all add: exact_def)
  then show ?thesis by (simp add: target_detection_def detect_fold fold_max_Max)
qed

text \<open>The detector reports the peak. In exact arithmetic the reported magnitude is the largest
  of the spectrum (or zero), and a target is flagged exactly when it exceeds four times the mean.\<close>

lemma detection_finds_peak:
  "target_detection exact sp =
     (4 * (sum_list sp / real (length sp)) < Max (insert 0 (set sp)), Max (insert 0 (set sp)))"
  by (rule target_detection_peak)

text \<open>C23: The pipeline end to end. In exact arithmetic a full block of samples becomes a result with
  the block's own timestamp, the largest normalised magnitude of the lower half of the filtered
  block's Fourier spectrum, and a detection exactly when that peak exceeds four times the mean of
  those magnitudes.\<close>

theorem process_is_pipeline:
  assumes "length (sig_samples sig) = kRadarSampleCount"
  shows "let filtered = noise_filter exact (sig_samples sig);
             mags = map (\<lambda>k. cmod (\<Sum>t < 256. of_real (filtered ! t)
               * cis (- 2 * pi * real k * real t / 256)) / 256) [0 ..< 128];
             peak = Max (insert 0 (set mags))
         in process exact sig = ProcessedSignal (sig_timestamp sig) (4 * (sum_list mags / 128) < peak) peak"
proof -
  have "fft exact xs = map (\<lambda>k. cmod (\<Sum>t < 256. of_real (xs ! t)
      * cis (- 2 * pi * real k * real t / 256)) / 256) [0 ..< 128]" if "length xs = 256" for xs
    using that fft_n_dft [of xs 8]
    by (intro nth_equalityI) (simp_all add: fft_def kRadarSampleCount_def)
  with assms show ?thesis
    by (simp add: process_def target_detection_peak kRadarSampleCount_def Let_def)
qed

theorem process_is_pipeline_witness:
  "process exact (RadarSignal 5 (replicate 256 0)) = ProcessedSignal 5 False 0"
proof -
  let ?sig = "RadarSignal 5 (replicate 256 0) :: real radar_signal"
  have "filter_at exact (replicate 256 0) i = 0" if "i < 256" for i
    using filter_at_mean [of i "replicate 256 0"] that by (simp add: window_def)
  then have "noise_filter exact (replicate 256 0) = replicate 256 0"
    by (intro nth_equalityI) (simp_all add: noise_filter_def)
  moreover have "length (sig_samples ?sig) = kRadarSampleCount"
    by (simp add: RadarSignal_def kRadarSampleCount_def)
  from process_is_pipeline [OF this] have
    "process exact ?sig = (let filtered = noise_filter exact (sig_samples ?sig);
             mags = map (\<lambda>k. cmod (\<Sum>t < 256. of_real (filtered ! t)
               * cis (- 2 * pi * real k * real t / 256)) / 256) [0 ..< 128];
             peak = Max (insert 0 (set mags))
         in ProcessedSignal (sig_timestamp ?sig) (4 * (sum_list mags / 128) < peak) peak)"
    by (simp only: Let_def)
  ultimately show ?thesis
    by (simp add: RadarSignal_def Let_def map_replicate_const sum_list_replicate)
qed

end
