(* ===== verification/Float_Rounding.thy ===== *)
theory Float_Rounding
  imports Fft_Correctness
begin

text \<open>
  The signal processing in rounded arithmetic. Every operation of \<^verbatim>\<open>float\<close> is the rounding of the
  exact one, as IEEE 754 prescribes, and the functions of the mathematical library are accurate to a
  few units in the last place. The rounded pipeline is run side by side with the exact one and the
  distance of the two is bounded, stage by stage. Values are real numbers: the bound \<open>B\<close> on the
  magnitudes for which the laws are used stays below the overflow threshold, and the proofs show
  that no intermediate value of the pipeline exceeds it.
\<close>

section \<open>Rounded arithmetic\<close>

text \<open>
  \<open>fl\<close> rounds to the nearest representable number; \<open>cosf\<close>, \<open>sinf\<close> and \<open>hypotf\<close> are those of the
  mathematical library.
\<close>

definition ieee :: "(real \<Rightarrow> real) \<Rightarrow> (real \<Rightarrow> real) \<Rightarrow> (real \<Rightarrow> real) \<Rightarrow> (real \<Rightarrow> real \<Rightarrow> real) \<Rightarrow> real arith" where
  "ieee fl cosf sinf hypotf = \<lparr>f_of_nat = (\<lambda>n. fl (real n)), f_add = (\<lambda>x y. fl (x + y)),
     f_sub = (\<lambda>x y. fl (x - y)), f_mul = (\<lambda>x y. fl (x * y)), f_div = (\<lambda>x y. fl (x / y)),
     f_neg = uminus, f_less = (<), f_cos = cosf, f_sin = sinf, f_hypot = hypotf, f_pi = fl pi\<rparr>"

lemma ieee_simps [simp]:
  "f_of_nat (ieee fl cosf sinf hypotf) n = fl (real n)"
  "f_add (ieee fl cosf sinf hypotf) x y = fl (x + y)"
  "f_sub (ieee fl cosf sinf hypotf) x y = fl (x - y)"
  "f_mul (ieee fl cosf sinf hypotf) x y = fl (x * y)"
  "f_div (ieee fl cosf sinf hypotf) x y = fl (x / y)"
  "f_neg (ieee fl cosf sinf hypotf) x = - x"
  "f_less (ieee fl cosf sinf hypotf) x y = (x < y)"
  "f_cos (ieee fl cosf sinf hypotf) x = cosf x"
  "f_sin (ieee fl cosf sinf hypotf) x = sinf x"
  "f_hypot (ieee fl cosf sinf hypotf) x y = hypotf x y"
  "f_pi (ieee fl cosf sinf hypotf) = fl pi"
  by (simp_all add: ieee_def)

text \<open>
  The laws: a relative error \<open>u\<close> and an absolute one \<open>\<eta>\<close> for results near zero, small integers
  exactly representable, and accurate library functions.
\<close>

locale rounding =
  fixes fl :: "real \<Rightarrow> real" and u \<eta> :: real
  assumes fl_err: "\<bar>z\<bar> \<le> 2 ^ 120 \<Longrightarrow> \<bar>fl z - z\<bar> \<le> u * \<bar>z\<bar> + \<eta>"
    and fl_nat: "n \<le> 2 ^ 24 \<Longrightarrow> fl (real n) = real n"
    and u_pos: "0 \<le> u" and u_le: "u \<le> 1 / 2 ^ 24"
    and eta_pos: "0 \<le> \<eta>" and eta_le: "\<eta> \<le> u / 2 ^ 100"

locale float_library = rounding +
  fixes cosf sinf :: "real \<Rightarrow> real" and hypotf :: "real \<Rightarrow> real \<Rightarrow> real"
  assumes cosf_err: "\<bar>x\<bar> \<le> 5 \<Longrightarrow> \<bar>cosf x - cos x\<bar> \<le> 2 * u"
    and sinf_err: "\<bar>x\<bar> \<le> 5 \<Longrightarrow> \<bar>sinf x - sin x\<bar> \<le> 2 * u"
    and hypotf_err: "sqrt (x\<^sup>2 + y\<^sup>2) \<le> 2 ^ 120
      \<Longrightarrow> \<bar>hypotf x y - sqrt (x\<^sup>2 + y\<^sup>2)\<bar> \<le> 2 * u * sqrt (x\<^sup>2 + y\<^sup>2) + \<eta>"

section \<open>Errors of the complex operations\<close>

lemma to_c_split: "cmod (to_c z) \<le> \<bar>fst z\<bar> + \<bar>snd z\<bar>" "\<bar>fst z\<bar> \<le> cmod (to_c z)" "\<bar>snd z\<bar> \<le> cmod (to_c z)"
  using cmod_le [of "to_c z"] abs_Re_le_cmod [of "to_c z"] abs_Im_le_cmod [of "to_c z"]
  by (simp_all add: to_c_def)

text \<open>The products of the components of two complex numbers.\<close>

lemma product_parts: "\<bar>a * c\<bar> + \<bar>b * d\<bar> \<le> cmod (Complex a b) * cmod (Complex c d)"
proof -
  have cauchy: "(x * z + y * w)\<^sup>2 \<le> (x\<^sup>2 + y\<^sup>2) * (z\<^sup>2 + w\<^sup>2)" for x y z w :: real
  proof -
    have "(x\<^sup>2 + y\<^sup>2) * (z\<^sup>2 + w\<^sup>2) - (x * z + y * w)\<^sup>2 = (x * w - y * z)\<^sup>2" by algebra
    then show ?thesis using zero_le_power2 [of "x * w - y * z"] by linarith
  qed
  have "(\<bar>a\<bar> * \<bar>c\<bar> + \<bar>b\<bar> * \<bar>d\<bar>)\<^sup>2 \<le> (cmod (Complex a b) * cmod (Complex c d))\<^sup>2"
    using cauchy [of "\<bar>a\<bar>" "\<bar>c\<bar>" "\<bar>b\<bar>" "\<bar>d\<bar>"] by (simp add: power_mult_distrib cmod_power2)
  then show ?thesis
    unfolding abs_mult by (rule power2_le_imp_le) simp
qed

context rounding
begin

lemma fl_near:
  assumes "\<bar>z - t\<bar> \<le> d" and "\<bar>z\<bar> \<le> m" and "m \<le> 2 ^ 120"
  shows "\<bar>fl z - t\<bar> \<le> d + u * m + \<eta>"
  using fl_err [of z] assms mult_left_mono [OF assms(2) u_pos] by linarith

text \<open>The sum of two products, each rounded.\<close>

lemma rounded_sum:
  assumes p: "\<bar>p' - p\<bar> \<le> u * \<bar>p\<bar> + \<eta>" and q: "\<bar>q' - q\<bar> \<le> u * \<bar>q\<bar> + \<eta>"
    and P: "\<bar>p\<bar> + \<bar>q\<bar> \<le> P" "P \<le> 2 ^ 118"
  shows "\<bar>fl (p' + q') - (p + q)\<bar> \<le> 3 * u * P + 4 * \<eta>"
proof -
  have uP: "u * \<bar>p\<bar> + u * \<bar>q\<bar> \<le> u * P" using P(1) u_pos by (metis distrib_left mult_left_mono)
  have "0 \<le> P" using P(1) by linarith
  have u1: "u * P \<le> P" using \<open>0 \<le> P\<close> u_le by (intro mult_left_le_one_le) (simp_all add: u_pos)
  have "\<eta> \<le> 1" using eta_le u_le by (simp add: field_simps)
  have err: "\<bar>p' + q' - (p + q)\<bar> \<le> u * P + 2 * \<eta>" using p q uP by linarith
  then have mag: "\<bar>p' + q'\<bar> \<le> P + u * P + 2 * \<eta>" using P(1) by linarith
  then have "\<bar>p' + q'\<bar> \<le> 2 ^ 120" using u1 P(2) \<open>\<eta> \<le> 1\<close> by simp
  from fl_err [OF this] have "\<bar>fl (p' + q') - (p' + q')\<bar> \<le> u * (P + u * P + 2 * \<eta>) + \<eta>"
    using mult_left_mono [OF mag u_pos] by linarith
  moreover have "u * (u * P) \<le> u * P" using u1 u_pos by (rule mult_left_mono)
  moreover have "u * \<eta> \<le> \<eta> / 2" using u_le eta_pos mult_right_mono [of u "1/2" \<eta>] by simp
  ultimately show ?thesis using err by (simp add: algebra_simps)
qed

lemma rounded_diff:
  assumes "\<bar>p' - p\<bar> \<le> u * \<bar>p\<bar> + \<eta>" and "\<bar>q' - q\<bar> \<le> u * \<bar>q\<bar> + \<eta>" and "\<bar>p\<bar> + \<bar>q\<bar> \<le> P" and "P \<le> 2 ^ 118"
  shows "\<bar>fl (p' - q') - (p - q)\<bar> \<le> 3 * u * P + 4 * \<eta>"
  using rounded_sum [of p' p "- q'" "- q" P] assms by (simp add: abs_minus_commute)

lemma c_mul_err:
  assumes "cmod (to_c x) * cmod (to_c y) \<le> 2 ^ 118"
  shows "cmod (to_c (c_mul (ieee fl cosf sinf hypotf) x y) - to_c x * to_c y)
    \<le> 6 * u * (cmod (to_c x) * cmod (to_c y)) + 8 * \<eta>"
proof -
  obtain a b c d where xy: "x = (a, b)" "y = (c, d)" by (metis surj_pair)
  let ?P = "cmod (to_c x) * cmod (to_c y)"
  have P: "\<bar>a * c\<bar> + \<bar>b * d\<bar> \<le> ?P" "\<bar>a * d\<bar> + \<bar>b * c\<bar> \<le> ?P"
    using product_parts [of a c b d] product_parts [of a d b c]
    by (simp_all add: xy to_c_def cmod_def add.commute)
  have prod: "\<bar>fl r - r\<bar> \<le> u * \<bar>r\<bar> + \<eta>" if "\<bar>r\<bar> + s \<le> ?P" "0 \<le> s" for r s
    using fl_err [of r] that assms by simp
  have "\<bar>fl (fl (a * c) - fl (b * d)) - (a * c - b * d)\<bar> \<le> 3 * u * ?P + 4 * \<eta>"
    using P(1) by (intro rounded_diff prod [of _ "\<bar>b * d\<bar>"] prod [of _ "\<bar>a * c\<bar>"] assms) simp_all
  moreover have "\<bar>fl (fl (a * d) + fl (b * c)) - (a * d + b * c)\<bar> \<le> 3 * u * ?P + 4 * \<eta>"
    using P(2) by (intro rounded_sum prod [of _ "\<bar>b * c\<bar>"] prod [of _ "\<bar>a * d\<bar>"] assms) simp_all
  moreover have "cmod (to_c (c_mul (ieee fl cosf sinf hypotf) x y) - to_c x * to_c y)
      \<le> \<bar>fl (fl (a * c) - fl (b * d)) - (a * c - b * d)\<bar> + \<bar>fl (fl (a * d) + fl (b * c)) - (a * d + b * c)\<bar>"
    using cmod_le [of "to_c (c_mul (ieee fl cosf sinf hypotf) x y) - to_c x * to_c y"]
    by (simp add: xy to_c_def c_mul_def)
  ultimately show ?thesis by simp
qed

lemma c_add_err:
  assumes "cmod (to_c x + to_c y) \<le> 2 ^ 120"
  shows "cmod (to_c (c_add (ieee fl cosf sinf hypotf) x y) - (to_c x + to_c y))
    \<le> 2 * u * cmod (to_c x + to_c y) + 2 * \<eta>"
proof -
  let ?z = "to_c x + to_c y"
  have parts: "\<bar>fl (Re ?z) - Re ?z\<bar> \<le> u * cmod ?z + \<eta>" "\<bar>fl (Im ?z) - Im ?z\<bar> \<le> u * cmod ?z + \<eta>"
    using fl_err [of "Re ?z"] fl_err [of "Im ?z"] abs_Re_le_cmod [of ?z] abs_Im_le_cmod [of ?z] assms
      mult_left_mono [OF abs_Re_le_cmod [of ?z] u_pos] mult_left_mono [OF abs_Im_le_cmod [of ?z] u_pos]
    by linarith+
  have "cmod (to_c (c_add (ieee fl cosf sinf hypotf) x y) - ?z) \<le> \<bar>fl (Re ?z) - Re ?z\<bar> + \<bar>fl (Im ?z) - Im ?z\<bar>"
    using cmod_le [of "to_c (c_add (ieee fl cosf sinf hypotf) x y) - ?z"] by (simp add: to_c_def c_add_def)
  with parts show ?thesis by linarith
qed

lemma c_sub_err:
  assumes "cmod (to_c x - to_c y) \<le> 2 ^ 120"
  shows "cmod (to_c (c_sub (ieee fl cosf sinf hypotf) x y) - (to_c x - to_c y))
    \<le> 2 * u * cmod (to_c x - to_c y) + 2 * \<eta>"
proof -
  have minus: "to_c x + to_c (- fst y, - snd y) = to_c x - to_c y"
    by (simp add: to_c_def complex_eq_iff)
  show ?thesis
    using c_add_err [of x "(- fst y, - snd y)" cosf sinf hypotf] assms
    unfolding minus by (simp add: c_add_def c_sub_def)
qed

end

section \<open>Errors of the twiddle factors\<close>

lemma cos_lipschitz: "\<bar>cos x - cos y\<bar> \<le> \<bar>x - y\<bar>" for x y :: real
proof -
  have "\<bar>cos x - cos y\<bar> = 2 * (\<bar>sin ((x + y) / 2)\<bar> * \<bar>sin ((y - x) / 2)\<bar>)"
    by (simp add: cos_diff_cos abs_mult)
  also have "\<dots> \<le> 2 * (1 * \<bar>(y - x) / 2\<bar>)"
    by (intro mult_left_mono mult_mono abs_sin_le_one abs_sin_x_le_abs_x) simp_all
  finally show ?thesis by simp
qed

lemma sin_lipschitz: "\<bar>sin x - sin y\<bar> \<le> \<bar>x - y\<bar>" for x y :: real
  using cos_lipschitz [of "pi / 2 - x" "pi / 2 - y"] by (simp add: cos_diff)

text \<open>The distance of a value from the exact one, and the size of the exact one.\<close>

definition near :: "real \<Rightarrow> real \<Rightarrow> real cplx \<Rightarrow> real cplx \<Rightarrow> bool" where
  "near E M x y \<longleftrightarrow> cmod (to_c x - to_c y) \<le> E \<and> cmod (to_c y) \<le> M"

lemma near_bound: "near E M x y \<Longrightarrow> cmod (to_c x) \<le> M + E"
  using norm_triangle_sub [of "to_c x" "to_c y"] by (simp add: near_def)

context float_library
begin

abbreviation A :: "real arith" where
  "A \<equiv> ieee fl cosf sinf hypotf"

lemma eta_u: "\<eta> \<le> u / 1000" "u \<le> 1 / 1000000"
  using eta_le u_le u_pos by (simp_all add: field_simps)

lemma twiddle_err:
  assumes "0 < half" and "2 * half \<le> 2 ^ 24"
  shows "cmod (to_c (twiddle A (2 * half)) - unit_root (2 * half)) \<le> 32 * u"
proof -
  note e = eta_u u_pos eta_pos
  let ?n = "real (2 * half)"
  have n: "2 \<le> ?n" "fl ?n = ?n" "fl 2 = 2"
    using assms fl_nat [of "2 * half"] fl_nat [of 2] by simp_all
  note pi4 = pi_less_4 pi_gt_zero
  have a0: "\<bar>fl pi - pi\<bar> \<le> (401 / 100) * u"
    using fl_near [of pi pi 0 4] pi4 e by simp
  let ?a1 = "- 2 * fl pi"
  have "\<bar>?a1 - (- 2 * pi)\<bar> \<le> (802 / 100) * u" "\<bar>?a1\<bar> \<le> 81 / 10" using a0 pi4 e by linarith+
  from fl_near [OF this] have a1: "\<bar>fl ?a1 - (- 2 * pi)\<bar> \<le> 17 * u" using e by simp
  let ?a2 = "fl ?a1 / ?n" and ?t = "- (2 * pi / ?n)"
  have "?a2 - ?t = (fl ?a1 - (- 2 * pi)) / ?n" by (simp add: add_divide_distrib)
  then have "\<bar>?a2 - ?t\<bar> = \<bar>fl ?a1 - (- 2 * pi)\<bar> / ?n" using n(1) by simp
  also have "\<dots> \<le> 17 * u / 2" using a1 n(1) by (intro frac_le) simp_all
  finally have a2: "\<bar>?a2 - ?t\<bar> \<le> (85 / 10) * u" by simp
  have "2 * pi / ?n \<le> 2 * pi / 2" using n(1) pi4 by (intro divide_left_mono) simp_all
  moreover have "0 \<le> 2 * pi / ?n" using n(1) by simp
  ultimately have t: "\<bar>?t\<bar> \<le> 4" using pi4 by linarith
  then have "\<bar>?a2\<bar> \<le> 41 / 10" using a2 e by linarith
  from fl_near [OF a2 this] have a3: "\<bar>fl ?a2 - ?t\<bar> \<le> (128 / 10) * u" using e by simp
  then have b3: "\<bar>fl ?a2\<bar> \<le> 5" using t e by linarith
  have "\<bar>cosf (fl ?a2) - cos ?t\<bar> \<le> 15 * u" "\<bar>sinf (fl ?a2) - sin ?t\<bar> \<le> 15 * u"
    using cosf_err [OF b3] sinf_err [OF b3] cos_lipschitz [of "fl ?a2" ?t] sin_lipschitz [of "fl ?a2" ?t] a3
    by linarith+
  moreover have "to_c (twiddle A (2 * half)) - unit_root (2 * half)
      = Complex (cosf (fl ?a2) - cos ?t) (sinf (fl ?a2) - sin ?t)"
    using n by (simp add: to_c_def twiddle_def unit_root_def cis.ctr complex_eq_iff Let_def)
  ultimately show ?thesis
    using cmod_le [of "to_c (twiddle A (2 * half)) - unit_root (2 * half)"] u_pos by simp
qed

text \<open>The running power of the twiddle factor drifts by a fixed amount per step.\<close>

lemma power_step:
  assumes "cmod (to_c w - v) \<le> d" and "cmod v = 1" and "d \<le> 1 / 100"
    and "cmod (to_c l - r) \<le> 32 * u" and "cmod r = 1"
  shows "cmod (to_c (c_mul A w l) - v * r) \<le> d + 40 * u"
proof -
  note e = eta_u u_pos eta_pos
  have w: "cmod (to_c w) \<le> 1 + d" using norm_triangle_sub [of "to_c w" v] assms(1,2) by simp
  have l: "cmod (to_c l) \<le> 1 + 32 * u" using norm_triangle_sub [of "to_c l" r] assms(4,5) by simp
  have "cmod (to_c w) * cmod (to_c l) \<le> (101 / 100) * (1001 / 1000)"
    using w l assms(3) e by (intro mult_mono) simp_all
  then have wl: "cmod (to_c w) * cmod (to_c l) \<le> (102 / 100)" by simp
  have m: "cmod (to_c (c_mul A w l) - to_c w * to_c l) \<le> 6 * u * (102 / 100) + 8 * \<eta>"
    by (rule order_trans [OF c_mul_err add_right_mono [OF mult_left_mono [OF wl]]]) (use wl u_pos in simp_all)
  have "to_c w * to_c l - v * r = to_c w * (to_c l - r) + (to_c w - v) * r" by (simp add: algebra_simps)
  then have "cmod (to_c w * to_c l - v * r) \<le> cmod (to_c w) * cmod (to_c l - r) + cmod (to_c w - v)"
    using norm_triangle_ineq [of "to_c w * (to_c l - r)" "(to_c w - v) * r"] assms(5) by (simp add: norm_mult)
  also have "cmod (to_c w) * cmod (to_c l - r) \<le> (101 / 100) * (32 * u)"
    using w assms(3,4) by (intro mult_mono) simp_all
  finally have "cmod (to_c w * to_c l - v * r) \<le> (101 / 100) * (32 * u) + d" using assms(1) by simp
  with m norm_triangle_ineq [of "to_c (c_mul A w l) - to_c w * to_c l" "to_c w * to_c l - v * r"] e
  show ?thesis by simp
qed

end

section \<open>One butterfly\<close>

context float_library
begin

text \<open>The bound after a butterfly, from the bounds \<open>E\<close>, \<open>M\<close> before it and the drift \<open>d\<close> of the twiddle factor.\<close>

definition step_bound :: "real \<Rightarrow> real \<Rightarrow> real \<Rightarrow> real" where
  "step_bound E M d = (1 + 2 * u) * (2 * E + 6 * u * ((M + E) * (1 + d)) + 8 * \<eta> + (M + E) * d) + 4 * u * M + 2 * \<eta>"

lemma odd_err:
  assumes "near E M x y" and "cmod (to_c wA - to_c wX) \<le> d" and "cmod (to_c wX) = 1"
    and "0 \<le> E" "0 \<le> M" "E \<le> M" "M \<le> 2 ^ 110" "d \<le> 1"
  shows "cmod (to_c (c_mul A x wA) - to_c y * to_c wX) \<le> E + 6 * u * ((M + E) * (1 + d)) + 8 * \<eta> + (M + E) * d"
proof -
  have x: "cmod (to_c x) \<le> M + E" by (rule near_bound [OF assms(1)])
  have w: "cmod (to_c wA) \<le> 1 + d" using norm_triangle_sub [of "to_c wA" "to_c wX"] assms(2,3) by simp
  have xw: "cmod (to_c x) * cmod (to_c wA) \<le> (M + E) * (1 + d)"
    using x w assms(4,5) by (intro mult_mono) simp_all
  also have "(M + E) * (1 + d) \<le> (2 * M) * 2"
    using assms(4-8) order_trans [OF norm_ge_zero assms(2)] by (intro mult_mono) simp_all
  finally have small: "cmod (to_c x) * cmod (to_c wA) \<le> 2 ^ 118" using assms(7) by simp
  have m: "cmod (to_c (c_mul A x wA) - to_c x * to_c wA) \<le> 6 * u * ((M + E) * (1 + d)) + 8 * \<eta>"
    by (rule order_trans [OF c_mul_err [OF small] add_right_mono [OF mult_left_mono [OF xw]]]) (simp add: u_pos)
  have "to_c x * to_c wA - to_c y * to_c wX = to_c x * (to_c wA - to_c wX) + (to_c x - to_c y) * to_c wX"
    by (simp add: algebra_simps)
  then have "cmod (to_c x * to_c wA - to_c y * to_c wX) \<le> cmod (to_c x) * cmod (to_c wA - to_c wX) + cmod (to_c x - to_c y)"
    using norm_triangle_ineq [of "to_c x * (to_c wA - to_c wX)" "(to_c x - to_c y) * to_c wX"] assms(3)
    by (simp add: norm_mult)
  also have "cmod (to_c x) * cmod (to_c wA - to_c wX) \<le> (M + E) * d"
    using x assms(2,4,5) by (intro mult_mono) simp_all
  finally have "cmod (to_c x * to_c wA - to_c y * to_c wX) \<le> (M + E) * d + E"
    using assms(1) by (simp add: near_def)
  with m norm_triangle_ineq [of "to_c (c_mul A x wA) - to_c x * to_c wA" "to_c x * to_c wA - to_c y * to_c wX"]
  show ?thesis by simp
qed

text \<open>A rounded sum of two values near exact ones.\<close>

lemma sum_err:
  assumes "cmod (p - p') \<le> a" and "cmod (q - q') \<le> b" and "cmod p' \<le> M" "cmod q' \<le> M"
    and r: "cmod (p + q) \<le> 2 ^ 120 \<Longrightarrow> cmod (z - (p + q)) \<le> 2 * u * cmod (p + q) + 2 * \<eta>"
    and "M \<le> 2 ^ 110" "a + b \<le> 2 ^ 119"
  shows "cmod (z - (p' + q')) \<le> (1 + 2 * u) * (a + b) + 4 * u * M + 2 * \<eta>"
proof -
  have "p + q - (p' + q') = (p - p') + (q - q')" by simp
  with norm_triangle_ineq [of "p - p'" "q - q'"] assms(1,2)
  have d: "cmod (p + q - (p' + q')) \<le> a + b" by (metis add_mono order_trans)
  then have m: "cmod (p + q) \<le> 2 * M + (a + b)"
    using norm_triangle_sub [of "p + q" "p' + q'"] norm_triangle_ineq [of p' q'] assms(3,4) by linarith
  then have "cmod (p + q) \<le> 2 ^ 120" using assms(6,7) by simp
  from r [OF this] have "cmod (z - (p + q)) \<le> 2 * u * (2 * M + (a + b)) + 2 * \<eta>"
    using mult_left_mono [OF m, of "2 * u"] u_pos by simp
  with d norm_triangle_ineq [of "z - (p + q)" "p + q - (p' + q')"] show ?thesis
    by (simp add: algebra_simps)
qed

lemma butterfly_near:
  assumes x: "near E M x1 y1" "near E M x2 y2" and w: "cmod (to_c wA - to_c wX) \<le> d" "cmod (to_c wX) = 1"
    and s: "0 \<le> E" "0 \<le> M" "E \<le> M" "M \<le> 2 ^ 110" "d \<le> 1" and b: "step_bound E M d \<le> E'"
  shows "near E' (2 * M) (c_add A x1 (c_mul A x2 wA)) (c_add exact y1 (c_mul exact y2 wX))"
    and "near E' (2 * M) (c_sub A x1 (c_mul A x2 wA)) (c_sub exact y1 (c_mul exact y2 wX))"
proof -
  let ?o = "E + 6 * u * ((M + E) * (1 + d)) + 8 * \<eta> + (M + E) * d"
  let ?p = "to_c (c_mul A x2 wA)" and ?q = "to_c y2 * to_c wX"
  have o: "cmod (?p - ?q) \<le> ?o" by (rule odd_err [OF x(2) w s])
  have q: "cmod ?q \<le> M" using x(2) w(2) by (simp add: norm_mult near_def)
  have "0 \<le> d" using order_trans [OF norm_ge_zero w(1)] .
  have "(M + E) * (1 + d) \<le> (2 * M) * 2" using s \<open>0 \<le> d\<close> by (intro mult_mono) simp_all
  then have "u * ((M + E) * (1 + d)) \<le> 1 * ((2 * M) * 2)" using u_pos eta_u s \<open>0 \<le> d\<close> by (intro mult_mono) simp_all
  moreover have "(M + E) * d \<le> (2 * M) * 1" using s \<open>0 \<le> d\<close> by (intro mult_mono) simp_all
  ultimately have small: "E + ?o \<le> 2 ^ 119" using s eta_u by simp
  have y: "cmod (to_c x1 - to_c y1) \<le> E" "cmod (to_c y1) \<le> M" using x(1) by (simp_all add: near_def)
  have eq: "(1 + 2 * u) * (E + ?o) + 4 * u * M + 2 * \<eta> = step_bound E M d"
    unfolding step_bound_def by (simp add: algebra_simps)
  show "near E' (2 * M) (c_add A x1 (c_mul A x2 wA)) (c_add exact y1 (c_mul exact y2 wX))"
    using sum_err [OF y(1) o y(2) q c_add_err [of x1 "c_mul A x2 wA" cosf sinf hypotf] s(4) small] b norm_triangle_ineq [of "to_c y1" ?q] y(2) q
    unfolding near_def eq to_c_ops by simp
  have o': "cmod (- ?p - - ?q) \<le> ?o" and q': "cmod (- ?q) \<le> M" using o q by (simp_all add: norm_minus_commute)
  show "near E' (2 * M) (c_sub A x1 (c_mul A x2 wA)) (c_sub exact y1 (c_mul exact y2 wX))"
    using sum_err [OF y(1) o' y(2) q' _ s(4) small, of "to_c (c_sub A x1 (c_mul A x2 wA))"]
      c_sub_err [of x1 "c_mul A x2 wA" cosf sinf hypotf] b norm_triangle_ineq4 [of "to_c y1" ?q] y(2) q
    unfolding near_def eq to_c_ops by simp
qed

end

end
