(* ===== verification/Float_Pipeline.thy ===== *)
theory Float_Pipeline
  imports Float_Rounding
begin

text \<open>
  The rounded pipeline against the exact one: the butterflies of a block, the blocks of a stage and
  the stages of the transform run in step, each with a bound on the distance of the two runs; then
  the filter, the running sum of the detector and the whole of \<^verbatim>\<open>SignalProcessor::process\<close>. A stage
  at most doubles both the values and the relative error, which the drift of the twiddle factors
  dominates.
\<close>

section \<open>Rounded and exact runs side by side\<close>

lemma exact_simps [simp]:
  "f_add exact x y = x + y" "f_div exact x y = x / y" "f_mul exact x y = x * y" "f_less exact x y = (x < y)"
  by (simp_all add: exact_def)

text \<open>Two lists agree up to \<open>E'\<close> at the positions already treated and up to \<open>E\<close> at the others.\<close>

definition paired :: "(nat \<Rightarrow> bool) \<Rightarrow> real \<Rightarrow> real \<Rightarrow> real \<Rightarrow> real cplx list \<Rightarrow> real cplx list \<Rightarrow> bool" where
  "paired T E M E' xs ys \<longleftrightarrow> length ys = length xs
     \<and> (\<forall>p < length xs. if T p then near E' (2 * M) (xs ! p) (ys ! p) else near E M (xs ! p) (ys ! p))"

lemma paired_nth: "paired T E M E' xs ys \<Longrightarrow> p < length xs \<Longrightarrow> \<not> T p \<Longrightarrow> near E M (xs ! p) (ys ! p)"
  by (auto simp: paired_def)

lemma paired_update:
  assumes "paired T E M E' xs ys" and "near E' (2 * M) a a'" and "near E' (2 * M) b b'"
    and "\<And>p. T' p \<longleftrightarrow> T p \<or> p = i \<or> p = j"
  shows "paired T' E M E' (xs[i := a, j := b]) (ys[i := a', j := b'])"
  unfolding paired_def
proof (intro conjI allI impI)
  show "length (ys[i := a', j := b']) = length (xs[i := a, j := b])" using assms(1) by (simp add: paired_def)
  fix p assume "p < length (xs[i := a, j := b])"
  then show "if T' p then near E' (2 * M) (xs[i := a, j := b] ! p) (ys[i := a', j := b'] ! p)
      else near E M (xs[i := a, j := b] ! p) (ys[i := a', j := b'] ! p)"
    using assms by (cases "p = j"; cases "p = i") (simp_all add: paired_def)
qed

lemma butterfly_apply:
  "butterfly B l half base r (xs, w) =
     (xs[base + r := c_add B (xs ! (base + r)) (c_mul B (xs ! (base + r + half)) w),
         base + r + half := c_sub B (xs ! (base + r)) (c_mul B (xs ! (base + r + half)) w)], c_mul B w l)"
  by (simp add: butterfly_def Let_def)

definition treated :: "nat \<Rightarrow> nat \<Rightarrow> nat \<Rightarrow> nat \<Rightarrow> bool" where
  "treated half base r p \<longleftrightarrow> p < base \<or> (base \<le> p \<and> p < base + r) \<or> (base + half \<le> p \<and> p < base + half + r)"

context float_library
begin

lemma block_near:
  assumes len: "base + 2 * half \<le> length xs" and half: "0 < half" "2 * half \<le> 2 ^ 24"
    and start: "paired (\<lambda>p. p < base) E M E' xs ys"
    and s: "0 \<le> E" "0 \<le> M" "E \<le> M" "M \<le> 2 ^ 110" and d: "40 * u * real half \<le> 1 / 100"
    and bnd: "step_bound E M (40 * u * real half) \<le> E'"
  shows "paired (\<lambda>p. p < base + 2 * half) E M E'
    (block_pass A (twiddle A (2 * half)) (2 * half) base xs)
    (block_pass exact (twiddle exact (2 * half)) (2 * half) base ys)"
proof -
  let ?lA = "twiddle A (2 * half)" and ?lX = "twiddle exact (2 * half)"
  let ?R = "\<lambda>r xs' wA ys' wX. paired (treated half base r) E M E' xs' ys' \<and> length xs' = length xs
    \<and> cmod (to_c wA - to_c wX) \<le> 40 * u * real r \<and> cmod (to_c wX) = 1"
  have "\<exists>xs' wA ys' wX. fold (butterfly A ?lA half base) [0 ..< r] (xs, (f_of_nat A 1, f_of_nat A 0)) = (xs', wA)
      \<and> fold (butterfly exact ?lX half base) [0 ..< r] (ys, (f_of_nat exact 1, f_of_nat exact 0)) = (ys', wX)
      \<and> ?R r xs' wA ys' wX" if "r \<le> half" for r
    using that
  proof (induction r)
    case 0
    have "treated half base 0 = (\<lambda>p. p < base)" by (auto simp: treated_def fun_eq_iff)
    with start fl_nat [of 0] fl_nat [of 1] show ?case by simp
  next
    case (Suc r)
    then obtain xs' wA ys' wX where
      f: "fold (butterfly A ?lA half base) [0 ..< r] (xs, (f_of_nat A 1, f_of_nat A 0)) = (xs', wA)"
        "fold (butterfly exact ?lX half base) [0 ..< r] (ys, (f_of_nat exact 1, f_of_nat exact 0)) = (ys', wX)"
      and R: "?R r xs' wA ys' wX" by auto
    have r: "r < half" using Suc.prems by simp
    have drift: "40 * u * real r \<le> 40 * u * real half" using r u_pos by (intro mult_left_mono) simp_all
    have n1: "near E M (xs' ! (base + r)) (ys' ! (base + r))"
      and n2: "near E M (xs' ! (base + r + half)) (ys' ! (base + r + half))"
      using R r len by (auto intro!: paired_nth [of "treated half base r"] simp: treated_def)
    have w: "cmod (to_c wA - to_c wX) \<le> 40 * u * real half" "cmod (to_c wX) = 1"
      using R drift by linarith+
    have d1: "40 * u * real half \<le> 1" using d by simp
    note bf = butterfly_near [OF n1 n2 w s d1 bnd]
    have T: "treated half base (Suc r) p \<longleftrightarrow> treated half base r p \<or> p = base + r \<or> p = base + r + half" for p
      by (auto simp: treated_def)
    have "cmod (unit_root (2 * half)) = 1" by (simp add: unit_root_def)
    then have "cmod (to_c (c_mul A wA ?lA) - to_c wX * unit_root (2 * half)) \<le> 40 * u * real r + 40 * u"
      "cmod (to_c wX * unit_root (2 * half)) = 1"
      using power_step [OF _ _ _ twiddle_err [OF half], of wA "to_c wX" "40 * u * real r"] R drift d
      by (simp_all add: norm_mult)
    then have "?R (Suc r) (xs'[base + r := c_add A (xs' ! (base + r)) (c_mul A (xs' ! (base + r + half)) wA),
        base + r + half := c_sub A (xs' ! (base + r)) (c_mul A (xs' ! (base + r + half)) wA)])
      (c_mul A wA ?lA)
      (ys'[base + r := c_add exact (ys' ! (base + r)) (c_mul exact (ys' ! (base + r + half)) wX),
        base + r + half := c_sub exact (ys' ! (base + r)) (c_mul exact (ys' ! (base + r + half)) wX)])
      (c_mul exact wX ?lX)"
      using paired_update [OF _ bf T] R by (simp add: algebra_simps)
    with f show ?case by (simp add: butterfly_apply del: split_paired_Ex)
  qed
  from this [of half] obtain xs' wA ys' wX where
    "block_pass A ?lA (2 * half) base xs = xs'" "block_pass exact ?lX (2 * half) base ys = ys'"
    "paired (treated half base half) E M E' xs' ys'"
    by (auto simp: block_pass_def)
  moreover have "treated half base half = (\<lambda>p. p < base + 2 * half)" by (auto simp: treated_def fun_eq_iff)
  ultimately show ?thesis by simp
qed

lemma length_block_pass [simp]: "length (block_pass B w len base xs) = length xs"
proof -
  have "length (fst (fold (butterfly B w half base) ks (xs, v))) = length xs" for half ks v
    by (induction ks arbitrary: xs v) (simp_all add: butterfly_def Let_def)
  then show ?thesis by (simp add: block_pass_def)
qed

lemma length_stage [simp]: "length (stage B n len xs) = length xs"
proof -
  have "length (fold (\<lambda>b. block_pass B w len (b * len)) bs xs) = length xs" for w bs
    by (induction bs arbitrary: xs) simp_all
  then show ?thesis by (simp add: stage_def)
qed

lemma length_stage_loop [simp]: "length (stage_loop B n len xs) = length xs"
proof (induction B n len xs rule: stage_loop.induct)
  case (1 B n len xs)
  then show ?case by (subst stage_loop.simps) simp
qed

lemma stage_near:
  assumes len: "length xs = b * (2 * half)" and half: "0 < half" "2 * half \<le> 2 ^ 24"
    and start: "paired (\<lambda>p. False) E M E' xs ys"
    and s: "0 \<le> E" "0 \<le> M" "E \<le> M" "M \<le> 2 ^ 110" and d: "40 * u * real half \<le> 1 / 100"
    and bnd: "step_bound E M (40 * u * real half) \<le> E'"
  shows "paired (\<lambda>p. True) E M E' (stage A (length xs) (2 * half) xs) (stage exact (length xs) (2 * half) ys)"
proof -
  let ?f = "\<lambda>B r zs. fold (\<lambda>b. block_pass B (twiddle B (2 * half)) (2 * half) (b * (2 * half))) [0 ..< r] zs"
  have "paired (\<lambda>p. p < r * (2 * half)) E M E' (?f A r xs) (?f exact r ys) \<and> length (?f A r xs) = length xs"
    if "r \<le> b" for r
    using that
  proof (induction r)
    case (Suc r)
    have "Suc r * (2 * half) \<le> b * (2 * half)" using Suc.prems by (rule mult_le_mono1)
    then have "r * (2 * half) + 2 * half \<le> length (?f A r xs)" using Suc len by simp
    from block_near [OF this half _ s d bnd] Suc show ?case by (simp add: algebra_simps)
  qed (use start in simp)
  from this [of b] show ?thesis
    using half(1) len by (auto simp: stage_def paired_def)
qed

end

section \<open>The transform\<close>

lemma paired_all:
  "paired (\<lambda>p. False) E M E' xs ys \<longleftrightarrow> list_all2 (near E M) xs ys"
  "paired (\<lambda>p. True) E M E' xs ys \<longleftrightarrow> list_all2 (near E' (2 * M)) xs ys"
  by (auto simp: paired_def list_all2_conv_all_nth)

lemma near_mono: "near E M x y \<Longrightarrow> E \<le> E' \<Longrightarrow> near E' M x y"
  by (simp add: near_def)

context float_library
begin

text \<open>With a drift of \<open>X\<close> per stage the relative error at most doubles, and the values double.\<close>

lemma step_bound_doubles:
  assumes X: "40 * u \<le> X" "X \<le> 1 / 100" and N: "1 / 2 ^ 90 \<le> N"
  shows "step_bound (X * N) N X \<le> 4 * (X * N)"
proof -
  note e = eta_u u_pos eta_pos
  have N0: "0 \<le> N" using N by (rule order_trans [rotated]) simp
  have "\<eta> \<le> u * (1 / 2 ^ 100)" using eta_le by simp
  also have "\<dots> \<le> u * (N / 1000)" using N u_pos by (intro mult_left_mono) simp_all
  finally have eta: "\<eta> \<le> u * N / 1000" by simp
  have Y: "40 * (u * N) \<le> X * N" using mult_right_mono [OF X(1) N0] by simp
  have X0: "0 \<le> X" using X(1) u_pos by linarith
  have v: "0 \<le> u * N" "0 \<le> X * N" using N0 u_pos X0 by simp_all
  have XX: "X * (X * N) \<le> (X * N) / 100" using mult_right_mono [OF X(2) v(2)] by simp
  have XXX: "X * (u * N) \<le> (u * N) / 100" "X * (X * (u * N)) \<le> X * (u * N)"
    using mult_right_mono [OF X(2) v(1)] X(2) X0 v(1) by (simp_all add: mult_left_le_one_le)
  let ?S = "2 * (X * N) + 6 * u * ((N + X * N) * (1 + X)) + 8 * \<eta> + (N + X * N) * X"
  have "?S = 2 * (X * N) + 6 * (u * N + 2 * (X * (u * N)) + X * (X * (u * N))) + 8 * \<eta> + X * N + X * (X * N)"
    by (simp add: algebra_simps)
  also have "\<dots> \<le> 32 / 10 * (X * N)"
  proof -
    have "2 * y + 6 * (z + 2 * a + b) + 8 * h + y + c \<le> 32 / 10 * y"
      if "c \<le> y / 100" "a \<le> z / 100" "b \<le> a" "40 * z \<le> y" "h \<le> z / 1000" "0 \<le> z" for a b c y z h :: real
      using that by simp
    from this [OF XX XXX Y eta v(1)] show ?thesis .
  qed
  finally have S: "?S \<le> 32 / 10 * (X * N)" .
  have scaled: "(1 + 2 * u) * ?S \<le> (1 + 1 / 1000) * (32 / 10 * (X * N))"
  proof (rule mult_mono)
    show "0 \<le> ?S" using v X0 N0 e by simp
  qed (use S e in simp_all)
  have total: "p + 4 * z + 2 * h \<le> 4 * y"
    if "p \<le> (1 + 1 / 1000) * (32 / 10 * y)" "40 * z \<le> y" "h \<le> z / 1000" "0 \<le> z" for p y z h :: real
    using that by simp
  from total [OF scaled Y eta v(1)] show ?thesis
    unfolding step_bound_def by (simp only: mult.assoc)
qed

lemma stage_loop_near:
  assumes "list_all2 (near (40 * u * 2 ^ s * (2 ^ s * M)) (2 ^ s * M)) xs ys"
    and "length xs = 2 ^ m" and "s \<le> m" and "m \<le> 12" and M: "1 / 2 ^ 90 \<le> M" "M \<le> 2 ^ 90"
  shows "list_all2 (near (40 * u * 2 ^ m * (2 ^ m * M)) (2 ^ m * M))
    (stage_loop A (2 ^ m) (2 ^ Suc s) xs) (stage_loop exact (2 ^ m) (2 ^ Suc s) ys)"
  using assms
proof (induction "m - s" arbitrary: s xs ys)
  case 0
  then have "\<not> (2::nat) ^ Suc s \<le> 2 ^ m" by simp
  with 0 show ?case by (simp add: stage_loop.simps [of _ "2 ^ s"])
next
  case (Suc k)
  then have sm: "s < m" by simp
  let ?X = "40 * u * 2 ^ s" and ?N = "2 ^ s * M"
  have "(2::real) ^ s \<le> 2 ^ 11" using sm Suc.prems(4) by (intro power_increasing) simp_all
  then have pow: "(2::nat) ^ Suc s \<le> 2 ^ m" "(2::real) ^ s \<le> 2 ^ 11" "1 \<le> (2::real) ^ s"
    using sm by (simp_all add: power_increasing del: power_Suc)
  have "(2::nat) ^ Suc s \<le> 2 ^ 24" using sm Suc.prems(4) by (intro power_increasing) simp_all
  then have half: "2 * 2 ^ s \<le> (2::nat) ^ 24" by simp
  have X: "40 * u \<le> ?X" "?X \<le> 1 / 100"
    using pow(2,3) u_pos u_le mult_mono [OF u_le pow(2)] mult_left_mono [OF pow(3) u_pos] by simp_all
  have M0: "0 \<le> M" using M(1) by (rule order_trans [rotated]) simp
  have "M \<le> ?N" using mult_right_mono [OF pow(3) M0] by simp
  with M(1) have N1: "1 / 2 ^ 90 \<le> ?N" by (rule order_trans)
  have N: "?N \<le> 2 ^ 110" "0 \<le> ?N" using mult_mono [OF pow(2) M(2)] M0 by simp_all
  have "?X * ?N \<le> ?N" using X(2) N(2) X(1) u_pos by (intro mult_left_le_one_le) simp_all
  have n: "length xs = 2 ^ (m - Suc s) * (2 * 2 ^ s)"
    using Suc.prems(2) sm by (simp flip: power_add power_Suc)
  have "list_all2 (near (4 * (?X * ?N)) (2 * ?N)) (stage A (2 ^ m) (2 * 2 ^ s) xs) (stage exact (2 ^ m) (2 * 2 ^ s) ys)"
    using stage_near [OF n _ half _ _ N(2) \<open>?X * ?N \<le> ?N\<close> N(1), of "4 * (?X * ?N)" ys]
      step_bound_doubles [OF X N1] Suc.prems X pow u_pos N(2)
    by (simp add: paired_all)
  moreover have "length (stage A (2 ^ m) (2 * 2 ^ s) xs) = 2 ^ m"
    using Suc.prems(2) by simp
  ultimately show ?case
    using Suc.hyps(1) [of "Suc s" "stage A (2 ^ m) (2 * 2 ^ s) xs"] Suc.hyps(2) Suc.prems sm pow(1)
    by (simp add: stage_loop.simps [of _ "2 ^ m" "2 * 2 ^ s"] algebra_simps)
qed

end

context float_library
begin

text \<open>The absolute error of a rounding is negligible against a relative one of data of size \<open>M\<close>.\<close>

lemma eta_data:
  assumes "1 / 2 ^ 90 \<le> M"
  shows "\<eta> \<le> u * M / 1000"
proof -
  have "\<eta> \<le> u * (1 / 2 ^ 100)" using eta_le by simp
  also have "\<dots> \<le> u * (M / 1000)" using assms u_pos by (intro mult_left_mono) simp_all
  finally show ?thesis by simp
qed

lemma magnitude_err:
  assumes "near E N z y" and "0 \<le> E" "E \<le> N / 50" and N: "1 / 2 ^ 90 \<le> N" "N \<le> 2 ^ 110"
  shows "\<bar>hypotf (fst z) (snd z) - cmod (to_c y)\<bar> \<le> E + 3 * (u * N)"
proof -
  have h: "sqrt ((fst z)\<^sup>2 + (snd z)\<^sup>2) = cmod (to_c z)" by (simp add: to_c_def cmod_def)
  have z: "cmod (to_c z) \<le> N + N / 50" using near_bound [OF assms(1)] assms(3) by simp
  have "cmod (to_c z) \<le> 2 ^ 120" using z N(2) by simp
  with hypotf_err [of "fst z" "snd z"]
  have "\<bar>hypotf (fst z) (snd z) - cmod (to_c z)\<bar> \<le> 2 * u * cmod (to_c z) + \<eta>" by (simp only: h)
  also have "\<dots> \<le> 2 * u * (N + N / 50) + u * N / 1000"
    using z u_pos eta_data [OF N(1)] by (intro add_mono mult_left_mono) simp_all
  also have "\<dots> = (2041 / 1000) * (u * N)" by (simp add: algebra_simps)
  finally have "\<bar>hypotf (fst z) (snd z) - cmod (to_c z)\<bar> \<le> (2041 / 1000) * (u * N)" .
  moreover have "\<bar>cmod (to_c z) - cmod (to_c y)\<bar> \<le> E"
    using norm_triangle_ineq3 [of "to_c z" "to_c y"] assms(1) by (simp add: near_def)
  moreover have "0 \<le> u * N" using u_pos order_trans [OF _ N(1)] by simp
  ultimately show ?thesis by linarith
qed

text \<open>The final division by the size of the transform.\<close>

lemma normalised_err:
  assumes h: "\<bar>h - c\<bar> \<le> 40 * u * n * (n * M) + 3 * (u * (n * M))" and c: "0 \<le> c" "c \<le> n * M"
    and n: "1 \<le> n" "40 * u * n \<le> 1 / 50" and M: "1 / 2 ^ 90 \<le> M" "M \<le> 2 ^ 90"
  shows "\<bar>fl (h / n) - c / n\<bar> \<le> 45 * (n * (u * M))"
proof -
  have M0: "0 \<le> M" using M(1) by (rule order_trans [rotated]) simp
  have "\<bar>h / n - c / n\<bar> = \<bar>h - c\<bar> / n" using n(1) by (simp flip: diff_divide_distrib)
  also have "\<dots> \<le> (40 * u * n * (n * M) + 3 * (u * (n * M))) / n" using h n(1) by (intro divide_right_mono) simp_all
  also have "\<dots> = 40 * (n * (u * M)) + 3 * (u * M)" using n(1) by (simp add: field_simps)
  finally have q: "\<bar>h / n - c / n\<bar> \<le> 40 * (n * (u * M)) + 3 * (u * M)" .
  have v: "0 \<le> u * M" "u * M \<le> M / 1000" using u_pos M0 mult_right_mono [OF eta_u(2) M0] by simp_all
  have nv: "u * M \<le> n * (u * M)" using mult_right_mono [OF n(1) v(1)] by simp
  have "40 * (n * (u * M)) \<le> M / 50" using mult_right_mono [OF n(2) M0] by (simp add: ac_simps)
  moreover have "0 \<le> c / n" "c / n \<le> M" using c n(1) by (simp_all add: field_simps)
  ultimately have "\<bar>h / n\<bar> \<le> (11 / 10) * M" using q v by linarith
  from fl_near [OF q this] have "\<bar>fl (h / n) - c / n\<bar> \<le> 40 * (n * (u * M)) + 3 * (u * M) + u * ((11 / 10) * M) + \<eta>"
    using M(2) by simp
  also have "u * ((11 / 10) * M) = (11 / 10) * (u * M)" by simp
  finally show ?thesis using eta_data [OF M(1)] nv v(1) by linarith
qed

lemma fft_n_near:
  assumes len: "length samples = 2 ^ m" and m: "m \<le> 12" and i: "i < 2 ^ m div 2"
    and bnd: "\<forall>x \<in> set samples. \<bar>x\<bar> \<le> M" and M: "1 / 2 ^ 90 \<le> M" "M \<le> 2 ^ 90"
  shows "\<bar>fft_n A (2 ^ m) samples ! i - fft_n exact (2 ^ m) samples ! i\<bar> \<le> 45 * (2 ^ m * (u * M))"
proof -
  let ?xs = "map (\<lambda>i. (samples ! i, 0)) [0 ..< 2 ^ m] :: real cplx list"
  let ?n = "2 ^ m :: real" and ?k = "2 ^ m :: nat"
  have M0: "0 \<le> M" using M(1) by (rule order_trans [rotated]) simp
  have p: "(2::real) ^ m \<le> 2 ^ 12" "(2::nat) ^ m \<le> 2 ^ 24" using m by (simp_all only: power_increasing)
  then have n: "?n \<le> 4096" "1 \<le> ?n" "fl ?n = ?n" using fl_nat [of ?k] by simp_all
  have "list_all2 (near (40 * u * 2 ^ 0 * (2 ^ 0 * M)) (2 ^ 0 * M)) (bit_reversal ?k ?xs) (bit_reversal ?k ?xs)"
    using bit_reversal_nth(1) [of ?xs m] bit_reversal_nth(2) [of ?xs m 0] rev_bits_less [of m] bnd len M0 u_pos
    by (simp add: list_all2_conv_all_nth near_def)
  from stage_loop_near [OF this _ _ m M] bit_reversal_nth(2) [of ?xs m 0]
  have all: "list_all2 (near (40 * u * ?n * (?n * M)) (?n * M)) (stage_loop A ?k 2 (bit_reversal ?k ?xs))
      (stage_loop exact ?k 2 (bit_reversal ?k ?xs))" by simp
  let ?z = "stage_loop A ?k 2 (bit_reversal ?k ?xs) ! i" and ?y = "stage_loop exact ?k 2 (bit_reversal ?k ?xs) ! i"
  have "i < length (stage_loop A ?k 2 (bit_reversal ?k ?xs))"
    using bit_reversal_nth(2) [of ?xs m 0] i by simp
  with all have near: "near (40 * u * ?n * (?n * M)) (?n * M) ?z ?y" by (simp add: list_all2_conv_all_nth)
  have "40 * u * ?n \<le> 40 * (1 / 2 ^ 24) * 4096" using u_le u_pos n by (intro mult_mono) simp_all
  then have e: "40 * u * ?n \<le> 1 / 50" by simp
  have E: "0 \<le> 40 * u * ?n * (?n * M)" "40 * u * ?n * (?n * M) \<le> ?n * M / 50"
    using mult_right_mono [OF e, of "?n * M"] M0 u_pos by simp_all
  have "M \<le> ?n * M" using mult_right_mono [OF n(2) M0] by simp
  with M(1) have N1: "1 / 2 ^ 90 \<le> ?n * M" by (rule order_trans)
  have N2: "?n * M \<le> 2 ^ 110" using mult_mono [OF n(1) M(2)] M0 by simp
  have "\<bar>fl (hypotf (fst ?z) (snd ?z) / ?n) - cmod (to_c ?y) / ?n\<bar> \<le> 45 * (?n * (u * M))"
    using near by (intro normalised_err magnitude_err [OF near E N1 N2] n(2) e M) (simp_all add: near_def)
  moreover have "fft_n A ?k samples ! i = fl (hypotf (fst ?z) (snd ?z) / ?n)"
    using i n(3) fl_nat [of 0] by (simp add: fft_n_def Let_def c_abs_def)
  moreover have "fft_n exact ?k samples ! i = cmod (to_c ?y) / ?n"
    using i by (simp add: fft_n_def Let_def)
  ultimately show ?thesis by simp
qed

end

section \<open>The filter and the detector\<close>

lemma fold_max_near:
  assumes "list_all2 (\<lambda>x y. \<bar>x - y\<bar> \<le> D) xs ys" and "\<bar>p - q\<bar> \<le> D"
  shows "\<bar>fold max xs p - fold max ys q\<bar> \<le> (D :: real)"
  using assms by (induction arbitrary: p q) (simp_all add: max_def)

lemma filter_exact_bound:
  assumes i: "i < length xs" and bnd: "\<forall>x \<in> set xs. \<bar>x\<bar> \<le> M"
  shows "\<bar>filter_at exact xs i\<bar> \<le> M"
proof -
  have x: "\<bar>xs ! j\<bar> \<le> M" if "j < length xs" for j using bnd that by simp
  have mean2: "\<bar>(a + b) / 2\<bar> \<le> M" if "\<bar>a\<bar> \<le> M" "\<bar>b\<bar> \<le> M" for a b :: real
    using that by (simp add: abs_le_iff)
  have mean3: "\<bar>(a + b + c) / 3\<bar> \<le> M" if "\<bar>a\<bar> \<le> M" "\<bar>b\<bar> \<le> M" "\<bar>c\<bar> \<le> M" for a b c :: real
    using that by (simp add: abs_le_iff)
  show ?thesis
    using x [OF i] i mean2 [OF x [OF i] x [of "i - 1"]] mean2 [OF x [OF i] x [of "i + 1"]]
      mean3 [OF x [OF i] x [of "i - 1"] x [of "i + 1"]]
    by (cases i) (simp_all add: filter_at_def Let_def)
qed

context float_library
begin

lemma filter_at_near:
  assumes i: "i < length xs" and bnd: "\<forall>x \<in> set xs. \<bar>x\<bar> \<le> M" and M: "1 / 2 ^ 90 \<le> M" "M \<le> 2 ^ 90"
  shows "\<bar>filter_at A xs i - filter_at exact xs i\<bar> \<le> 3 * (u * M)"
proof -
  have M0: "0 \<le> M" using M(1) by (rule order_trans [rotated]) simp
  note e = eta_data [OF M(1)]
  have v: "0 \<le> u * M" "u * M \<le> M / 1000" using u_pos M0 mult_right_mono [OF eta_u(2) M0] by simp_all
  have c: "fl 1 = 1" "fl 2 = 2" "fl 3 = 3" using fl_nat [of 1] fl_nat [of 2] fl_nat [of 3] by simp_all
  have x: "\<bar>xs ! j\<bar> \<le> M" if "j < length xs" for j using bnd that by simp
  have two: "\<bar>fl (a + b) - (a + b)\<bar> \<le> (2001 / 1000) * (u * M)" if "\<bar>a\<bar> \<le> M" "\<bar>b\<bar> \<le> M" for a b
  proof -
    have "\<bar>a + b\<bar> \<le> 2 * M" using that by linarith
    with fl_near [of "a + b" "a + b" 0 "2 * M"] M(2) have "\<bar>fl (a + b) - (a + b)\<bar> \<le> u * (2 * M) + \<eta>" by simp
    also have "u * (2 * M) = 2 * (u * M)" by simp
    finally show ?thesis using e by linarith
  qed
  have pair: "\<bar>fl (a + b) - (a + b)\<bar> \<le> 2 * (187 / 100 * (u * M))" if "\<bar>a\<bar> \<le> M" "\<bar>b\<bar> \<le> M" for a b
    using two [OF that] v(1) by linarith
  have last: "\<bar>fl (s / k) - t / k\<bar> \<le> 3 * (u * M)"
    if "\<bar>s - t\<bar> \<le> k * (187 / 100 * (u * M))" "\<bar>t\<bar> \<le> k * M" "0 < k" for s t k
  proof -
    have "\<bar>s / k - t / k\<bar> = \<bar>s - t\<bar> / k" using that(3) by (simp flip: diff_divide_distrib)
    also have "\<dots> \<le> 187 / 100 * (u * M)" using that(1,3) by (simp add: divide_le_eq mult.commute)
    finally have q: "\<bar>s / k - t / k\<bar> \<le> 187 / 100 * (u * M)" .
    have "\<bar>t / k\<bar> \<le> M" using that(2,3) by (simp add: divide_le_eq mult.commute)
    then have "\<bar>s / k\<bar> \<le> 11 / 10 * M" using q v by linarith
    from fl_near [OF q this] have "\<bar>fl (s / k) - t / k\<bar> \<le> 187 / 100 * (u * M) + u * (11 / 10 * M) + \<eta>"
      using M(2) by simp
    also have "u * (11 / 10 * M) = 11 / 10 * (u * M)" by simp
    finally show ?thesis using e v by linarith
  qed
  have mean2: "\<bar>fl (fl (a + b) / 2) - (a + b) / 2\<bar> \<le> 3 * (u * M)" if "\<bar>a\<bar> \<le> M" "\<bar>b\<bar> \<le> M" for a b
    by (rule last [OF pair [OF that]]) (use that in linarith)+
  consider "0 < i" "i + 1 < length xs" | "0 < i" "\<not> i + 1 < length xs" | "i = 0" "i + 1 < length xs" | "i = 0" "\<not> i + 1 < length xs"
    by blast
  then show ?thesis
  proof cases
    case 1
    let ?a = "xs ! i" and ?b = "xs ! (i - 1)" and ?c = "xs ! (i + 1)"
    have abc: "\<bar>?a\<bar> \<le> M" "\<bar>?b\<bar> \<le> M" "\<bar>?c\<bar> \<le> M" using x i 1 by simp_all
    have d: "\<bar>fl (?a + ?b) + ?c - (?a + ?b + ?c)\<bar> \<le> (2001 / 1000) * (u * M)"
      using two [OF abc(1,2)] by simp
    then have m: "\<bar>fl (?a + ?b) + ?c\<bar> \<le> (31 / 10) * M" using abc v by linarith
    from fl_near [OF d m] have "\<bar>fl (fl (?a + ?b) + ?c) - (?a + ?b + ?c)\<bar> \<le> (2001 / 1000) * (u * M) + u * ((31 / 10) * M) + \<eta>"
      using M(2) by simp
    also have "u * ((31 / 10) * M) = (31 / 10) * (u * M)" by simp
    finally have "\<bar>fl (fl (?a + ?b) + ?c) - (?a + ?b + ?c)\<bar> \<le> 3 * (187 / 100 * (u * M))" using e v by linarith
    from last [OF this] abc 1 c show ?thesis by (simp add: filter_at_def Let_def)
  next
    case 2
    from mean2 [OF x [of i] x [of "i - 1"]] i 2 c show ?thesis by (simp add: filter_at_def Let_def)
  next
    case 3
    from mean2 [OF x [of i] x [of "i + 1"]] i 3 c show ?thesis by (simp add: filter_at_def Let_def)
  next
    case 4
    from last [of "xs ! i" "xs ! i" 1] x [OF i] v 4 c show ?thesis by (simp add: filter_at_def Let_def)
  qed
qed

lemma detect_fold_ieee: "fold (detect_step A) sp (p, s) = (fold max sp p, fold (\<lambda>x s. fl (s + x)) sp s)"
  by (induction sp arbitrary: p s) (auto simp: detect_step_def max_def)

lemma rounded_sum_list:
  assumes "\<forall>x \<in> set xs. \<bar>x\<bar> \<le> K" and "j + length xs \<le> 128" and "\<bar>s' - s\<bar> \<le> real j * (140 * (u * K))"
    and "\<bar>s\<bar> \<le> real j * K" and K: "1 / 2 ^ 90 \<le> K" "K \<le> 2 ^ 100"
  shows "\<bar>fold (\<lambda>x s. fl (s + x)) xs s' - (s + sum_list xs)\<bar> \<le> real (j + length xs) * (140 * (u * K))"
  using assms(1-4)
proof (induction xs arbitrary: j s s')
  case (Cons x xs)
  have K0: "0 \<le> K" using K(1) by (rule order_trans [rotated]) simp
  have v: "0 \<le> u * K" "u * K \<le> K / 1000000" using u_pos K0 mult_right_mono [OF eta_u(2) K0] by simp_all
  have j: "real j \<le> 127" using Cons.prems(2) by simp
  have d: "\<bar>s' + x - (s + x)\<bar> \<le> real j * (140 * (u * K))" using Cons.prems(3) by simp
  have "real j * (140 * (u * K)) \<le> 127 * (140 * (u * K))" "real j * K \<le> 127 * K"
    using j v(1) K0 by (intro mult_right_mono; simp)+
  moreover have x: "\<bar>x\<bar> \<le> K" using Cons.prems(1) by simp
  ultimately have "\<bar>s' + x\<bar> \<le> 130 * K" using d Cons.prems(4) v by linarith
  from fl_near [OF d this] have "\<bar>fl (s' + x) - (s + x)\<bar> \<le> real j * (140 * (u * K)) + u * (130 * K) + \<eta>"
    using K(2) by simp
  also have "\<dots> \<le> real (Suc j) * (140 * (u * K))"
    using eta_data [OF K(1)] v by (simp add: algebra_simps)
  finally have "\<bar>fl (s' + x) - (s + x)\<bar> \<le> real (Suc j) * (140 * (u * K))" .
  moreover have "\<bar>s + x\<bar> \<le> real (Suc j) * K"
    using abs_triangle_ineq [of s x] Cons.prems(4) x by (simp add: algebra_simps)
  ultimately show ?case
    using Cons.IH [of "Suc j" "fl (s' + x)" "s + x"] Cons.prems(1,2) by (simp add: add.assoc)
qed simp

end

lemma sum_list_near:
  assumes "list_all2 (\<lambda>x y. \<bar>x - y\<bar> \<le> D) xs ys"
  shows "\<bar>sum_list xs - sum_list ys\<bar> \<le> real (length xs) * (D :: real)"
  using assms by (induction) (auto simp: algebra_simps)

lemma sum_list_bound:
  assumes "\<forall>x \<in> set xs. \<bar>x\<bar> \<le> K"
  shows "\<bar>sum_list xs\<bar> \<le> real (length xs) * (K :: real)"
  using assms by (induction xs) (auto simp: algebra_simps)

context float_library
begin

text \<open>The rounded threshold of a spectrum of 128 values.\<close>

lemma threshold_near:
  assumes len: "length xs = 128" and bnd: "\<forall>x \<in> set xs. \<bar>x\<bar> \<le> K" and K: "1 / 2 ^ 90 \<le> K" "K \<le> 2 ^ 100"
  shows "\<bar>fl (4 * fl (fold (\<lambda>x s. fl (s + x)) xs 0 / 128)) - 4 * (sum_list xs / 128)\<bar> \<le> 580 * (u * K)"
proof -
  let ?s = "fold (\<lambda>x s. fl (s + x)) xs 0" and ?m = "sum_list xs / 128"
  have K0: "0 \<le> K" using K(1) by (rule order_trans [rotated]) simp
  have v: "0 \<le> u * K" "u * K \<le> K / 1000000" using u_pos K0 mult_right_mono [OF eta_u(2) K0] by simp_all
  note e = eta_data [OF K(1)]
  have "\<bar>?s - sum_list xs\<bar> \<le> 128 * (140 * (u * K))"
    using rounded_sum_list [OF bnd, of 0 0 0] len K K0 by simp
  then have d: "\<bar>?s / 128 - ?m\<bar> \<le> 140 * (u * K)" by simp
  have m: "\<bar>?m\<bar> \<le> K" using sum_list_bound [OF bnd] len by simp
  have "\<bar>?s / 128\<bar> \<le> 2 * K" using d m v by linarith
  from fl_near [OF d this] have "\<bar>fl (?s / 128) - ?m\<bar> \<le> 140 * (u * K) + u * (2 * K) + \<eta>" using K(2) by simp
  also have "u * (2 * K) = 2 * (u * K)" by simp
  finally have a: "\<bar>fl (?s / 128) - ?m\<bar> \<le> (1421 / 10) * (u * K)" using e v by linarith
  then have b: "\<bar>4 * fl (?s / 128) - 4 * ?m\<bar> \<le> (5684 / 10) * (u * K)" by linarith
  have "\<bar>4 * fl (?s / 128)\<bar> \<le> 5 * K" using a m v by linarith
  from fl_near [OF b this] have "\<bar>fl (4 * fl (?s / 128)) - 4 * ?m\<bar> \<le> (5684 / 10) * (u * K) + u * (5 * K) + \<eta>"
    using K(2) by simp
  also have "u * (5 * K) = 5 * (u * K)" by simp
  finally show ?thesis using e v by linarith
qed

lemma detection_near:
  assumes near: "list_all2 (\<lambda>x y. \<bar>x - y\<bar> \<le> D) xs ys" and len: "length xs = 128" and D: "0 \<le> D"
    and bnd: "\<forall>x \<in> set xs. \<bar>x\<bar> \<le> K" and K: "1 / 2 ^ 90 \<le> K" "K \<le> 2 ^ 100"
  shows "\<bar>snd (target_detection A xs) - snd (target_detection exact ys)\<bar> \<le> D"
    and "5 * D + 580 * (u * K) < \<bar>snd (target_detection exact ys) - 4 * (sum_list ys / 128)\<bar>
      \<Longrightarrow> fst (target_detection A xs) = fst (target_detection exact ys)"
proof -
  let ?p = "fold max xs 0" and ?q = "fold max ys 0" and ?t = "fl (4 * fl (fold (\<lambda>x s. fl (s + x)) xs 0 / 128))"
  have ylen: "length ys = 128" using near len by (simp add: list_all2_lengthD)
  have "fl 128 = 128" "fl 4 = 4" "fl 0 = 0" using fl_nat [of 128] fl_nat [of 4] fl_nat [of 0] by simp_all
  then have A: "target_detection A xs = (?t < ?p, ?p)"
    using len by (simp add: target_detection_def detect_fold_ieee)
  have X: "target_detection exact ys = (4 * (sum_list ys / 128) < ?q, ?q)"
    using ylen by (simp add: target_detection_def detect_fold)
  have pq: "\<bar>?p - ?q\<bar> \<le> D" using fold_max_near [OF near, of 0 0] D by simp
  then show "\<bar>snd (target_detection A xs) - snd (target_detection exact ys)\<bar> \<le> D" by (simp add: A X)
  have "\<bar>sum_list xs - sum_list ys\<bar> \<le> 128 * D" using sum_list_near [OF near] len by simp
  then have "\<bar>?t - 4 * (sum_list ys / 128)\<bar> \<le> 580 * (u * K) + 4 * D"
    using threshold_near [OF len bnd K] by simp
  then show "fst (target_detection A xs) = fst (target_detection exact ys)"
    if "5 * D + 580 * (u * K) < \<bar>snd (target_detection exact ys) - 4 * (sum_list ys / 128)\<bar>"
    using that pq unfolding A X fst_conv snd_conv by linarith
qed

text \<open>The exact transform: its values are bounded by the input and move no more than the input.\<close>

lemma fft_256:
  assumes "length xs = 256" and "i < 128"
  shows "fft exact xs ! i = cmod (\<Sum>t < 256. of_real (xs ! t) * cis (- 2 * pi * real i * real t / 256)) / 256"
  using fft_n_dft [of xs 8 i] assms by (simp add: fft_def kRadarSampleCount_def)

lemma fft_exact_near:
  assumes len: "length xs = 256" "length ys = 256" and near: "\<And>t. t < 256 \<Longrightarrow> \<bar>xs ! t - ys ! t\<bar> \<le> d" and i: "i < 128"
  shows "\<bar>fft exact xs ! i - fft exact ys ! i\<bar> \<le> d"
proof -
  let ?w = "\<lambda>t. cis (- 2 * pi * real i * real t / 256)"
  let ?S = "\<lambda>zs. \<Sum>t < 256. of_real (zs ! t) * ?w t"
  have "?S xs - ?S ys = (\<Sum>t < 256. of_real (xs ! t - ys ! t) * ?w t)"
    by (simp add: sum_subtractf algebra_simps)
  then have "cmod (?S xs - ?S ys) = cmod (\<Sum>t < 256. of_real (xs ! t - ys ! t) * ?w t)" by (simp only:)
  also have "\<dots> \<le> (\<Sum>t < 256. cmod (of_real (xs ! t - ys ! t) * ?w t))" by (rule norm_sum)
  also have "\<dots> = (\<Sum>t < 256. \<bar>xs ! t - ys ! t\<bar>)" by (simp only: norm_mult norm_of_real norm_cis mult_1_right)
  also have "\<dots> \<le> (\<Sum>t < (256::nat). d)" using near by (intro sum_mono) simp
  finally have "cmod (?S xs - ?S ys) \<le> 256 * d" by simp
  moreover have "\<bar>cmod (?S xs) - cmod (?S ys)\<bar> \<le> cmod (?S xs - ?S ys)" by (rule norm_triangle_ineq3)
  ultimately have "\<bar>cmod (?S xs) - cmod (?S ys)\<bar> \<le> 256 * d" by linarith
  moreover have "\<bar>a / 256 - b / 256\<bar> \<le> d" if "\<bar>a - b\<bar> \<le> 256 * d" for a b :: real using that by linarith
  ultimately show ?thesis unfolding fft_256 [OF len(1) i] fft_256 [OF len(2) i] by blast
qed

lemma fft_exact_bound:
  assumes "length xs = 256" and "\<forall>x \<in> set xs. \<bar>x\<bar> \<le> M" and "i < 128"
  shows "\<bar>fft exact xs ! i\<bar> \<le> M"
  using fft_exact_near [of xs "replicate 256 0" M i] assms fft_256 [of "replicate 256 0" i] by simp

text \<open>The whole pipeline against the exact one, for a block of samples of size at most \<open>M\<close>.\<close>

lemma spectrum_near:
  assumes len: "length samples = 256" and bnd: "\<forall>x \<in> set samples. \<bar>x\<bar> \<le> M"
    and M: "1 / 2 ^ 90 \<le> M" "M \<le> 2 ^ 80" and i: "i < 128"
  shows "\<bar>fft A (noise_filter A samples) ! i - fft exact (noise_filter exact samples) ! i\<bar> \<le> 11600 * (u * M)"
    and "\<bar>fft A (noise_filter A samples) ! i\<bar> \<le> 11 / 10 * M"
proof -
  let ?f = "noise_filter A samples" and ?g = "noise_filter exact samples" and ?M = "(1001 / 1000) * M"
  have M0: "0 \<le> M" using M(1) by (rule order_trans [rotated]) simp
  have v: "0 \<le> u * M" "u * M \<le> M / 1000000" using u_pos M0 mult_right_mono [OF eta_u(2) M0] by simp_all
  have fg: "\<bar>?f ! t - ?g ! t\<bar> \<le> 3 * (u * M)" if "t < 256" for t
    using filter_at_near [of t samples M] that len bnd M by (simp add: noise_filter_def)
  have g: "\<bar>?g ! t\<bar> \<le> M" if "t < 256" for t
    using filter_exact_bound [of t samples M] that len bnd by (simp add: noise_filter_def)
  have f: "\<forall>x \<in> set ?f. \<bar>x\<bar> \<le> ?M"
  proof
    fix x assume "x \<in> set ?f"
    then obtain t where t: "t < 256" "x = ?f ! t" using len by (auto simp: in_set_conv_nth)
    from fg [OF t(1)] g [OF t(1)] t(2) v show "\<bar>x\<bar> \<le> ?M" by linarith
  qed
  have M': "1 / 2 ^ 90 \<le> ?M" "?M \<le> 2 ^ 90" using M M0 by (linarith, simp)
  have "\<bar>fft A ?f ! i - fft exact ?f ! i\<bar> \<le> 45 * (2 ^ 8 * (u * ?M))"
    using fft_n_near [of ?f 8 i ?M] len i f M' by (simp add: fft_def kRadarSampleCount_def)
  also have "2 ^ 8 * (u * ?M) = 256 * (1001 / 1000 * (u * M))" by simp
  finally have a: "\<bar>fft A ?f ! i - fft exact ?f ! i\<bar> \<le> 11532 * (u * M)" using v(1) by linarith
  have b: "\<bar>fft exact ?f ! i - fft exact ?g ! i\<bar> \<le> 3 * (u * M)"
    using fft_exact_near [OF _ _ fg i] len by simp
  from a b v show "\<bar>fft A ?f ! i - fft exact ?g ! i\<bar> \<le> 11600 * (u * M)" by linarith
  from a v fft_exact_bound [OF _ f i] len show "\<bar>fft A ?f ! i\<bar> \<le> 11 / 10 * M" by simp
qed

lemma process_near:
  assumes len: "length (sig_samples sig) = kRadarSampleCount" and bnd: "\<forall>x \<in> set (sig_samples sig). \<bar>x\<bar> \<le> M"
    and M: "1 / 2 ^ 90 \<le> M" "M \<le> 2 ^ 80"
  defines "sp \<equiv> fft exact (noise_filter exact (sig_samples sig))"
  shows "\<bar>ps_peakMagnitude (process A sig) - ps_peakMagnitude (process exact sig)\<bar> \<le> 2 ^ 14 * u * M"
    and "2 ^ 16 * u * M < \<bar>ps_peakMagnitude (process exact sig) - 4 * (sum_list sp / 128)\<bar>
      \<Longrightarrow> ps_targetDetected (process A sig) = ps_targetDetected (process exact sig)"
proof -
  let ?xs = "fft A (noise_filter A (sig_samples sig))"
  have len': "length (sig_samples sig) = 256" using len by (simp add: kRadarSampleCount_def)
  have l: "length ?xs = 128" "length sp = 128" by (simp_all add: sp_def fft_def kRadarSampleCount_def)
  have M0: "0 \<le> M" using M(1) by (rule order_trans [rotated]) simp
  have v: "0 \<le> u * M" using u_pos M0 by simp
  note near = spectrum_near [OF len' bnd M]
  have all: "list_all2 (\<lambda>x y. \<bar>x - y\<bar> \<le> 11600 * (u * M)) ?xs sp"
    using near(1) l by (simp add: list_all2_conv_all_nth sp_def)
  have b: "\<forall>x \<in> set ?xs. \<bar>x\<bar> \<le> 11 / 10 * M" using near(2) l by (auto simp: in_set_conv_nth)
  have K: "1 / 2 ^ 90 \<le> 11 / 10 * M" "11 / 10 * M \<le> 2 ^ 100" using M M0 by (linarith, simp)
  have p: "ps_peakMagnitude (process B sig) = snd (target_detection B (fft B (noise_filter B (sig_samples sig))))"
    "ps_targetDetected (process B sig) = fst (target_detection B (fft B (noise_filter B (sig_samples sig))))" for B
    by (simp_all add: process_def ProcessedSignal_def Let_def split: prod.splits)
  note det = detection_near [OF all l(1) _ b K]
  show "\<bar>ps_peakMagnitude (process A sig) - ps_peakMagnitude (process exact sig)\<bar> \<le> 2 ^ 14 * u * M"
    using det(1) v by (simp add: p sp_def)
  show "ps_targetDetected (process A sig) = ps_targetDetected (process exact sig)"
    if "2 ^ 16 * u * M < \<bar>ps_peakMagnitude (process exact sig) - 4 * (sum_list sp / 128)\<bar>"
  proof -
    have "u * (11 / 10 * M) = 11 / 10 * (u * M)" "2 ^ 16 * u * M = 65536 * (u * M)" by simp_all
    then have "5 * (11600 * (u * M)) + 580 * (u * (11 / 10 * M)) \<le> 2 ^ 16 * u * M" using v by linarith
    with that have "5 * (11600 * (u * M)) + 580 * (u * (11 / 10 * M))
        < \<bar>snd (target_detection exact sp) - 4 * (sum_list sp / 128)\<bar>" unfolding p sp_def by linarith
    from det(2) [OF _ this] v show ?thesis unfolding p sp_def by simp
  qed
qed

end

end
