(* ===== verification/Binary32.thy ===== *)
theory Binary32
  imports Float_Pipeline
begin

text \<open>
  Single precision: rounding to 24 significant bits, ties to even, with gradual underflow at
  \<open>2\<^sup>-\<^sup>1\<^sup>4\<^sup>9\<close> (and double precision in the same way). It satisfies the laws of rounded arithmetic, so that the error bounds hold for the
  pipeline as the program runs it. Results of magnitude \<open>2\<^sup>1\<^sup>2\<^sup>8\<close> and more, infinities and
  not-a-numbers are not values of the model; the proofs of the bounds show that no intermediate
  result comes near them.
\<close>

section \<open>Rounding\<close>

definition round_even :: "real \<Rightarrow> int" where
  "round_even x = (let r = \<lfloor>x\<rfloor>; d = x - of_int r in
     if d < 1 / 2 then r else if 1 / 2 < d then r + 1 else if even r then r else r + 1)"

lemma round_even_err: "\<bar>of_int (round_even x) - x\<bar> \<le> 1 / 2"
  using floor_correct [of x] by (auto simp: round_even_def Let_def abs_le_iff)

lemma round_even_int [simp]: "round_even (of_int k) = k"
  by (simp add: round_even_def)

lemma round_even_abs: "\<bar>x\<bar> \<le> of_int n \<Longrightarrow> \<bar>round_even x\<bar> \<le> n"
  using floor_correct [of x] by (auto simp: round_even_def Let_def abs_le_iff) linarith+

text \<open>The exponent of the last place of a number in a format of \<open>p\<close> significant bits and least exponent \<open>m\<close>.\<close>

definition last_place :: "nat \<Rightarrow> int \<Rightarrow> real \<Rightarrow> int" where
  "last_place p m z = max (\<lfloor>log 2 \<bar>z\<bar>\<rfloor> - (int p - 1)) m"

definition round_to :: "nat \<Rightarrow> int \<Rightarrow> real \<Rightarrow> real" where
  "round_to p m z = (if z = 0 then 0
     else of_int (round_even (z / 2 powr last_place p m z)) * 2 powr last_place p m z)"

definition fl32 :: "real \<Rightarrow> real" where
  "fl32 = round_to 24 (- 149)"

definition fl64 :: "real \<Rightarrow> real" where
  "fl64 = round_to 53 (- 1074)"

lemma round_to_err: "\<bar>round_to p m z - z\<bar> \<le> \<bar>z\<bar> * 2 powr (- real p) + 2 powr (real_of_int m - 1)"
proof (cases "z = 0")
  case False
  let ?p = "2 powr last_place p m z"
  have "round_to p m z - z = (of_int (round_even (z / ?p)) - z / ?p) * ?p"
    using False by (simp add: round_to_def left_diff_distrib)
  then have "\<bar>round_to p m z - z\<bar> = \<bar>of_int (round_even (z / ?p)) - z / ?p\<bar> * ?p" by (simp add: abs_mult)
  also have "\<dots> \<le> 1 / 2 * ?p" by (intro mult_right_mono round_even_err) simp
  also have "\<dots> = 2 powr (real_of_int (last_place p m z) - 1)" by (simp add: powr_diff)
  also have "\<dots> \<le> \<bar>z\<bar> * 2 powr (- real p) + 2 powr (real_of_int m - 1)"
  proof -
    have "2 powr \<lfloor>log 2 \<bar>z\<bar>\<rfloor> \<le> 2 powr log 2 \<bar>z\<bar>" by (intro powr_mono) simp_all
    then have "2 powr \<lfloor>log 2 \<bar>z\<bar>\<rfloor> * 2 powr (- real p) \<le> \<bar>z\<bar> * 2 powr (- real p)" using False by simp
    then have "2 powr (real_of_int \<lfloor>log 2 \<bar>z\<bar>\<rfloor> - real p) \<le> \<bar>z\<bar> * 2 powr (- real p)" by (simp flip: powr_add)
    then show ?thesis by (auto simp: last_place_def max_def add_increasing add_increasing2)
  qed
  finally show ?thesis .
qed (simp add: round_to_def)

lemma fl32_err: "\<bar>fl32 z - z\<bar> \<le> 1 / 2 ^ 24 * \<bar>z\<bar> + 1 / 2 ^ 150"
proof -
  have "(2::real) powr (- real 24) = 1 / 2 ^ 24" "(2::real) powr (real_of_int (- 149) - 1) = 1 / 2 ^ 150"
    by (simp_all add: powr_minus_divide flip: powr_realpow)
  then show ?thesis using round_to_err [of 24 "- 149" z] unfolding fl32_def by (simp only: mult.commute)
qed

lemma round_to_exact:
  assumes "z = of_int k * 2 powr last_place p m z"
  shows "round_to p m z = z"
proof -
  have "z / 2 powr last_place p m z = of_int k" using assms by (simp add: field_simps)
  then show ?thesis using assms by (simp add: round_to_def)
qed

lemma fl32_nat:
  assumes "n \<le> 2 ^ 24"
  shows "fl32 (real n) = real n"
proof (cases "n = 0")
  case False
  consider "n = 2 ^ 24" | "n < 2 ^ 24" using assms by linarith
  then show ?thesis
  proof cases
    case 1
    have "log 2 (real n) = 24" unfolding 1 of_nat_power by (simp add: log_nat_power del: power_numeral)
    then have "last_place 24 (- 149) (real n) = 1" by (simp add: last_place_def)
    with 1 show ?thesis unfolding fl32_def by (intro round_to_exact [of _ "2 ^ 23"]) simp
  next
    case 2
    have "log 2 (real n) < 24" using 2 False by (simp add: log_less_iff flip: powr_realpow)
    then have "\<lfloor>log 2 (real n)\<rfloor> \<le> 23" by linarith
    then have "last_place 24 (- 149) (real n) \<le> 0" by (simp add: last_place_def)
    then obtain j where j: "last_place 24 (- 149) (real n) = - int j" by (rule nonpos_int_cases)
    have "real n = of_int (int n * 2 ^ j) * 2 powr last_place 24 (- 149) (real n)"
      by (simp add: j powr_minus powr_realpow)
    then show ?thesis unfolding fl32_def by (rule round_to_exact)
  qed
qed (simp add: fl32_def round_to_def)

text \<open>Rounding keeps the sign, and does not leave an interval bounded by a power of two.\<close>

lemma round_to_nonneg: "0 \<le> z \<Longrightarrow> 0 \<le> round_to p m z"
proof -
  have "0 \<le> round_even x" if "0 \<le> x" for x
    using that by (auto simp: round_even_def Let_def)
  then show "0 \<le> z \<Longrightarrow> 0 \<le> round_to p m z" by (simp add: round_to_def)
qed

lemma round_to_bounded:
  assumes "\<bar>z\<bar> \<le> 2 ^ k" and "1 \<le> p" and "m \<le> int k"
  shows "\<bar>round_to p m z\<bar> \<le> 2 ^ k"
proof (cases "z = 0")
  case False
  let ?e = "last_place p m z"
  have "log 2 \<bar>z\<bar> \<le> real k" using assms(1) False by (simp add: log_le_iff powr_realpow)
  then have "\<lfloor>log 2 \<bar>z\<bar>\<rfloor> \<le> int k" by linarith
  then have "?e \<le> int k" using assms(2,3) by (simp only: last_place_def max.bounded_iff simp_thms)
  then obtain j where j: "int k = ?e + int j" by (metis add.commute diff_add_cancel zero_le_imp_eq_int diff_ge_0_iff_ge)
  have kj: "(2::real) ^ k = 2 powr ?e * 2 ^ j"
    using arg_cong [OF j, of "\<lambda>i. 2 powr real_of_int i :: real"] by (simp add: powr_add powr_realpow)
  have "\<bar>z / 2 powr ?e\<bar> \<le> of_int (2 ^ j)"
    using assms(1) by (simp add: kj field_simps)
  then have "\<bar>round_even (z / 2 powr ?e)\<bar> \<le> 2 ^ j" by (rule round_even_abs)
  then have "\<bar>of_int (round_even (z / 2 powr ?e)) :: real\<bar> \<le> 2 ^ j"
    by (metis of_int_abs of_int_le_iff of_int_numeral of_int_power)
  then show ?thesis
    using False by (simp add: round_to_def kj abs_mult mult.commute)
qed (simp add: round_to_def)

lemma fl32_bounded: "\<bar>z\<bar> \<le> 1 \<Longrightarrow> \<bar>fl32 z\<bar> \<le> 1"
  using round_to_bounded [of z 0 24 "- 149"] by (simp add: fl32_def)

lemma fl64_bounded: "\<bar>z\<bar> \<le> 1 \<Longrightarrow> \<bar>fl64 z\<bar> \<le> 1" "\<bar>z\<bar> \<le> 2 \<Longrightarrow> \<bar>fl64 z\<bar> \<le> 2" "0 \<le> z \<Longrightarrow> 0 \<le> fl64 z"
  using round_to_bounded [of z 0 53 "- 1074"] round_to_bounded [of z 1 53 "- 1074"] round_to_nonneg [of z]
  by (simp_all add: fl64_def)

lemma fl32_unit: "\<bar>x\<bar> \<le> 1 \<Longrightarrow> \<bar>fl32 x - x\<bar> \<le> 2 * (1 / 2 ^ 24)"
  by (rule order_trans [OF fl32_err]) simp

interpretation correctly_rounded: float_library fl32 "1 / 2 ^ 24" "1 / 2 ^ 150"
    "\<lambda>x. fl32 (cos x)" "\<lambda>x. fl32 (sin x)" "\<lambda>x y. fl32 (sqrt (x\<^sup>2 + y\<^sup>2))"
proof unfold_locales
  fix x :: real
  show "\<bar>fl32 (cos x) - cos x\<bar> \<le> 2 * (1 / 2 ^ 24)" "\<bar>fl32 (sin x) - sin x\<bar> \<le> 2 * (1 / 2 ^ 24)"
    by (rule fl32_unit, simp)+
next
  fix x y :: real
  show "\<bar>fl32 (sqrt (x\<^sup>2 + y\<^sup>2)) - sqrt (x\<^sup>2 + y\<^sup>2)\<bar> \<le> 2 * (1 / 2 ^ 24) * sqrt (x\<^sup>2 + y\<^sup>2) + 1 / 2 ^ 150"
    by (rule order_trans [OF fl32_err]) simp
qed (use fl32_err fl32_nat in auto)

lemma binary32_library:
  assumes "\<And>x. \<bar>x\<bar> \<le> 5 \<Longrightarrow> \<bar>cosf x - cos x\<bar> \<le> 1 / 2 ^ 23"
    and "\<And>x. \<bar>x\<bar> \<le> 5 \<Longrightarrow> \<bar>sinf x - sin x\<bar> \<le> 1 / 2 ^ 23"
    and "\<And>x y. sqrt (x\<^sup>2 + y\<^sup>2) \<le> 2 ^ 120
      \<Longrightarrow> \<bar>hypotf x y - sqrt (x\<^sup>2 + y\<^sup>2)\<bar> \<le> sqrt (x\<^sup>2 + y\<^sup>2) / 2 ^ 23 + 1 / 2 ^ 150"
  shows "float_library fl32 (1 / 2 ^ 24) (1 / 2 ^ 150) cosf sinf hypotf"
  using assms fl32_err fl32_nat by unfold_locales auto

section \<open>A constant signal\<close>

lemma root_sum_zero:
  assumes "0 < k" and "k < 256"
  shows "(\<Sum>t < 256. cis (- 2 * pi * real k * real t / 256)) = 0"
proof -
  let ?z = "cis (- 2 * pi * real k / 256)"
  have z: "?z \<noteq> 1"
  proof
    assume "?z = 1"
    then have "cos (2 * pi * real k / 256) = 1" by (simp add: complex_eq_iff cis.ctr)
    then obtain m :: int where "2 * pi * real k / 256 = of_int m * 2 * pi" by (auto simp: cos_one_2pi_int)
    then have "real k = 256 * of_int m" by (simp add: field_simps)
    then have "int k = 256 * m" by linarith
    with assms show False by presburger
  qed
  have "cis (- 2 * pi * real k * real t / 256) = ?z ^ t" for t by (simp add: DeMoivre algebra_simps)
  moreover have "?z ^ 256 = 1" using cis_multiple_2pi [of "- real k"] by (simp add: DeMoivre mult.assoc)
  ultimately show ?thesis using geometric_sum [OF z, of 256] by simp
qed

lemma constant_filter: "noise_filter exact (replicate n c) = replicate n c"
proof (intro nth_equalityI)
  fix i assume "i < length (noise_filter exact (replicate n c))"
  then show "noise_filter exact (replicate n c) ! i = replicate n c ! i"
    by (auto simp: noise_filter_def filter_at_def Let_def)
qed simp

lemma constant_spectrum:
  assumes "0 \<le> c" and "i < 128"
  shows "fft exact (replicate 256 c) ! i = (if i = 0 then c else 0)"
proof -
  let ?w = "\<lambda>t. cis (- 2 * pi * real i * real t / 256)"
  have "fft exact (replicate 256 c) ! i = cmod (of_real c * (\<Sum>t < 256. ?w t)) / 256"
    using fft_n_dft [of "replicate 256 c" 8 i] assms(2)
    by (simp add: fft_def kRadarSampleCount_def sum_distrib_left)
  also have "\<dots> = (if i = 0 then c else 0)"
    using root_sum_zero [of i] assms by (auto simp: norm_mult)
  finally show ?thesis .
qed

lemma constant_process:
  assumes "0 < c"
  shows "process exact (RadarSignal t (replicate 256 c)) = ProcessedSignal t True c"
    and "sum_list (fft exact (noise_filter exact (replicate 256 c))) = c"
proof -
  have sp: "fft exact (replicate 256 c) = c # replicate 127 0"
  proof (intro nth_equalityI)
    fix i assume "i < length (fft exact (replicate 256 c))"
    then have "i < 128" by (simp add: fft_def kRadarSampleCount_def)
    with constant_spectrum [of c i] assms show "fft exact (replicate 256 c) ! i = (c # replicate 127 0) ! i"
      by (cases i) simp_all
  qed (simp add: fft_def kRadarSampleCount_def)
  show "sum_list (fft exact (noise_filter exact (replicate 256 c))) = c"
    by (simp add: constant_filter sp sum_list_replicate)
  have "target_detection exact (c # replicate 127 0) = (True, c)"
    using assms by (simp add: target_detection_peak set_replicate_conv_if sum_list_replicate max_def)
  then show "process exact (RadarSignal t (replicate 256 c)) = ProcessedSignal t True c"
    by (simp add: process_def RadarSignal_def constant_filter sp)
qed

section \<open>Properties\<close>

text \<open>C14: Single precision is enough. With IEEE single-precision arithmetic and a mathematical library
  accurate to a unit in the last place, the peak computed from a full block of samples of magnitude
  at most \<open>M\<close> differs from the mathematical one by at most a thousandth of \<open>M\<close>, and the detector
  decides as in exact arithmetic whenever the exact peak is farther than \<open>M\<close>/256 from its threshold.\<close>

theorem single_precision_decides:
  assumes "\<And>x. \<bar>x\<bar> \<le> 5 \<Longrightarrow> \<bar>cosf x - cos x\<bar> \<le> 1 / 2 ^ 23"
    and "\<And>x. \<bar>x\<bar> \<le> 5 \<Longrightarrow> \<bar>sinf x - sin x\<bar> \<le> 1 / 2 ^ 23"
    and "\<And>x y. sqrt (x\<^sup>2 + y\<^sup>2) \<le> 2 ^ 120
      \<Longrightarrow> \<bar>hypotf x y - sqrt (x\<^sup>2 + y\<^sup>2)\<bar> \<le> sqrt (x\<^sup>2 + y\<^sup>2) / 2 ^ 23 + 1 / 2 ^ 150"
    and "length (sig_samples sig) = kRadarSampleCount"
    and "\<forall>x \<in> set (sig_samples sig). \<bar>x\<bar> \<le> M" and "1 / 2 ^ 90 \<le> M" and "M \<le> 2 ^ 80"
  shows "let A = ieee fl32 cosf sinf hypotf;
             mean = sum_list (fft exact (noise_filter exact (sig_samples sig))) / 128
         in \<bar>ps_peakMagnitude (process A sig) - ps_peakMagnitude (process exact sig)\<bar> \<le> M / 2 ^ 10
            \<and> (M / 2 ^ 8 < \<bar>ps_peakMagnitude (process exact sig) - 4 * mean\<bar>
                \<longrightarrow> ps_targetDetected (process A sig) = ps_targetDetected (process exact sig))"
proof -
  have lib: "float_library fl32 (1 / 2 ^ 24) (1 / 2 ^ 150) cosf sinf hypotf"
    using assms(1-3) by (rule binary32_library)
  show ?thesis
    using float_library.process_near [OF lib assms(4-7)] by (simp add: Let_def)
qed

theorem single_precision_decides_witness:
  "ps_targetDetected (process (ieee fl32 (\<lambda>x. fl32 (cos x)) (\<lambda>x. fl32 (sin x)) (\<lambda>x y. fl32 (sqrt (x\<^sup>2 + y\<^sup>2))))
      (RadarSignal 7 (replicate 256 1)))"
proof -
  let ?sig = "RadarSignal 7 (replicate 256 1) :: real radar_signal"
  note err = correctly_rounded.cosf_err correctly_rounded.sinf_err correctly_rounded.hypotf_err
  have "length (sig_samples ?sig) = kRadarSampleCount" "\<forall>x \<in> set (sig_samples ?sig). \<bar>x\<bar> \<le> 1"
    by (simp_all add: RadarSignal_def kRadarSampleCount_def)
  from single_precision_decides [OF _ _ _ this, of "\<lambda>x. fl32 (cos x)" "\<lambda>x. fl32 (sin x)" "\<lambda>x y. fl32 (sqrt (x\<^sup>2 + y\<^sup>2))"]
  show ?thesis
    using err constant_process [of 1] by (simp add: Let_def RadarSignal_def ProcessedSignal_def)
qed

end
