(* ===== verification/Random_Generator.thy ===== *)
theory Random_Generator
  imports Binary32 Radar_Producer
begin

text \<open>
  The random source of \<^verbatim>\<open>src/random_generator.cpp\<close>. The engine \<^verbatim>\<open>std::mt19937\<close> is modelled as the
  standard defines it, on 32-bit words: the seeding, the recurrence over the last 624 words and the
  tempering of the output. How a distribution turns the engine's words into a number is left to the
  library and a parameter; what the program relies on is that the number lies in the interval.
\<close>

unbundle bit_operations_syntax

section \<open>The engine\<close>

type_synonym u32 = "32 word"

definition mt_n :: nat where "mt_n = 624"
definition mt_m :: nat where "mt_m = 397"

text \<open>The last 624 words, the oldest first.\<close>

record mt19937 =
  mt_words :: "u32 list"

definition seed_step :: "nat \<Rightarrow> u32 \<Rightarrow> u32" where
  "seed_step i x = 1812433253 * (x XOR drop_bit 30 x) + of_nat i"

fun seed_words :: "nat \<Rightarrow> nat \<Rightarrow> u32 \<Rightarrow> u32 list" where
  "seed_words 0 i x = []"
| "seed_words (Suc k) i x = x # seed_words k (Suc i) (seed_step (Suc i) x)"

definition mt19937_seed :: "u32 \<Rightarrow> mt19937" where
  "mt19937_seed seed = \<lparr>mt_words = seed_words mt_n 0 seed\<rparr>"

text \<open>The next word: the upper bit of the oldest word joined to the lower bits of its successor.\<close>

definition twist :: "u32 \<Rightarrow> u32 \<Rightarrow> u32 \<Rightarrow> u32" where
  "twist x0 x1 xm =
     (let y = (x0 AND 0x80000000) OR (x1 AND 0x7FFFFFFF)
      in xm XOR drop_bit 1 y XOR (if bit y 0 then 0x9908B0DF else 0))"

definition temper :: "u32 \<Rightarrow> u32" where
  "temper x =
     (let x = x XOR drop_bit 11 x;
          x = x XOR (push_bit 7 x AND 0x9D2C5680);
          x = x XOR (push_bit 15 x AND 0xEFC60000)
      in x XOR drop_bit 18 x)"

definition mt_next :: "mt19937 \<Rightarrow> u32 \<times> mt19937" where
  "mt_next e =
     (let w = mt_words e; x = twist (w ! 0) (w ! 1) (w ! mt_m)
      in (temper x, e\<lparr>mt_words := tl w @ [x]\<rparr>))"

section \<open>Distributions\<close>

text \<open>
  A distribution draws from the engine and returns a number and the engine's next state. The
  program uses the real one on the interval from -1 to 1 only.
\<close>

type_synonym real_dist = "real \<Rightarrow> real \<Rightarrow> mt19937 \<Rightarrow> real \<times> mt19937"
type_synonym int_dist = "int \<Rightarrow> int \<Rightarrow> mt19937 \<Rightarrow> int \<times> mt19937"

locale unit_distribution =
  fixes distr :: real_dist
  assumes in_range: "\<bar>fst (distr (- 1) 1 e)\<bar> \<le> 1"

text \<open>
  The distribution as the standard's \<^verbatim>\<open>generate_canonical\<close> gives it for double precision: two words
  of the engine make a fraction, which is scaled to the interval.
\<close>

definition generate_canonical :: "mt19937 \<Rightarrow> real \<times> mt19937" where
  "generate_canonical e =
     (let (g0, e1) = mt_next e; (g1, e2) = mt_next e1
      in (fl64 ((real (unat g0) + real (unat g1) * 2 ^ 32) / 2 ^ 64), e2))"

definition canonical_dist :: real_dist where
  "canonical_dist low high e =
     (let (r, e') = generate_canonical e in (fl64 (fl64 (r * fl64 (high - low)) + low), e'))"

lemma canonical_fraction: "0 \<le> fst (generate_canonical e) \<and> fst (generate_canonical e) \<le> 1"
proof -
  have frac: "0 \<le> fl64 ((a + b * 2 ^ 32) / 2 ^ 64) \<and> fl64 ((a + b * 2 ^ 32) / 2 ^ 64) \<le> 1"
    if "0 \<le> a" "a \<le> 2 ^ 32 - 1" "0 \<le> b" "b \<le> 2 ^ 32 - 1" for a b :: real
  proof -
    have "\<bar>(a + b * 2 ^ 32) / 2 ^ 64\<bar> \<le> 1" using that by simp
    from fl64_bounded(1) [OF this] that show ?thesis by (simp add: fl64_bounded(3))
  qed
  have n: "real n \<le> 2 ^ 32 - 1" if "n < 2 ^ 32" for n :: nat using that by simp
  have "unat g < 2 ^ 32" for g :: u32 using unsigned_less [of g, where ?'a = nat] by simp
  then have "0 \<le> fl64 ((real (unat g0) + real (unat g1) * 2 ^ 32) / 2 ^ 64)
      \<and> fl64 ((real (unat g0) + real (unat g1) * 2 ^ 32) / 2 ^ 64) \<le> 1" for g0 g1 :: u32
    by (intro frac n of_nat_0_le_iff)
  then show ?thesis by (simp add: generate_canonical_def Let_def split: prod.splits)
qed

interpretation canonical: unit_distribution canonical_dist
proof unfold_locales
  fix e
  obtain r e' where r: "generate_canonical e = (r, e')" by fastforce
  with canonical_fraction [of e] have r01: "0 \<le> r" "r \<le> 1" by simp_all
  have two: "0 \<le> fl64 2" "fl64 2 \<le> 2" using fl64_bounded(2,3) [of 2] by simp_all
  then have "0 \<le> r * fl64 2" "r * fl64 2 \<le> 1 * 2" using r01 by (simp, intro mult_mono) simp_all
  then have "0 \<le> fl64 (r * fl64 2)" "fl64 (r * fl64 2) \<le> 2"
    using fl64_bounded(2,3) [of "r * fl64 2"] by simp_all
  then have "\<bar>fl64 (r * fl64 2) + - 1\<bar> \<le> 1" by simp
  from fl64_bounded(1) [OF this] show "\<bar>fst (canonical_dist (- 1) 1 e)\<bar> \<le> 1"
    by (simp add: canonical_dist_def r)
qed

section \<open>RandomGenerator\<close>

record random_generator =
  engine :: mt19937

definition RandomGenerator :: "u32 \<Rightarrow> random_generator" where
  "RandomGenerator seed = \<lparr>engine = mt19937_seed seed\<rparr>"

text \<open>The default constructor takes its seed from the random device.\<close>

definition RandomGenerator_default :: "u32 \<Rightarrow> random_generator" where
  "RandomGenerator_default device = RandomGenerator device"

definition uniformInt :: "int_dist \<Rightarrow> int \<Rightarrow> int \<Rightarrow> random_generator \<Rightarrow> int \<times> random_generator" where
  "uniformInt distr low high g = (let (x, e) = distr low high (engine g) in (x, g\<lparr>engine := e\<rparr>))"

definition uniformReal :: "real_dist \<Rightarrow> real \<Rightarrow> real \<Rightarrow> random_generator \<Rightarrow> real \<times> random_generator" where
  "uniformReal distr low high g = (let (x, e) = distr low high (engine g) in (x, g\<lparr>engine := e\<rparr>))"

text \<open>One sample of \<^verbatim>\<open>RadarProducer::generateSignal\<close>.\<close>

definition sample_draw :: "real_dist \<Rightarrow> random_generator \<Rightarrow> real \<times> random_generator" where
  "sample_draw distr g = (let (x, g') = uniformReal distr (- 1) 1 g in (fl32 x, g'))"

context unit_distribution
begin

lemma sample_bounded: "\<bar>fst (sample_draw distr g)\<bar> \<le> 1"
  using in_range [of "engine g"] by (auto simp: sample_draw_def uniformReal_def Let_def intro: fl32_bounded split: prod.splits)

lemma draws_bounded: "draws (sample_draw distr) n g = (xs, g') \<Longrightarrow> x \<in> set xs \<Longrightarrow> \<bar>x\<bar> \<le> 1"
proof (induction n arbitrary: g xs)
  case (Suc n)
  then show ?case using sample_bounded [of g] by (auto simp: Let_def split: prod.splits)
qed simp

lemma generated_bounded: "generateSignal (sample_draw distr) t g = (sig, g') \<Longrightarrow> x \<in> set (sig_samples sig) \<Longrightarrow> \<bar>x\<bar> \<le> 1"
  by (auto simp: generateSignal_def RadarSignal_def Let_def intro: draws_bounded split: prod.splits)

end

end
