(* ===== verification/Application_Accuracy.thy ===== *)
theory Application_Accuracy
  imports Application_Report Random_Generator
begin

text \<open>
  The numbers at the end of the pipeline: with the producer's random source and the single-precision
  arithmetic of the program, what the log says about a signal is close to what exact arithmetic says
  of the samples that were drawn.
\<close>

section \<open>From the log back to the signals\<close>

lemma logged_from_accepted:
  assumes "reaches (app_init E) (app_step E) a" and "r \<in> set (delivered (h_out a))" and "lr_source r = Dsp"
  obtains sig where "sig \<in> set (accepted (h_in a))" and "r = toLogRecord (process (p_arith E) sig)"
    and "from_engine (p_draw E) sig"
proof -
  have sub: "dsp_records (delivered (h_out a)) \<subseteq># image_mset toLogRecord (mset (h_results a))"
    using reachable_pipeline_inv [OF assms(1)]
    by (auto simp: pipeline_inv_def abs_app_def intro: subset_mset.order_trans [rotated])
  have "r \<in># dsp_records (delivered (h_out a))" using assms(2,3) by (simp add: dsp_records_def)
  from mset_subset_eqD [OF sub this] obtain res where "res \<in> set (h_results a)" "r = toLogRecord res" by auto
  moreover from this(1) obtain sig where "sig \<in> set (accepted (h_in a))" "res = process (p_arith E) sig"
    using mset_subset_eqD [OF results_from_accepted [OF assms(1)], of res] by auto
  moreover from this(1) have "from_engine (p_draw E) sig"
    using typed.reaches_invar [OF assms(1)] by (simp add: typed_inv_def signals_in_def)
  ultimately show thesis using that by blast
qed

section \<open>Properties\<close>

text \<open>C12: The log is accurate. Suppose the standard library's real distribution keeps to the interval it is asked
  for, \<^verbatim>\<open>cosf\<close> and \<^verbatim>\<open>sinf\<close> err by at most 2^-23 for arguments up to 5, and \<^verbatim>\<open>hypotf\<close> by a relative 2^-23 (and
  2^-150). Then, in every reachable state of the program, whatever the scheduling and also after
  exceptions, each processing record the logger has taken is the record of an accepted signal: a
  full block of samples between -1 and 1, with the block's timestamp, the reported peak within a
  thousandth of the mathematical one, and the reported decision the one of exact arithmetic whenever
  the exact peak is farther than 1/256 from its threshold.\<close>

theorem logged_results_accurate:
  assumes "\<And>e. \<bar>fst (distr (- 1) 1 e)\<bar> \<le> 1"
    and "\<And>x. \<bar>x\<bar> \<le> 5 \<Longrightarrow> \<bar>cosf x - cos x\<bar> \<le> 1 / 2 ^ 23"
    and "\<And>x. \<bar>x\<bar> \<le> 5 \<Longrightarrow> \<bar>sinf x - sin x\<bar> \<le> 1 / 2 ^ 23"
    and "\<And>x y. sqrt (x\<^sup>2 + y\<^sup>2) \<le> 2 ^ 120
      \<Longrightarrow> \<bar>hypotf x y - sqrt (x\<^sup>2 + y\<^sup>2)\<bar> \<le> sqrt (x\<^sup>2 + y\<^sup>2) / 2 ^ 23 + 1 / 2 ^ 150"
    and "p_draw E = sample_draw distr" and "p_arith E = ieee fl32 cosf sinf hypotf"
    and "reaches (app_init E) (app_step E) a" and "r \<in> set (delivered (h_out a))" and "lr_source r = Dsp"
  shows "\<exists>sig res. sig \<in> set (accepted (h_in a)) \<and> r = toLogRecord res \<and> ps_timestamp res = sig_timestamp sig
    \<and> length (sig_samples sig) = kRadarSampleCount \<and> (\<forall>x \<in> set (sig_samples sig). \<bar>x\<bar> \<le> 1)
    \<and> \<bar>ps_peakMagnitude res - ps_peakMagnitude (process exact sig)\<bar> \<le> 1 / 2 ^ 10
    \<and> (1 / 2 ^ 8 < \<bar>ps_peakMagnitude (process exact sig)
            - 4 * (sum_list (fft exact (noise_filter exact (sig_samples sig))) / 128)\<bar>
        \<longrightarrow> ps_targetDetected res = ps_targetDetected (process exact sig))"
proof -
  obtain sig where sig: "sig \<in> set (accepted (h_in a))" "r = toLogRecord (process (ieee fl32 cosf sinf hypotf) sig)"
    "from_engine (sample_draw distr) sig"
    using logged_from_accepted [OF assms(7-9)] assms(5,6) by metis
  then obtain t e e' where gen: "generateSignal (sample_draw distr) t e = (sig, e')" by (auto simp: from_engine_def)
  have "unit_distribution distr" using assms(1) by unfold_locales
  from unit_distribution.generated_bounded [OF this gen] have b: "\<forall>x \<in> set (sig_samples sig). \<bar>x\<bar> \<le> 1" by blast
  have lib: "float_library fl32 (1 / 2 ^ 24) (1 / 2 ^ 150) cosf sinf hypotf"
    using assms(2-4) by (rule binary32_library)
  have full: "length (sig_samples sig) = kRadarSampleCount" using generateSignal_shape [OF gen] by simp
  show ?thesis
    using float_library.process_near [OF lib full b] sig(1,2) full b
    by (intro exI [of _ sig] exI [of _ "process (ieee fl32 cosf sinf hypotf) sig"])
      (simp add: process_def ProcessedSignal_def split: prod.splits)
qed


text \<open>The program with correctly rounded library functions and a distribution on the engine's own words.\<close>

definition float_demo :: "(random_generator, real) params" where
  "float_demo = \<lparr>p_cfg = p_cfg demo, p_sys = p_sys demo,
     p_arith = ieee fl32 (\<lambda>x. fl32 (cos x)) (\<lambda>x. fl32 (sin x)) (\<lambda>x y. fl32 (sqrt (x\<^sup>2 + y\<^sup>2))),
     p_draw = sample_draw canonical_dist, p_show = (\<lambda>_. []), p_msg = (\<lambda>_. [])\<rparr>"

definition float_start :: "real app" where
  "float_start = \<lparr>sh = \<lparr>
      inputQueue = \<lparr>q_queue = [], q_capacity = 256, q_policy = Block, q_droppedCount = 0, q_closed = False\<rparr>,
      outputQueue = \<lparr>q_queue = [], q_capacity = 1024, q_policy = DropOldest, q_droppedCount = 0, q_closed = False\<rparr>,
      shutdownToken = new_token, sh_metrics = new_metrics,
      heartbeatRegistry = [(''producer'', new_heartbeat), (worker_name 0, new_heartbeat), (''logger'', new_heartbeat)],
      sinks = [new_sink], cerr = []\<rparr>,
    producer_pc = None, worker_pcs = [None], logger_pc = None, watchdog_pc = None, main_pc = MLock,
    stopped = False, summary = [], h_in = [], h_out = [], h_results = [], h_threw = False\<rparr>"

lemma float_init: "app_init float_demo float_start"
  unfolding app_init_def
  by (rule exI [of _ willing])
    (simp add: Application_def willing_def float_demo_def float_start_def demo_def default_config_def ThreadSafeQueue_def
      registerHeartbeat_def ThreadPool_eq buildSinks_def SignalHandler_def Let_def)

lemma float_params [simp]: "p_cfg float_demo = p_cfg demo" "logger_hb float_demo = 2"
  by (simp_all add: float_demo_def logger_hb_def)

lemma float_run:
  "\<exists>a r. run_script float_demo (RandomGenerator 5489) (demo_startup @ demo_work) float_start = Some a
     \<and> delivered (h_out a) = [r] \<and> lr_source r = Dsp"
  by (simp add: demo_startup_def demo_work_def float_start_def demo_wait demo_exec eval_nat_numeral del: waitForShutdown.simps)

theorem logged_results_accurate_witness:
  "\<exists>a r sig res. reaches (app_init float_demo) (app_step float_demo) a \<and> delivered (h_out a) = [r]
     \<and> sig \<in> set (accepted (h_in a)) \<and> r = toLogRecord res \<and> length (sig_samples sig) = 256
     \<and> \<bar>ps_peakMagnitude res - ps_peakMagnitude (process exact sig)\<bar> \<le> 1 / 1024"
proof -
  obtain a r where a: "run_script float_demo (RandomGenerator 5489) (demo_startup @ demo_work) float_start = Some a"
    "delivered (h_out a) = [r]" "lr_source r = Dsp"
    using float_run by blast
  have reach: "reaches (app_init float_demo) (app_step float_demo) a"
    using run_script_reaches [OF a(1)] reaches_init [of "app_init float_demo", OF float_init] by blast
  have "r \<in> set (delivered (h_out a))" using a(2) by simp
  note taken = this
  have lib: "\<bar>x\<bar> \<le> 5 \<Longrightarrow> \<bar>fl32 (cos x) - cos x\<bar> \<le> 1 / 2 ^ 23" "\<bar>x\<bar> \<le> 5 \<Longrightarrow> \<bar>fl32 (sin x) - sin x\<bar> \<le> 1 / 2 ^ 23"
    "sqrt (x\<^sup>2 + y\<^sup>2) \<le> 2 ^ 120 \<Longrightarrow> \<bar>fl32 (sqrt (x\<^sup>2 + y\<^sup>2)) - sqrt (x\<^sup>2 + y\<^sup>2)\<bar> \<le> sqrt (x\<^sup>2 + y\<^sup>2) / 2 ^ 23 + 1 / 2 ^ 150" for x y
    using correctly_rounded.cosf_err [of x] correctly_rounded.sinf_err [of x] correctly_rounded.hypotf_err [of x y] by simp_all
  obtain sig res where "sig \<in> set (accepted (h_in a))" "r = toLogRecord res" "length (sig_samples sig) = kRadarSampleCount"
    "\<bar>ps_peakMagnitude res - ps_peakMagnitude (process exact sig)\<bar> \<le> 1 / 2 ^ 10"
    using logged_results_accurate [where distr = canonical_dist and cosf = "\<lambda>x. fl32 (cos x)"
      and sinf = "\<lambda>x. fl32 (sin x)" and hypotf = "\<lambda>x y. fl32 (sqrt (x\<^sup>2 + y\<^sup>2))" and E = float_demo and a = a and r = r]
      canonical.in_range lib reach taken a(3)
    by (auto simp: float_demo_def)
  with reach a(2) show ?thesis
    by (intro exI [of _ a] exI [of _ r] exI [of _ sig] exI [of _ res]) (simp add: kRadarSampleCount_def)
qed

end
