(* ===== verification/Seeded_Run.thy ===== *)
theory Seeded_Run
  imports Pipeline_Spec
begin

text \<open>
  The program together with the random engine that \<^verbatim>\<open>RadarProducer\<close> owns. The interleaving of
  \<open>Radar_Application\<close> lets a signal come from any state of the engine; here the engine is part of the
  state, starts from the seed and is advanced by each sampled signal, as \<^verbatim>\<open>randomGenerator_\<close> is. Every
  run of this program is a run of the interleaving, so that all its theorems hold here, and what is
  sampled no longer depends on anything but the seed.
\<close>

section \<open>The producer's engine\<close>

inductive seeded_step :: "('e, 'f) params \<Rightarrow> 'f app \<times> 'e \<Rightarrow> 'f app \<times> 'e \<Rightarrow> bool" for E :: "('e, 'f) params" where
  sd_sample: "producer_pc a = Some (PSample nd) \<Longrightarrow> generateSignal (p_draw E) sampleTime e = (sig, e')
     \<Longrightarrow> seeded_step E (a, e)
           (a\<lparr>producer_pc := Some (PPush nd sig), sh := on_heartbeat 0 (markRunning sampleTime) (sh a)\<rparr>, e')"
| sd_other: "app_step E a a' \<Longrightarrow> \<not> (\<exists>nd. producer_pc a = Some (PSample nd)) \<or> \<not> (\<exists>nd sig. producer_pc a' = Some (PPush nd sig))
     \<Longrightarrow> seeded_step E (a, e) (a', e)"

definition seeded_init :: "('e, 'f) params \<Rightarrow> 'e \<Rightarrow> 'f app \<times> 'e \<Rightarrow> bool" where
  "seeded_init E seed = (\<lambda>(a, e). app_init E a \<and> e = seed)"

text \<open>The samples of the first signals.\<close>

fun sample_blocks :: "('e \<Rightarrow> 'f \<times> 'e) \<Rightarrow> nat \<Rightarrow> 'e \<Rightarrow> 'f list list \<times> 'e" where
  "sample_blocks draw 0 e = ([], e)"
| "sample_blocks draw (Suc n) e =
     (let (xss, e1) = sample_blocks draw n e; (xs, e2) = draws draw kRadarSampleCount e1 in (xss @ [xs], e2))"



section \<open>Simulation\<close>

lemma seeded_app_step:
  assumes "seeded_step E c c'"
  shows "app_step E (fst c) (fst c')"
  using assms
proof (cases rule: seeded_step.cases)
  case (sd_sample a nd t e sig e')
  from st_producer [of a "PSample nd" E Tau, OF sd_sample(3) pr_sample [OF sd_sample(4)]] sd_sample(1,2) show ?thesis by simp
qed simp

section \<open>What has been sampled\<close>

text \<open>Beside the accepted signals at most one has been sampled: the one about to be pushed, or one refused.\<close>

fun awaiting :: "'f ppc option \<Rightarrow> 'f radar_signal list \<Rightarrow> bool" where
  "awaiting (Some (PPush nd sig)) lost = (lost = [sig])"
| "awaiting (Some (PUnwind u)) lost = (length lost \<le> 1)"
| "awaiting (Some PDone) lost = (length lost \<le> 1)"
| "awaiting _ lost = (lost = [])"

lemma awaiting_resume [simp]: "awaiting (Some (producer_resume x)) lost \<longleftrightarrow> length lost \<le> 1"
  by (cases x) simp_all

lemma awaiting_length: "awaiting p lost \<Longrightarrow> length lost \<le> 1"
  by (induction p lost rule: awaiting.induct) simp_all

definition sampled_inv :: "('e, 'f) params \<Rightarrow> 'e \<Rightarrow> 'f app \<times> 'e \<Rightarrow> bool" where
  "sampled_inv E seed = (\<lambda>(a, e). \<exists>lost. awaiting (producer_pc a) lost \<and>
     sample_blocks (p_draw E) (length (accepted (h_in a) @ lost)) seed = (map sig_samples (accepted (h_in a) @ lost), e))"

lemma generateSignal_draws:
  "generateSignal draw t e = (sig, e') \<Longrightarrow> draws draw kRadarSampleCount e = (sig_samples sig, e')"
  by (auto simp: generateSignal_def RadarSignal_def Let_def split: prod.splits)

text \<open>How a step of the program changes what the producer awaits and what was accepted.\<close>

lemma app_step_awaiting:
  assumes "app_step E a a'" and "awaiting (producer_pc a) lost" and "base_inv E a"
    and "\<not> (\<exists>nd. producer_pc a = Some (PSample nd)) \<or> \<not> (\<exists>nd sig. producer_pc a' = Some (PPush nd sig))"
  shows "\<exists>lost'. awaiting (producer_pc a') lost' \<and> accepted (h_in a') @ lost' = accepted (h_in a) @ lost"
  using assms(1)
proof (cases rule: app_step.cases)
  case (st_producer p ev p' s')
  show ?thesis
    using st_producer(3,1,2) assms(2,4) awaiting_length [OF assms(2)]
    by (cases rule: producer_step.cases) (auto simp: accepted_append)
next
  case (st_worker i k ev k' s')
  then have "accepted (h_in a') = accepted (h_in a)"
    by (cases rule: worker_event [OF st_worker(4)]) (simp_all add: accepted_append)
  with st_worker(1) assms(2) show ?thesis by auto
next
  case (st_logger l ev l' s')
  then show ?thesis using assms(2) by (cases rule: logger_event [OF st_logger(3)]) auto
next
  case (st_watchdog w ev w' s')
  from st_watchdog(3,1) have "h_in a' = h_in a" by (cases rule: watchdog_step.cases) auto
  with st_watchdog(1) assms(2) show ?thesis by auto
next
  case st_main
  then show ?thesis
  proof (cases rule: main_step.cases)
    case (mn_start_producer i)
    then have "producer_pc a = None" using assms(3) by (auto simp: base_inv_def phase_inv_def started_inv_def)
    with mn_start_producer assms(2) show ?thesis by simp
  qed (use assms(2) in \<open>auto simp: accepted_append\<close>)
qed

definition seeded_inv :: "('e, 'f) params \<Rightarrow> 'e \<Rightarrow> 'f app \<times> 'e \<Rightarrow> bool" where
  "seeded_inv E seed c \<longleftrightarrow> base_inv E (fst c) \<and> sampled_inv E seed c"

lemma seeded_inv_init:
  assumes "seeded_init E seed c"
  shows "seeded_inv E seed c"
proof -
  obtain a where c: "c = (a, seed)" "app_init E a" using assms by (auto simp: seeded_init_def)
  then have "producer_pc a = None" "h_in a = []" by (auto elim: app_init_cases)
  with c application.invar_init [OF c(2)] show ?thesis
    by (auto simp: seeded_inv_def sampled_inv_def intro: exI [of _ "[]"])
qed

lemma seeded_inv_step:
  assumes "seeded_step E c c'" and "seeded_inv E seed c"
  shows "seeded_inv E seed c'"
proof -
  have "sampled_inv E seed c'"
    using assms(1)
  proof (cases rule: seeded_step.cases)
    case (sd_sample a nd t e sig e')
    from assms(2) sd_sample(1,3) have
      "sample_blocks (p_draw E) (length (accepted (h_in a))) seed = (map sig_samples (accepted (h_in a)), e)"
      by (auto simp: seeded_inv_def sampled_inv_def)
    with generateSignal_draws [OF sd_sample(4)] sd_sample(2) show ?thesis by (simp add: sampled_inv_def)
  next
    case (sd_other a a' e)
    obtain lost where lost: "awaiting (producer_pc a) lost"
      "sample_blocks (p_draw E) (length (accepted (h_in a) @ lost)) seed = (map sig_samples (accepted (h_in a) @ lost), e)"
      using assms(2) sd_other(1) by (auto simp: seeded_inv_def sampled_inv_def)
    have "base_inv E a" using assms(2) sd_other(1) by (simp add: seeded_inv_def)
    then obtain lost' where "awaiting (producer_pc a') lost'" "accepted (h_in a') @ lost' = accepted (h_in a) @ lost"
      using app_step_awaiting [OF sd_other(3) lost(1) _ sd_other(4)] by blast
    with lost(2) sd_other(2) show ?thesis by (auto simp: sampled_inv_def simp del: map_append length_append intro!: exI [of _ lost'])
  qed
  with application.invar_step [OF seeded_app_step [OF assms(1)]] assms(2) show ?thesis by (simp add: seeded_inv_def)
qed

interpretation seeded: simulation "seeded_init E seed" "seeded_step E" "seeded_inv E seed" "app_init E" "app_step E" fst
  for E seed
proof unfold_locales
  show "seeded_inv E seed c" if "seeded_init E seed c" for c using that by (rule seeded_inv_init)
  show "seeded_inv E seed c'" if "seeded_step E c c'" "seeded_inv E seed c" for c c' using that by (rule seeded_inv_step)
  show "app_init E (fst c)" if "seeded_init E seed c" for c using that by (auto simp: seeded_init_def)
  show "fst c' = fst c \<or> app_step E (fst c) (fst c')" if "seeded_step E c c'" for c c'
    using seeded_app_step [OF that] ..
qed

section \<open>Properties\<close>

text \<open>C37: Every draw is accounted for. In every run of the program with its random engine, the engine is where
  drawing the accepted blocks, and at most one more, has brought it from the seed; the one more is
  the block the producer is about to push, or one it held when it ended. So up to its end the
  producer loses nothing it has sampled, and at its end at most one block.\<close>

theorem every_draw_accounted:
  assumes "reaches (seeded_init E seed) (seeded_step E) (a, e)"
  shows "\<exists>lost. length lost \<le> 1
    \<and> sample_blocks (p_draw E) (length (accepted (h_in a) @ lost)) seed = (map sig_samples (accepted (h_in a) @ lost), e)
    \<and> (lost = [] \<or> (\<exists>nd sig. producer_pc a = Some (PPush nd sig) \<and> lost = [sig])
         \<or> producer_pc a = Some PDone \<or> (\<exists>u. producer_pc a = Some (PUnwind u)))"
proof -
  obtain lost where lost: "awaiting (producer_pc a) lost"
    "sample_blocks (p_draw E) (length (accepted (h_in a) @ lost)) seed = (map sig_samples (accepted (h_in a) @ lost), e)"
    using seeded.reaches_invar [OF assms] by (auto simp: seeded_inv_def sampled_inv_def)
  moreover have "lost = [] \<or> (\<exists>nd sig. producer_pc a = Some (PPush nd sig) \<and> lost = [sig])
      \<or> producer_pc a = Some PDone \<or> (\<exists>u. producer_pc a = Some (PUnwind u))"
    using lost(1) by (cases "(producer_pc a, lost)" rule: awaiting.cases) auto
  ultimately show ?thesis using awaiting_length by blast
qed


lemma sampling_step:
  assumes "app_step E a a'" and "producer_pc a = Some (PSample nd)" and "producer_pc a' = Some (PPush nd' sig)"
  obtains t e e' where "nd' = nd" and "generateSignal (p_draw E) t e = (sig, e')"
    and "a' = a\<lparr>producer_pc := Some (PPush nd sig), sh := on_heartbeat 0 (markRunning t) (sh a)\<rparr>"
  using assms(1)
proof (cases rule: app_step.cases)
  case (st_producer p ev p' s')
  from st_producer(3,1,2) assms(2,3) that show ?thesis by (cases rule: producer_step.cases) auto
next
  case st_main
  then show ?thesis using assms(2,3) by (cases rule: main_step.cases) auto
qed (use assms(2,3) in auto)

text \<open>With an engine that has only one state, every run is a run from the seed.\<close>

lemma demo_seeded:
  assumes "reaches (app_init demo) (app_step demo) a"
  shows "reaches (seeded_init demo ()) (seeded_step demo) (a, ())"
  using assms
proof (induction rule: reaches.induct)
  case (reaches_init a)
  then show ?case by (intro reaches.reaches_init) (simp add: seeded_init_def)
next
  case (reaches_step a a')
  have "seeded_step demo (a, ()) (a', ())"
  proof (cases "(\<exists>nd. producer_pc a = Some (PSample nd)) \<and> (\<exists>nd sig. producer_pc a' = Some (PPush nd sig))")
    case True
    then obtain nd nd' sig where pcs: "producer_pc a = Some (PSample nd)" "producer_pc a' = Some (PPush nd' sig)" by blast
    show ?thesis
      by (rule sampling_step [OF reaches_step(2) pcs]) (auto intro: sd_sample [OF pcs(1)])
  next
    case False
    with reaches_step(2) show ?thesis by (intro sd_other) auto
  qed
  with reaches_step.IH show ?case by (rule reaches.reaches_step)
qed


theorem every_draw_accounted_witness:
  "\<exists>a (lost :: nat radar_signal list). reaches (seeded_init demo ()) (seeded_step demo) (a, ()) \<and> accepted (h_in a) = [demo_signal]
     \<and> length lost \<le> 1
     \<and> sample_blocks (p_draw demo) (Suc (length lost)) () = (sig_samples demo_signal # map sig_samples lost, ())"
proof -
  obtain a where a: "reaches (app_init demo) (app_step demo) a" "accepted (h_in a) = [demo_signal]"
    by (rule demo_reaches)
  note run = demo_seeded [OF a(1)]
  from every_draw_accounted [OF run] obtain lost where "length lost \<le> 1" "sample_blocks (p_draw demo)
      (length (accepted (h_in a) @ lost)) () = (map sig_samples (accepted (h_in a) @ lost), ())"
    by blast
  with a(2) run show ?thesis
    by (intro exI [of _ a] exI [of _ lost]) (simp del: sample_blocks.simps)
qed

end
