(* ===== verification/Radar_Timing.thy ===== *)
theory Radar_Timing
  imports Watchdog_Monitor Signal_Handler
begin

text \<open>
  How late the two polling loops of the program notice what they poll for. The watchdog
  (\<^verbatim>\<open>Watchdog::scanLoop\<close>) waits for its interval and scans; the main thread
  (\<^verbatim>\<open>SignalHandler::waitForShutdown\<close>) tests the token and waits in the kernel for at most the
  configured interval. The delays of scheduling and of the work itself are parameters, bounded by
  \<open>slack\<close>; the locale \<open>periodic\<close> is what both loops rely on.
\<close>

section \<open>Instants that come again within a bounded gap\<close>

locale periodic =
  fixes t :: "nat \<Rightarrow> time_point" and gap :: duration
  assumes later: "t n < t (Suc n)"
    and soon: "t (Suc n) \<le> t n + gap"
begin

lemma grows: "t 0 + int n \<le> t n"
proof (induction n)
  case (Suc n)
  with later [of n] show ?case by simp
qed simp

lemma ordered_instants: "m < n \<Longrightarrow> t m < t n"
  by (induction n rule: less_induct) (metis later lift_Suc_mono_less)

text \<open>The first instant at or after a moment comes less than one gap later.\<close>

lemma first_instant:
  assumes "t 0 < x + gap"
  obtains n where "x \<le> t n" and "t n < x + gap" and "\<And>m. m < n \<Longrightarrow> t m < x"
proof -
  define n where "n = (LEAST n. x \<le> t n)"
  have "x \<le> t (nat (x - t 0))" using grows [of "nat (x - t 0)"] by linarith
  then have n: "x \<le> t n" unfolding n_def by (rule LeastI)
  have before: "t m < x" if "m < n" for m using not_less_Least [OF that [unfolded n_def]] by simp
  have "t n < x + gap"
  proof (cases n)
    case (Suc m)
    with before [of m] soon [of m] show ?thesis by simp
  qed (use assms in simp)
  from that [OF n this before] show thesis .
qed

end

section \<open>The scans of the watchdog\<close>

text \<open>
  The instants at which the scans read the clock, for a loop entered at \<open>entered\<close>: before each scan
  the loop waits for the interval; \<open>late n\<close> is what the scan before it took and how much later than
  asked for the wait returned.
\<close>

primrec scan_time :: "config \<Rightarrow> (nat \<Rightarrow> duration) \<Rightarrow> time_point \<Rightarrow> nat \<Rightarrow> time_point" where
  "scan_time cfg late entered 0 = entered + scan_interval_of cfg + late 0"
| "scan_time cfg late entered (Suc n) = scan_time cfg late entered n + scan_interval_of cfg + late (Suc n)"

locale scan_schedule =
  fixes cfg :: config and late :: "nat \<Rightarrow> duration" and entered :: time_point and slack :: duration
  assumes interval_pos: "0 < scanInterval (watchdog cfg)"
    and late_bounds: "0 \<le> late n" "late n \<le> slack"
begin

lemma interval_ns_pos: "0 < scan_interval_of cfg"
  using interval_pos by (simp add: scan_interval_of_def of_ms_def ns_per_ms_def)

end

sublocale scan_schedule \<subseteq> scans: periodic "scan_time cfg late entered" "scan_interval_of cfg + slack"
proof unfold_locales
  fix n
  show "scan_time cfg late entered n < scan_time cfg late entered (Suc n)"
    using interval_ns_pos late_bounds(1) [of "Suc n"] by simp
  show "scan_time cfg late entered (Suc n) \<le> scan_time cfg late entered n + (scan_interval_of cfg + slack)"
    using late_bounds(2) [of "Suc n"] by simp
qed

context scan_schedule
begin

text \<open>A moment is followed by a scan within the interval and the slack.\<close>

lemma first_scan:
  assumes "entered < x"
  obtains n where "x \<le> scan_time cfg late entered n"
    and "scan_time cfg late entered n < x + scan_interval_of cfg + slack"
    and "\<And>m. m < n \<Longrightarrow> scan_time cfg late entered m < x"
proof -
  have "scan_time cfg late entered 0 < x + (scan_interval_of cfg + slack)"
    using assms late_bounds(2) [of 0] by simp
  then show thesis using that scans.first_instant [of x] by (metis add.assoc)
qed

end

section \<open>The turns of the main wait\<close>

text \<open>The instants at which the loop tests the token: \<open>spent n\<close> is the time of turn \<open>n\<close>.\<close>

primrec turn_time :: "(nat \<Rightarrow> duration) \<Rightarrow> time_point \<Rightarrow> nat \<Rightarrow> time_point" where
  "turn_time spent entered 0 = entered"
| "turn_time spent entered (Suc n) = turn_time spent entered n + spent n"

text \<open>The time the kernel is asked to wait for at most.\<close>

definition timeout_ns :: "int \<times> int \<Rightarrow> duration" where
  "timeout_ns ts = fst ts * 1000000000 + snd ts"

locale wait_schedule =
  fixes cfg :: config and spent :: "nat \<Rightarrow> duration" and entered :: time_point and slack :: duration
  assumes spent_bounds: "0 < spent n" "spent n \<le> timeout_ns (poll_timeout cfg) + slack"

sublocale wait_schedule \<subseteq> turns: periodic "turn_time spent entered" "timeout_ns (poll_timeout cfg) + slack"
  by unfold_locales (use spent_bounds in auto)

context wait_schedule
begin

lemma first_turn:
  assumes "entered \<le> x"
  obtains n where "x \<le> turn_time spent entered n"
    and "turn_time spent entered n < x + timeout_ns (poll_timeout cfg) + slack"
    and "\<And>m. m < n \<Longrightarrow> turn_time spent entered m < x"
proof -
  have "turn_time spent entered 0 < x + (timeout_ns (poll_timeout cfg) + slack)"
    using assms spent_bounds [of 0] by simp
  then show thesis using that turns.first_instant [of x] by (metis add.assoc)
qed

end

section \<open>Properties\<close>

lemma timeout_ns_exact:
  assumes "0 \<le> pollInterval (signal cfg)"
  shows "timeout_ns (poll_timeout cfg) = of_ms (pollInterval (signal cfg))"
  using assms by (simp add: timeout_ns_def poll_timeout_def of_ms_def ns_per_ms_def Let_def)

lemma stalled_at_nth:
  assumes "k < length reg" and "reg ! k = (name, hb)" and "is_stalled timeout now hb"
  shows "stall_record name (now - hb_timestamp hb) now \<in> set (records_of now (stalled_entries timeout now reg))"
  using assms nth_mem [OF assms(1)] by (force simp: records_of_def stalled_entries_def)


lemma length_records_of [simp]: "length (records_of now es) = length es"
  by (simp add: records_of_def)

lemma scan_effect:
  fixes s :: "'f shared"
  assumes "q_policy (outputQueue s) \<noteq> Block"
  obtains s' tr where "scanOnce cfg now s = Returns s'"
    and "run_ops (map Push (records_of now (stalled_entries (timeout_of cfg) now (heartbeatRegistry s)))) (outputQueue s)
      = Some (tr, outputQueue s')"
    and "m_watchdogStalls (sh_metrics s') = m_watchdogStalls (sh_metrics s)
      + of_nat (length (records_of now (stalled_entries (timeout_of cfg) now (heartbeatRegistry s)) :: 'f log_record list))"
    and "escalateToShutdown (watchdog cfg)
      \<Longrightarrow> records_of now (stalled_entries (timeout_of cfg) now (heartbeatRegistry s)) \<noteq> ([] :: 'f log_record list)
      \<Longrightarrow> shutdownRequested (shutdownToken s')"
  using scan_from [OF assms, of now "timeout_of cfg" "heartbeatRegistry s" False]
  by (auto simp: scanOnce_def request_shutdown_def records_of_def)

text \<open>C20: A stalled thread is reported in time and not too early. Suppose a thread marked its heartbeat
  Running at time T and never touched it again, and the watchdog entered its loop no later than T
  plus the timeout. Then some scan that reads the clock after T plus the timeout, but no later than
  one scan interval and the scheduling slack after that, pushes a stall record with the thread's
  name and age, counts it, and requests shutdown if escalation is configured; and no earlier
  scan finds the thread stalled.\<close>

theorem stall_reported_in_time:
  fixes s :: "nat \<Rightarrow> 'f shared"
  assumes "0 < scanInterval (watchdog cfg)" and "\<forall>n. 0 \<le> late n \<and> late n \<le> slack"
    and "entered \<le> T + timeout_of cfg"
    and "\<forall>n. q_policy (outputQueue (s n)) \<noteq> Block"
    and "\<forall>n. T \<le> scan_time cfg late entered n \<longrightarrow> k < length (heartbeatRegistry (s n))
        \<and> heartbeatRegistry (s n) ! k = (name, \<lparr>hb_timestamp = T, hb_state = Running\<rparr>)"
    and "0 \<le> livenessTimeout (watchdog cfg)"
  shows "\<exists>n s' tr. let now = scan_time cfg late entered n;
        rs = records_of now (stalled_entries (timeout_of cfg) now (heartbeatRegistry (s n))) in
      T + timeout_of cfg < now \<and> now \<le> T + timeout_of cfg + scan_interval_of cfg + slack
    \<and> scanOnce cfg now (s n) = Returns s'
    \<and> stall_record name (now - T) now \<in> set rs
    \<and> run_ops (map Push rs) (outputQueue (s n)) = Some (tr, outputQueue s')
    \<and> m_watchdogStalls (sh_metrics s') = m_watchdogStalls (sh_metrics (s n)) + of_nat (length rs)
    \<and> (escalateToShutdown (watchdog cfg) \<longrightarrow> shutdownRequested (shutdownToken s'))
    \<and> (\<forall>m < n. \<not> is_stalled (timeout_of cfg) (scan_time cfg late entered m) \<lparr>hb_timestamp = T, hb_state = Running\<rparr>)"
proof -
  let ?t = "scan_time cfg late entered"
  have schedule: "scan_schedule cfg late slack" using assms(1,2) by (simp add: scan_schedule_def)
  have "entered < T + timeout_of cfg + 1" using assms(3) by simp
  then obtain n where n: "T + timeout_of cfg + 1 \<le> ?t n" "?t n < T + timeout_of cfg + 1 + scan_interval_of cfg + slack"
    and before: "\<And>m. m < n \<Longrightarrow> ?t m < T + timeout_of cfg + 1"
    by (rule scan_schedule.first_scan [OF schedule]) blast
  have "0 \<le> timeout_of cfg" using assms(6) by (simp add: timeout_of_def of_ms_def ns_per_ms_def)
  with n(1) assms(5) have k: "k < length (heartbeatRegistry (s n))"
    "heartbeatRegistry (s n) ! k = (name, \<lparr>hb_timestamp = T, hb_state = Running\<rparr>)" by auto
  define rs where "rs = (records_of (?t n) (stalled_entries (timeout_of cfg) (?t n) (heartbeatRegistry (s n))) :: 'f log_record list)"
  have "is_stalled (timeout_of cfg) (?t n) \<lparr>hb_timestamp = T, hb_state = Running\<rparr>"
    using n(1) by (simp add: is_stalled_def)
  then have reported: "stall_record name (?t n - T) (?t n) \<in> set rs"
    using stalled_at_nth [OF k] by (simp add: rs_def)
  obtain s' tr where s': "scanOnce cfg (?t n) (s n) = Returns s'" "run_ops (map Push rs) (outputQueue (s n)) = Some (tr, outputQueue s')"
    "m_watchdogStalls (sh_metrics s') = m_watchdogStalls (sh_metrics (s n)) + of_nat (length rs)"
    "escalateToShutdown (watchdog cfg) \<Longrightarrow> shutdownRequested (shutdownToken s')"
    using scan_effect [OF assms(4) [rule_format, of n], where cfg = cfg and now = "?t n"] reported
    unfolding rs_def by (metis length_pos_if_in_set less_numeral_extra(3) list.size(3))
  have early: "\<not> is_stalled (timeout_of cfg) (?t m) \<lparr>hb_timestamp = T, hb_state = Running\<rparr>" if "m < n" for m
    using before [OF that] by (simp add: is_stalled_def)
  show ?thesis
    unfolding Let_def
  proof (intro exI conjI)
    show "(stall_record name (?t n - T) (?t n) :: 'f log_record) \<in> set (records_of (?t n) (stalled_entries (timeout_of cfg) (?t n) (heartbeatRegistry (s n))))"
      using reported by (simp only: rs_def)
  qed (use n early s' in \<open>auto simp: rs_def\<close>)
qed

text \<open>The default configuration, scans that are one millisecond late, and the state of \<open>one_stall\<close>.\<close>

interpretation default_scans: scan_schedule default_config "\<lambda>_. 1000000" 0 1000000
  by unfold_locales (simp_all add: default_config_def)

theorem stall_reported_in_time_witness:
  "\<exists>n s'. 500000000 < scan_time default_config (\<lambda>_. 1000000) 0 n
     \<and> scan_time default_config (\<lambda>_. 1000000) 0 n \<le> 601000000
     \<and> scanOnce default_config (scan_time default_config (\<lambda>_. 1000000) 0 n) one_stall = Returns s'"
proof -
  have d: "timeout_of default_config = 500000000" "scan_interval_of default_config = 100000000"
    "0 < scanInterval (watchdog default_config)" "0 \<le> livenessTimeout (watchdog default_config)"
    by (simp_all add: timeout_of_def scan_interval_of_def default_config_def of_ms_def ns_per_ms_def)
  have "\<forall>n. q_policy (outputQueue one_stall) \<noteq> Block"
    "\<forall>n. 0 \<le> scan_time default_config (\<lambda>_. 1000000) 0 n \<longrightarrow> 0 < length (heartbeatRegistry one_stall)
      \<and> heartbeatRegistry one_stall ! 0 = (''a'', \<lparr>hb_timestamp = 0, hb_state = Running\<rparr>)" by simp_all
  from stall_reported_in_time [where late = "\<lambda>_. 1000000" and slack = 1000000, OF d(3) _ _ this d(4)] d show ?thesis
    by (auto simp: Let_def)
qed

text \<open>C34: The main thread notices a shutdown request within one poll interval. The seconds and nanoseconds
  handed to the kernel are in range and add up to the configured interval. If the token is set by
  another thread at time T, after the wait has begun, and the turns before that were idle, then the
  wait goes on until the first turn that begins at or after T and returns there, and this turn
  begins less than the interval and the scheduling slack after T.\<close>

theorem shutdown_noticed_in_time:
  assumes "0 \<le> pollInterval (signal cfg)" and "\<forall>n. 0 < spent n \<and> spent n \<le> timeout_ns (poll_timeout cfg) + slack"
    and "entered \<le> T" and "\<not> shutdownRequested tok"
    and "\<forall>n. if T \<le> turn_time spent entered n then token_set_elsewhere (i n) else idle_turn (i n)"
  shows "0 \<le> fst (poll_timeout cfg) \<and> 0 \<le> snd (poll_timeout cfg) \<and> snd (poll_timeout cfg) < 1000000000
    \<and> timeout_ns (poll_timeout cfg) = of_ms (pollInterval (signal cfg))
    \<and> (\<exists>n. T \<le> turn_time spent entered n
         \<and> turn_time spent entered n < T + of_ms (pollInterval (signal cfg)) + slack
         \<and> waitForShutdown msg (map i [0 ..< n]) tok = (None, tok)
         \<and> waitForShutdown msg (map i [0 ..< Suc n]) tok = (Some (Inr ()), requestShutdown tok))"
proof -
  let ?t = "turn_time spent entered"
  note exact = poll_timeout_exact [OF assms(1)]
  then have ns: "timeout_ns (poll_timeout cfg) = of_ms (pollInterval (signal cfg))"
    by (auto simp: timeout_ns_def split: prod.splits)
  have schedule: "wait_schedule cfg spent slack" using assms(2) by (simp add: wait_schedule_def)
  obtain n where n: "T \<le> ?t n" "?t n < T + timeout_ns (poll_timeout cfg) + slack"
    and before: "\<And>m. m < n \<Longrightarrow> ?t m < T"
    by (rule wait_schedule.first_turn [OF schedule assms(3)]) blast
  have idle: "list_all idle_turn (map i [0 ..< n])"
    unfolding list_all_length using assms(5) before by (fastforce simp: not_le)
  have "waitForShutdown msg (map i [0 ..< n]) tok = (None, tok)"
    using wait_idle [OF idle assms(4), of msg "[]"] assms(4) by simp
  moreover have "waitForShutdown msg (map i [0 ..< Suc n]) tok = (Some (Inr ()), requestShutdown tok)"
    using wait_idle [OF idle assms(4), of msg "[i n]"] assms(5) n(1) by (simp add: Let_def)
  ultimately show ?thesis using n ns exact by (auto split: prod.splits)
qed

text \<open>The default configuration: every turn takes the interval, another thread stops the program after 250 ms.\<close>

interpretation default_turns: wait_schedule default_config "\<lambda>_. 100000000" 0 0
  by unfold_locales (simp_all add: timeout_ns_exact default_config_def of_ms_def ns_per_ms_def)

definition sample_turns :: "nat \<Rightarrow> poll_input" where
  "sample_turns n = \<lparr>token_set_elsewhere = 2 < n, poll_ready = 0, poll_errno = 0, poll_in = False,
     read_bytes = 0, read_errno = 0\<rparr>"

lemma constant_turns: "turn_time (\<lambda>_. d) 0 n = d * int n"
  by (induction n) (simp_all add: algebra_simps)

theorem shutdown_noticed_in_time_witness:
  "\<exists>n. 250000000 \<le> turn_time (\<lambda>_. 100000000) 0 n \<and> turn_time (\<lambda>_. 100000000) 0 n < 350000000
     \<and> waitForShutdown (\<lambda>_. []) (map sample_turns [0 ..< Suc n]) new_token = (Some (Inr ()), requestShutdown new_token)"
proof -
  have p: "0 \<le> pollInterval (signal default_config)" "of_ms (pollInterval (signal default_config)) = 100000000"
    by (simp_all add: default_config_def of_ms_def ns_per_ms_def)
  have "\<forall>n. 0 < (100000000::duration) \<and> 100000000 \<le> timeout_ns (poll_timeout default_config) + 0"
    using p by (simp add: timeout_ns_exact)
  moreover have "\<forall>n. if 250000000 \<le> turn_time (\<lambda>_. 100000000) 0 n then token_set_elsewhere (sample_turns n)
      else idle_turn (sample_turns n)"
    by (simp add: constant_turns sample_turns_def idle_turn_def)
  ultimately show ?thesis
    using shutdown_noticed_in_time [OF p(1), of "\<lambda>_. 100000000" 0 0 250000000 new_token sample_turns "\<lambda>_. []"] p(2)
    by auto
qed

end
