(* ===== verification/Time_Width.thy ===== *)
theory Time_Width
  imports Radar_Producer Thread_Pool Radar_Timing Radar_Clock
    "HOL-Library.Monad_Syntax"
begin

text \<open>
  The width of the time arithmetic. Time points and durations are signed 64-bit counts in the
  program, and an operation whose result does not fit is undefined behaviour; the other theories
  compute with integers. Here every computation on times is written again with checked operations,
  \<open>None\<close> being an overflow, and shown to return what the integers give: for configured durations and
  clock readings within stated bounds, which leave some 146 years of uptime.
\<close>

section \<open>Checked operations\<close>

definition fits :: "int \<Rightarrow> int option" where
  "fits x = (if int64_range x then Some x else None)"

definition add64 :: "int \<Rightarrow> int \<Rightarrow> int option" where "add64 a b = fits (a + b)"
definition sub64 :: "int \<Rightarrow> int \<Rightarrow> int option" where "sub64 a b = fits (a - b)"
definition mul64 :: "int \<Rightarrow> int \<Rightarrow> int option" where "mul64 a b = fits (a * b)"

section \<open>The computations of the program\<close>

text \<open>The end of an iteration of the producer, and its iterations one after the other.\<close>

definition next_deadline64 :: "duration \<Rightarrow> time_point \<Rightarrow> time_point \<Rightarrow> (duration option \<times> time_point) option" where
  "next_deadline64 period nextDeadline now = do {
     nextDeadline \<leftarrow> add64 nextDeadline period;
     remaining \<leftarrow> sub64 nextDeadline now;
     Some (if remaining \<le> 0 then (None, now) else (Some remaining, nextDeadline))
   }"

fun deadlines64 :: "duration \<Rightarrow> time_point \<Rightarrow> time_point list \<Rightarrow> (duration option list \<times> time_point) option" where
  "deadlines64 period nd [] = Some ([], nd)"
| "deadlines64 period nd (now # nows) = do {
     (r, nd1) \<leftarrow> next_deadline64 period nd now;
     (rs, nd2) \<leftarrow> deadlines64 period nd1 nows;
     Some (r # rs, nd2)
   }"

definition schedule64 :: "config \<Rightarrow> time_point \<Rightarrow> time_point list \<Rightarrow> (duration option list \<times> time_point) option" where
  "schedule64 cfg start nows = do {
     period \<leftarrow> mul64 (samplePeriod (producer cfg)) ns_per_us;
     deadlines64 period start nows
   }"

text \<open>A scan of the watchdog.\<close>

definition scan_visitor64 :: "duration \<Rightarrow> time_point \<Rightarrow> string \<Rightarrow> heartbeat
    \<Rightarrow> (bool \<times> 'f shared) outcome option \<Rightarrow> (bool \<times> 'f shared) outcome option" where
  "scan_visitor64 timeout now name hb r =
     (case r of
        None \<Rightarrow> None
      | Some Waits \<Rightarrow> Some Waits
      | Some (Returns (stallDetected, s)) \<Rightarrow>
          (if hb_state hb \<noteq> Running then Some (Returns (stallDetected, s))
           else do {
             age \<leftarrow> sub64 now (hb_timestamp hb);
             Some (if age \<le> timeout then Returns (stallDetected, s)
                   else (case reportStall name age now s of
                           Waits \<Rightarrow> Waits | Returns s' \<Rightarrow> Returns (True, s')))
           }))"

definition scanOnce64 :: "config \<Rightarrow> time_point \<Rightarrow> 'f shared \<Rightarrow> 'f shared outcome option" where
  "scanOnce64 cfg now s = do {
     timeout \<leftarrow> mul64 (livenessTimeout (watchdog cfg)) ns_per_ms;
     r \<leftarrow> forEach (scan_visitor64 timeout now) (heartbeatRegistry s) (Some (Returns (False, s)));
     Some (case r of
             Waits \<Rightarrow> Waits
           | Returns (stallDetected, s') \<Rightarrow>
               Returns (if stallDetected \<and> escalateToShutdown (watchdog cfg) then request_shutdown s' else s'))
   }"

text \<open>The latency a worker records, and the kernel timeout of the main wait.\<close>

definition latency64 :: "'f processed_signal \<Rightarrow> time_point \<Rightarrow> metrics \<Rightarrow> metrics option" where
  "latency64 res now m = do { latency \<leftarrow> sub64 now (ps_timestamp res); Some (recordProcessingLatency latency m) }"

definition poll_timeout64 :: "config \<Rightarrow> (int \<times> int) option" where
  "poll_timeout64 cfg = do {
     let interval = pollInterval (signal cfg);
     let seconds = tdiv interval 1000;
     whole \<leftarrow> mul64 seconds 1000;
     rest \<leftarrow> sub64 interval whole;
     nanoseconds \<leftarrow> mul64 rest ns_per_ms;
     Some (seconds, nanoseconds)
   }"

section \<open>Within the bounds nothing overflows\<close>

text \<open>The clock readings considered: \<^verbatim>\<open>2^62\<close> nanoseconds since the clock's epoch are 146 years.\<close>

definition reading :: "time_point \<Rightarrow> bool" where
  "reading t \<longleftrightarrow> 0 \<le> t \<and> t < 2 ^ 62"

text \<open>
  The readings at the ends of the producer's iterations: a wait for the remaining time does not
  return before the deadline (unless shutdown ends the loop), so each is at or after the deadline in
  force.
\<close>

fun waited :: "duration \<Rightarrow> time_point \<Rightarrow> time_point list \<Rightarrow> bool" where
  "waited period nd [] \<longleftrightarrow> True"
| "waited period nd (now # nows) \<longleftrightarrow> nd \<le> now \<and> waited period (snd (next_deadline period nd now)) nows"

definition times_in_range :: "config \<Rightarrow> bool" where
  "times_in_range cfg \<longleftrightarrow> 0 \<le> samplePeriod (producer cfg) \<and> period_of cfg < 2 ^ 62
     \<and> 0 \<le> livenessTimeout (watchdog cfg) \<and> timeout_of cfg < 2 ^ 63 \<and> int64_range (pollInterval (signal cfg))"

lemma fits_in_range: "int64_range x \<Longrightarrow> fits x = Some x"
  by (simp add: fits_def)

lemmas checked = add64_def sub64_def mul64_def fits_in_range

lemma reading_diff: "reading a \<Longrightarrow> reading b \<Longrightarrow> sub64 a b = Some (a - b)"
  by (simp add: sub64_def fits_def int64_range_def reading_def)

lemma next_deadline64_exact:
  assumes "0 \<le> period" "period < 2 ^ 62" "reading now" "0 \<le> nd" "nd \<le> now"
  shows "next_deadline64 period nd now = Some (next_deadline period nd now)"
  using assms by (simp add: next_deadline64_def next_deadline_def checked int64_range_def reading_def Let_def)

lemma deadlines64_exact:
  assumes "0 \<le> period" "period < 2 ^ 62" "list_all reading nows" "0 \<le> nd" "waited period nd nows"
  shows "deadlines64 period nd nows = Some (schedule period nd nows)
    \<and> list_all (case_option True (\<lambda>d. 0 < d \<and> d \<le> period)) (fst (schedule period nd nows))"
  using assms
proof (induction nows arbitrary: nd)
  case (Cons now nows)
  obtain r nd1 where step: "next_deadline period nd now = (r, nd1)" by fastforce
  moreover have "0 \<le> nd1" "case_option True (\<lambda>d. 0 < d \<and> d \<le> period) r"
    using Cons.prems step by (auto simp: next_deadline_def reading_def Let_def split: if_splits)
  ultimately show ?case
    using Cons.IH [of nd1] Cons.prems next_deadline64_exact [of period now nd]
    by (auto simp: split: prod.splits)
qed simp

lemma scan_visitor64_exact:
  assumes "hb_state hb = Running \<longrightarrow> reading (hb_timestamp hb)" and "reading now"
  shows "scan_visitor64 timeout now name hb (Some r) = Some (scan_visitor timeout now name hb r)"
  using assms reading_diff [OF assms(2)]
  by (cases r) (auto simp: scan_visitor64_def scan_visitor_def Let_def)

lemma forEach64_exact:
  assumes "\<forall>(n, hb) \<in> set reg. hb_state hb = Running \<longrightarrow> reading (hb_timestamp hb)" and "reading now"
  shows "forEach (scan_visitor64 timeout now) reg (Some r) = Some (forEach (scan_visitor timeout now) reg r)"
  using assms(1)
  by (induction reg arbitrary: r) (auto simp: forEach_def scan_visitor64_exact assms(2))

lemma scanOnce64_exact:
  assumes "times_in_range cfg" and "reading now"
    and "\<forall>(n, hb) \<in> set (heartbeatRegistry s). hb_state hb = Running \<longrightarrow> reading (hb_timestamp hb)"
  shows "scanOnce64 cfg now s = Some (scanOnce cfg now s)"
proof -
  have "mul64 (livenessTimeout (watchdog cfg)) ns_per_ms = Some (timeout_of cfg)"
    using assms(1) by (simp add: times_in_range_def timeout_of_def of_ms_def checked int64_range_def ns_per_ms_def)
  moreover have "forEach (scan_visitor64 (timeout_of cfg) now) (heartbeatRegistry s) (Some (Returns (False, s)))
      = Some (forEach (scan_visitor (timeout_of cfg) now) (heartbeatRegistry s) (Returns (False, s)))"
    by (rule forEach64_exact [OF assms(3,2)])
  ultimately show ?thesis by (simp add: scanOnce64_def scanOnce_def)
qed

lemma poll_timeout64_exact:
  assumes "int64_range (pollInterval (signal cfg))"
  shows "poll_timeout64 cfg = Some (poll_timeout cfg)"
proof -
  define i where "i = pollInterval (signal cfg)"
  define w where "w = tdiv i 1000 * 1000"
  have rest: "- 1000 < i - w" "i - w < 1000" and "\<bar>w\<bar> \<le> \<bar>i\<bar>" "0 \<le> i \<Longrightarrow> 0 \<le> w" "i < 0 \<Longrightarrow> w \<le> 0"
    by (auto simp: w_def tdiv_def)
  with assms have "int64_range w" "int64_range (i - w)"
    unfolding int64_range_def i_def [symmetric] by linarith+
  moreover have "int64_range ((i - w) * ns_per_ms)"
    using rest by (simp add: int64_range_def ns_per_ms_def)
  ultimately show ?thesis
    by (simp add: poll_timeout64_def poll_timeout_def checked Let_def of_ms_def flip: i_def w_def)
qed

section \<open>Properties\<close>

text \<open>C31: The time arithmetic of the program stays within 64 bits. For clock readings up to \<^verbatim>\<open>2^62\<close> nanoseconds
  and configured durations in range, and as long as a timed wait does not return early, no
  computation on times overflows: the producer's deadlines, the watchdog's scans, the recorded
  latencies and the kernel timeout are exactly those of the integers, and the producer never waits
  longer than one period.\<close>

theorem time_arithmetic_fits:
  assumes "times_in_range cfg" and "reading start" and "list_all reading nows" and "waited (period_of cfg) start nows"
    and "reading now" and "reading (ps_timestamp res)"
    and "\<forall>(n, hb) \<in> set (heartbeatRegistry s). hb_state hb = Running \<longrightarrow> reading (hb_timestamp hb)"
  shows "schedule64 cfg start nows = Some (schedule (period_of cfg) start nows)
    \<and> list_all (case_option True (\<lambda>d. 0 < d \<and> d \<le> period_of cfg)) (fst (schedule (period_of cfg) start nows))
    \<and> scanOnce64 cfg now s = Some (scanOnce cfg now s)
    \<and> latency64 res now m = Some (recordProcessingLatency (now - ps_timestamp res) m)
    \<and> poll_timeout64 cfg = Some (poll_timeout cfg)"
proof -
  have range: "0 \<le> period_of cfg" "period_of cfg < 2 ^ 62"
    using assms(1) by (simp_all add: times_in_range_def period_of_def of_us_def ns_per_us_def)
  then have "mul64 (samplePeriod (producer cfg)) ns_per_us = Some (period_of cfg)"
    by (simp add: period_of_def of_us_def checked int64_range_def)
  then have "schedule64 cfg start nows = deadlines64 (period_of cfg) start nows"
    by (simp add: schedule64_def)
  with deadlines64_exact [OF range assms(3) _ assms(4)] assms scanOnce64_exact [of cfg now s]
    poll_timeout64_exact [of cfg] reading_diff [of now "ps_timestamp res"]
  show ?thesis by (simp add: latency64_def reading_def times_in_range_def)
qed

text \<open>The default configuration, after the longest uptime considered.\<close>

theorem time_arithmetic_fits_witness:
  "schedule64 default_config (2 ^ 62 - 3000000) [2 ^ 62 - 2500000, 2 ^ 62 - 900000, 2 ^ 62 - 800000]
     = Some ([Some 500000, None, Some 900000], 2 ^ 62 + 100000)
   \<and> scanOnce64 default_config (2 ^ 62 - 1) one_stall = Some (scanOnce default_config (2 ^ 62 - 1) one_stall)
   \<and> poll_timeout64 default_config = Some (0, 100000000)"
proof -
  let ?res = "\<lparr>ps_timestamp = 0, ps_targetDetected = False, ps_peakMagnitude = 0\<rparr> :: nat processed_signal"
  have "times_in_range default_config" "reading (2 ^ 62 - 3000000)"
    "list_all reading [2 ^ 62 - 2500000, 2 ^ 62 - 900000, 2 ^ 62 - 800000]"
    "waited (period_of default_config) (2 ^ 62 - 3000000) [2 ^ 62 - 2500000, 2 ^ 62 - 900000, 2 ^ 62 - 800000]"
    "reading (2 ^ 62 - 1)" "reading (ps_timestamp ?res)"
    "\<forall>(n, hb) \<in> set (heartbeatRegistry one_stall). hb_state hb = Running \<longrightarrow> reading (hb_timestamp hb)"
    by (simp_all add: times_in_range_def period_of_def timeout_of_def of_us_def of_ms_def ns_per_us_def ns_per_ms_def
        default_config_def reading_def int64_range_def next_deadline_def)
  from time_arithmetic_fits [OF this, of new_metrics] show ?thesis
    by (simp add: period_of_def of_us_def ns_per_us_def default_config_def next_deadline_def poll_timeout_def tdiv_def
        of_ms_def ns_per_ms_def)
qed

text \<open>The bound on the timeout is needed: a larger one, meant as never, overflows in every scan.\<close>

lemma huge_timeout_overflows:
  assumes "2 ^ 63 \<le> timeout_of cfg"
  shows "scanOnce64 cfg now s = None"
  using assms by (simp add: scanOnce64_def mul64_def fits_def int64_range_def timeout_of_def of_ms_def)

end
