(* ===== verification/Solo_Threads.thy ===== *)
theory Solo_Threads
  imports Radar_Logger Watchdog_Monitor
begin

text \<open>
  The loops of the watchdog and of the logger are described twice: as functions that follow the
  source (\<open>scanOnce\<close>, \<open>drainLoop\<close>) and as step relations, which allow the other threads in between.
  Here the two are connected: left alone, the thread does what the function computes.
\<close>

section \<open>A thread left alone\<close>

text \<open>A step without an exception.\<close>

definition solo :: "('f event \<Rightarrow> 'p \<times> 'f shared \<Rightarrow> 'p \<times> 'f shared \<Rightarrow> bool) \<Rightarrow> 'p \<times> 'f shared \<Rightarrow> 'p \<times> 'f shared \<Rightarrow> bool" where
  "solo thread c d \<longleftrightarrow> (\<exists>ev. ev \<noteq> Threw \<and> thread ev c d)"

lemma solo_then: "thread ev c d \<Longrightarrow> ev \<noteq> Threw \<Longrightarrow> (solo thread)\<^sup>*\<^sup>* d e \<Longrightarrow> (solo thread)\<^sup>*\<^sup>* c e"
  by (metis solo_def converse_rtranclp_into_rtranclp)

lemmas logger_then = solo_then [where thread = "logger_step cfg sys show_float hb" for cfg sys show_float hb]

section \<open>The watchdog\<close>

text \<open>The watchdog during a scan; \<open>scan_run\<close> stops when the scan is over.\<close>

fun scanning :: "'f wpc \<Rightarrow> bool" where
  "scanning WdInit = False"
| "scanning WdSleep = False"
| "scanning (WdUnwind u) = False"
| "scanning WdDone = False"
| "scanning _ = True"

definition scan_run :: "config \<Rightarrow> os \<Rightarrow> 'f wpc \<times> 'f shared \<Rightarrow> 'f wpc \<times> 'f shared \<Rightarrow> bool" where
  "scan_run cfg sys c d \<longleftrightarrow> scanning (fst c) \<and> solo (watchdog_step cfg sys) c d"

lemma watchdog_then:
  "watchdog_step cfg sys ev (w, s) d \<Longrightarrow> scanning w \<Longrightarrow> ev \<noteq> Threw \<Longrightarrow> (scan_run cfg sys)\<^sup>*\<^sup>* d e
     \<Longrightarrow> (scan_run cfg sys)\<^sup>*\<^sup>* (w, s) e"
  by (metis scan_run_def solo_def converse_rtranclp_into_rtranclp fst_conv)

lemma reportStall_registry: "reportStall n age now s = Returns s' \<Longrightarrow> heartbeatRegistry s' = heartbeatRegistry s"
  by (auto simp: reportStall_def step_defs Let_def split: outcome.splits)

text \<open>One visit.\<close>

lemma watchdog_visit:
  assumes "k < length (heartbeatRegistry s)" and "heartbeatRegistry s ! k = (name, hb)"
    and "scan_visitor (timeout_of cfg) now name hb (Returns (b, s)) = Returns (b', s')"
    and rest: "(scan_run cfg sys)\<^sup>*\<^sup>* (WdState now (Suc k) b', s') e"
  shows "(scan_run cfg sys)\<^sup>*\<^sup>* (WdState now k b, s) e \<and> heartbeatRegistry s' = heartbeatRegistry s"
proof (cases "hb_state hb = Running")
  case False
  with assms have "b' = b" "s' = s" by (simp_all add: scan_visitor_def)
  with False assms show ?thesis by (auto intro: watchdog_then [OF wd_skip])
next
  case running: True
  note read = watchdog_then [OF wd_running [OF assms(1)]]
  show ?thesis
  proof (cases "now - hb_timestamp hb \<le> timeout_of cfg")
    case True
    with running assms have "b' = b" "s' = s" by (simp_all add: scan_visitor_def Let_def)
    with True running assms show ?thesis by (auto intro!: read watchdog_then [OF wd_fresh])
  next
    case False
    with running assms(3) have rep: "b'" "reportStall name (now - hb_timestamp hb) now s = Returns s'"
      by (auto simp: scan_visitor_def Let_def split: outcome.splits)
    then obtain st q where push: "push (stall_record name (now - hb_timestamp hb) now) (outputQueue s) = Returns (st, q)"
      "s' = (on_metrics recordWatchdogStall s)\<lparr>outputQueue := q\<rparr>"
      by (auto simp: reportStall_def step_defs Let_def split: outcome.splits)
    have "(scan_run cfg sys)\<^sup>*\<^sup>* (WdPush (stall_record name (now - hb_timestamp hb) now) now k, on_metrics recordWatchdogStall s) e"
      using rest rep(1) push by (auto intro!: watchdog_then [OF wd_push] simp: step_defs)
    then have "(scan_run cfg sys)\<^sup>*\<^sup>* (WdCount (stall_record name (now - hb_timestamp hb) now) now k, s) e"
      by (rule watchdog_then [OF wd_count, rotated 2]) simp_all
    then have "(scan_run cfg sys)\<^sup>*\<^sup>* (WdAge now k b, s) e"
      by (rule watchdog_then [OF wd_stale [OF assms(1) refl], rotated 3, unfolded assms(2) fst_conv snd_conv]) (use False in simp_all)
    then show ?thesis
      using running assms(2) reportStall_registry [OF rep(2)] by (auto intro!: read)
  qed
qed

text \<open>The visits from the \<open>k\<close>-th heartbeat on.\<close>

lemma visitor_waits: "fold (\<lambda>(name, hb). scan_visitor timeout now name hb) reg Waits = Waits"
  by (induction reg) (auto simp: scan_visitor_def)

lemma watchdog_visits:
  assumes "forEach (scan_visitor (timeout_of cfg) now) (drop k (heartbeatRegistry s)) (Returns (b, s)) = Returns (b', s')"
    and "k \<le> length (heartbeatRegistry s)"
    and rest: "(scan_run cfg sys)\<^sup>*\<^sup>* (WdEscalate b', s') e"
  shows "(scan_run cfg sys)\<^sup>*\<^sup>* (WdState now k b, s) e"
  using assms(1,2)
proof (induction "length (heartbeatRegistry s) - k" arbitrary: k b s)
  case 0
  then show ?case using rest by (auto simp: forEach_def intro: watchdog_then [OF wd_end])
next
  case (Suc j)
  then have k: "k < length (heartbeatRegistry s)" by linarith
  obtain name hb where entry: "heartbeatRegistry s ! k = (name, hb)" by fastforce
  from Suc.prems(1) k entry have step: "forEach (scan_visitor (timeout_of cfg) now) (drop (Suc k) (heartbeatRegistry s))
      (scan_visitor (timeout_of cfg) now name hb (Returns (b, s))) = Returns (b', s')"
    by (simp add: forEach_def Cons_nth_drop_Suc [symmetric])
  then obtain b1 s1 where visit: "scan_visitor (timeout_of cfg) now name hb (Returns (b, s)) = Returns (b1, s1)"
    by (cases "scan_visitor (timeout_of cfg) now name hb (Returns (b, s))") (auto simp: forEach_def visitor_waits)
  have reg: "heartbeatRegistry s1 = heartbeatRegistry s"
    using watchdog_visit [OF k entry visit rtranclp.rtrancl_refl] by blast
  have "(scan_run cfg sys)\<^sup>*\<^sup>* (WdState now (Suc k) b1, s1) e"
    using Suc.hyps(2) k step visit reg by (intro Suc.hyps(1)) simp_all
  from watchdog_visit [OF k entry visit this] show ?case by blast
qed

lemma watchdog_solo_scan:
  assumes "scanOnce cfg now s = Returns s'"
  shows "(scan_run cfg sys)\<^sup>*\<^sup>* (WdState now 0 False, s) (WdSleep, s')"
proof -
  from assms obtain b s1 where visits: "forEach (scan_visitor (timeout_of cfg) now) (heartbeatRegistry s) (Returns (False, s)) = Returns (b, s1)"
    and s': "s' = (if b \<and> escalateToShutdown (watchdog cfg) then request_shutdown s1 else s1)"
    by (auto simp: scanOnce_def split: outcome.splits)
  have "(scan_run cfg sys)\<^sup>*\<^sup>* (WdEscalate b, s1) (WdSleep, s')"
    unfolding s' by (rule watchdog_then [OF wd_escalate]) simp_all
  with visits show ?thesis by (intro watchdog_visits) simp_all
qed

text \<open>During a scan the thread has no choice.\<close>

inductive_cases watchdog_scan_stepE:
  "watchdog_step cfg sys ev (WdState now k b, s) d" "watchdog_step cfg sys ev (WdAge now k b, s) d"
  "watchdog_step cfg sys ev (WdCount r now k, s) d" "watchdog_step cfg sys ev (WdPush r now k, s) d"
  "watchdog_step cfg sys ev (WdEscalate b, s) d"

lemma scan_run_deterministic: "scan_run cfg sys c d \<Longrightarrow> scan_run cfg sys c d' \<Longrightarrow> d = d'"
  by (cases c; cases "fst c") (auto simp: scan_run_def solo_def elim!: watchdog_scan_stepE)

lemma scan_run_unique:
  assumes "(scan_run cfg sys)\<^sup>*\<^sup>* c (WdSleep, s)" and "(scan_run cfg sys)\<^sup>*\<^sup>* c (WdSleep, s')"
  shows "s = s'"
  using assms
proof (induction rule: converse_rtranclp_induct)
  case base
  then show ?case by (cases rule: converse_rtranclpE) (simp_all add: scan_run_def)
next
  case (step c d)
  from step.prems show ?case
  proof (cases rule: converse_rtranclpE)
    case base
    with step.hyps(1) show ?thesis by (simp add: scan_run_def)
  next
    case (step d')
    with step.hyps step.IH show ?thesis using scan_run_deterministic \<open>scan_run cfg sys c d\<close> by metis
  qed
qed

section \<open>The logger\<close>

text \<open>The loops over the sinks.\<close>

lemma update_take_drop:
  assumes "k < length xs"
  shows "(map f (take k xs) @ drop k xs)[k := f (xs ! k)] = map f (take (Suc k) xs) @ drop (Suc k) xs"
  using assms by (simp add: list_update_append take_Suc_conv_app_nth Cons_nth_drop_Suc [symmetric])

lemma logger_writes:
  assumes "k \<le> length (sinks s)"
    and rest: "(solo (logger_step cfg sys show_float hb))\<^sup>*\<^sup>* (LWait, write_all line s) e"
  shows "(solo (logger_step cfg sys show_float hb))\<^sup>*\<^sup>*
    (LWrite line k, s\<lparr>sinks := map (sink_write line) (take k (sinks s)) @ drop k (sinks s)\<rparr>) e"
  using assms(1)
proof (induction "length (sinks s) - k" arbitrary: k)
  case 0
  then show ?case using rest by (auto simp: write_all_def intro: logger_then [OF lg_written])
next
  case (Suc j)
  then have k: "k < length (sinks s)" by linarith
  with Suc.hyps(2) have "(solo (logger_step cfg sys show_float hb))\<^sup>*\<^sup>*
    (LWrite line (Suc k), s\<lparr>sinks := map (sink_write line) (take (Suc k) (sinks s)) @ drop (Suc k) (sinks s)\<rparr>) e"
    by (intro Suc.hyps(1)) simp_all
  moreover have "logger_step cfg sys show_float hb Tau
      (LWrite line k, s\<lparr>sinks := map (sink_write line) (take k (sinks s)) @ drop k (sinks s)\<rparr>)
      (LWrite line (Suc k), s\<lparr>sinks := map (sink_write line) (take (Suc k) (sinks s)) @ drop (Suc k) (sinks s)\<rparr>)"
    using lg_write [where line = line and k = k and s = "s\<lparr>sinks := map (sink_write line) (take k (sinks s)) @ drop k (sinks s)\<rparr>"] k
    by (simp add: on_sink_def nth_append update_take_drop)
  ultimately show ?case by (metis logger_then event.distinct(7))
qed

lemma logger_flushes:
  assumes "k \<le> length (sinks s)"
  shows "(solo (logger_step cfg sys show_float hb))\<^sup>*\<^sup>*
    (LFlush k, s\<lparr>sinks := map sink_flush (take k (sinks s)) @ drop k (sinks s)\<rparr>) (LDone, flush_all s)"
  using assms
proof (induction "length (sinks s) - k" arbitrary: k)
  case 0
  then show ?case by (auto simp: flush_all_def intro: logger_then [OF lg_done])
next
  case (Suc j)
  then have k: "k < length (sinks s)" by linarith
  with Suc.hyps(2) have "(solo (logger_step cfg sys show_float hb))\<^sup>*\<^sup>*
    (LFlush (Suc k), s\<lparr>sinks := map sink_flush (take (Suc k) (sinks s)) @ drop (Suc k) (sinks s)\<rparr>) (LDone, flush_all s)"
    by (intro Suc.hyps(1)) simp_all
  moreover have "logger_step cfg sys show_float hb Tau
      (LFlush k, s\<lparr>sinks := map (sink_flush) (take k (sinks s)) @ drop k (sinks s)\<rparr>)
      (LFlush (Suc k), s\<lparr>sinks := map (sink_flush) (take (Suc k) (sinks s)) @ drop (Suc k) (sinks s)\<rparr>)"
    using lg_flush [of k "s\<lparr>sinks := map (sink_flush) (take k (sinks s)) @ drop k (sinks s)\<rparr>"] k
    by (simp add: on_sink_def nth_append update_take_drop)
  ultimately show ?case by (metis logger_then event.distinct(7))
qed

text \<open>One turn of the drain loop.\<close>

lemma logger_turn:
  assumes pop: "waitAndPop (outputQueue s) = Returns (Some r, q)"
    and rest: "(solo (logger_step cfg sys show_float hb))\<^sup>*\<^sup>*
      (LPop, (fst (drain_body show_float clock hb r q (s, n)))\<lparr>outputQueue := q\<rparr>) e"
  shows "(solo (logger_step cfg sys show_float hb))\<^sup>*\<^sup>* (LPop, s) e"
proof -
  let ?run = "(solo (logger_step cfg sys show_float hb))\<^sup>*\<^sup>*"
  let ?s = "on_heartbeat hb (markRunning (clock n)) (on_metrics (setOutputQueueDepth (size_tsq q)) (s\<lparr>outputQueue := q\<rparr>))"
  have "on_heartbeat hb markWaiting (write_all (formatLine show_float r) ?s) =
      (fst (drain_body show_float clock hb r q (s, n)))\<lparr>outputQueue := q\<rparr>"
    by (cases s) (simp add: drain_body_def write_all_def step_defs)
  with rest have "?run (LWait, write_all (formatLine show_float r) ?s) e"
    by (intro logger_then [OF lg_wait]) simp_all
  from logger_writes [OF le0 this] have "?run (LWrite (formatLine show_float r) 0, ?s) e" by simp
  then have "?run (LRun r, on_metrics (setOutputQueueDepth (size_tsq q)) (s\<lparr>outputQueue := q\<rparr>)) e"
    by (rule logger_then [OF lg_run, rotated]) simp
  then have "?run (LStoreDepth r (size_tsq q), s\<lparr>outputQueue := q\<rparr>) e"
    by (rule logger_then [OF lg_store, rotated]) simp
  then have "?run (LDepth r, s\<lparr>outputQueue := q\<rparr>) e"
    by (intro logger_then [OF lg_depth]) simp_all
  then show ?thesis by (rule logger_then [OF lg_pop [OF pop], rotated]) simp
qed

lemma drain_body_parts:
  "fst (drain_body show_float clock hb r q (s\<lparr>outputQueue := q'\<rparr>, n)) = (fst (drain_body show_float clock hb r q (s, n)))\<lparr>outputQueue := q'\<rparr>"
  "snd (drain_body show_float clock hb r q (s, n)) = Suc n"
  by (simp_all add: drain_body_def write_all_def step_defs)

lemma logger_consumes:
  assumes "consume fuel waitAndPop (drain_body show_float clock hb) q (s, n) = Some (q', (s', n'))"
  shows "(solo (logger_step cfg sys show_float hb))\<^sup>*\<^sup>* (LPop, s\<lparr>outputQueue := q\<rparr>) (LDone, flush_all (s'\<lparr>outputQueue := q'\<rparr>))"
  using assms
proof (induction fuel arbitrary: q s n)
  case (Suc fuel)
  from Suc.prems obtain x q1 where pop: "waitAndPop q = Returns (x, q1)"
    by (cases "waitAndPop q") auto
  show ?case
  proof (cases x)
    case None
    with Suc.prems pop have "q' = q1" "s' = s" by simp_all
    with logger_flushes [OF le0, where s = "s\<lparr>outputQueue := q1\<rparr>"] pop None show ?thesis
      by (intro logger_then [OF lg_end]) simp_all
  next
    case (Some r)
    obtain s1 where s1: "drain_body show_float clock hb r q1 (s, n) = (s1, Suc n)"
      using drain_body_parts(2) by (metis prod.collapse)
    with Suc.prems pop Some have "(solo (logger_step cfg sys show_float hb))\<^sup>*\<^sup>* (LPop, s1\<lparr>outputQueue := q1\<rparr>) (LDone, flush_all (s'\<lparr>outputQueue := q'\<rparr>))"
      by (intro Suc.IH) simp
    with s1 pop Some show ?thesis
      by - (rule logger_turn [where q = q1 and r = r and n = n and clock = clock], simp_all add: drain_body_parts)
  qed
qed simp

lemma logger_solo_drain:
  assumes "drainLoop fuel cfg sys built show_float clock hb s = Some s'"
  shows "(solo (logger_step cfg sys show_float hb))\<^sup>*\<^sup>* (LInit, s) (LDone, s')"
proof -
  let ?s0 = "configure_thread cfg sys built (loggerPriority (realtime cfg)) ''logger'' s"
  from assms obtain q s2 n where drained: "consume fuel waitAndPop (drain_body show_float clock hb)
      (outputQueue (on_heartbeat hb markWaiting ?s0)) (on_heartbeat hb markWaiting ?s0, 0) = Some (q, (s2, n))"
    and s': "s' = flush_all (s2\<lparr>outputQueue := q\<rparr>)"
    by (auto simp: drainLoop_def Let_def split: option.splits)
  from logger_consumes [OF drained, of cfg sys]
  have "(solo (logger_step cfg sys show_float hb))\<^sup>*\<^sup>* (LPop, on_heartbeat hb markWaiting ?s0) (LDone, s')"
    by (simp add: s')
  then have "(solo (logger_step cfg sys show_float hb))\<^sup>*\<^sup>* (LWait, ?s0) (LDone, s')"
    by (rule logger_then [OF lg_wait, rotated]) simp
  then show ?thesis by (rule logger_then [OF lg_init, rotated]) simp
qed

section \<open>Properties\<close>

text \<open>C21: The watchdog thread, left alone, does what scanOnce computes. Its steps from the start of a
  scan, one per load of a heartbeat, per stall counted and per record pushed, lead back to the sleep
  between scans with exactly the shared state that the function returns, and with no other.\<close>

theorem watchdog_thread_scans:
  assumes "scanOnce cfg now s = Returns s'"
  shows "(scan_run cfg sys)\<^sup>*\<^sup>* (WdState now 0 False, s) (WdSleep, s'') \<longleftrightarrow> s'' = s'"
  using watchdog_solo_scan [OF assms] scan_run_unique by blast

theorem watchdog_thread_scans_witness:
  "\<exists>s'. scanOnce default_config 600000000 one_stall = Returns s' \<and> m_watchdogStalls (sh_metrics s') = 1
     \<and> (scan_run default_config plain_os)\<^sup>*\<^sup>* (WdState 600000000 0 False, one_stall) (WdSleep, s')"
proof -
  obtain s' where s': "scanOnce default_config 600000000 one_stall = Returns s'" "m_watchdogStalls (sh_metrics s') = 1"
    by (simp add: scanOnce_def forEach_def scan_visitor_def reportStall_def push_def enqueueLocked_def full_def
        timeout_of_def default_config_def of_ms_def ns_per_ms_def step_defs new_metrics_def metrics_simps Let_def)
  with watchdog_thread_scans [OF s'(1), of plain_os s'] show ?thesis by blast
qed

text \<open>C38: The logger thread, left alone on a closed output queue, drains it. Its steps can reach the end of
  the thread without an exception; every sink then holds its earlier lines followed by the formatted
  line of every buffered record, in queue order, all of it flushed, and the queue is empty. The
  function drainLoop, given one more pop than there are records, computes the same state.\<close>

theorem logger_thread_drains:
  assumes "q_closed (outputQueue s)"
  shows "\<exists>s'. (solo (logger_step cfg sys show_float hb))\<^sup>*\<^sup>* (LInit, s) (LDone, s')
    \<and> drainLoop (Suc (length (q_queue (outputQueue s)))) cfg sys built show_float clock hb s = Some s'
    \<and> map sink_lines (sinks s') =
        map (\<lambda>k. sink_lines k @ map (formatLine show_float) (q_queue (outputQueue s))) (sinks s)
    \<and> list_all (\<lambda>k. sink_flushed k = length (sink_lines k)) (sinks s')
    \<and> q_queue (outputQueue s') = [] \<and> inputQueue s' = inputQueue s"
  using drain_loop_writes_everything [OF assms lessI] logger_solo_drain unfolding list_all_iff by metis

definition one_line :: "nat shared" where
  "one_line = one_stall\<lparr>outputQueue := \<lparr>q_queue = [message_record Error 7000 Watchdog ''x''], q_capacity = 4,
     q_policy = DropOldest, q_droppedCount = 0, q_closed = True\<rparr>, sinks := [new_sink]\<rparr>"

theorem logger_thread_drains_witness:
  "\<exists>s'. (solo (logger_step default_config plain_os (\<lambda>_. ''1'') 0))\<^sup>*\<^sup>* (LInit, one_line) (LDone, s')
     \<and> map sink_lines (sinks s') = [[formatLine (\<lambda>_. ''1'') (message_record Error 7000 Watchdog ''x'' :: nat log_record)]]"
proof -
  have "q_closed (outputQueue one_line)" by (simp add: one_line_def)
  from logger_thread_drains [OF this, of default_config plain_os "\<lambda>_. ''1''" 0 True "\<lambda>_. 9000"] obtain s' where
    run: "(solo (logger_step default_config plain_os (\<lambda>_. ''1'') 0))\<^sup>*\<^sup>* (LInit, one_line) (LDone, s')"
    and lines: "map sink_lines (sinks s') =
      map (\<lambda>k. sink_lines k @ map (formatLine (\<lambda>_. ''1'')) (q_queue (outputQueue one_line))) (sinks one_line)"
    by (elim exE conjE) (rule that; assumption)
  from lines have "map sink_lines (sinks s') = [[formatLine (\<lambda>_. ''1'') (message_record Error 7000 Watchdog ''x'' :: nat log_record)]]"
    by (simp add: one_line_def new_sink_def)
  with run show ?thesis by (intro exI conjI)
qed

end
