(* ===== verification/Log_Streams.thy ===== *)
theory Log_Streams
  imports Application_Drain "HOL-Library.Sublist"
begin

text \<open>
  The sinks of \<^verbatim>\<open>console_sink.cpp\<close> and \<^verbatim>\<open>file_sink.cpp\<close> over standard output streams that may fail. The
  logger never looks at the state of a stream, so what reaches the device after a failure is not
  reported; it is shown here that it is still a beginning of the log, and all of it if the stream is
  good at the end. The locale \<open>log_sink\<close> is the interface \<^verbatim>\<open>ILogSink\<close> (\<^verbatim>\<open>log_sink.hpp\<close>).
\<close>

section \<open>Output streams\<close>

text \<open>
  A \<^verbatim>\<open>std::ostream\<close>: the characters its device has, those it still buffers, and its error state. An
  inserter on a stream in an error state does nothing. What the device does is the answer: how many
  of the buffered characters it takes, and whether it fails. A flush that does not fail empties the
  buffer.
\<close>

record ostream =
  os_device :: string
  os_buffer :: string
  os_bad :: bool

type_synonym answer = "nat \<times> bool"

definition new_ostream :: ostream where
  "new_ostream = \<lparr>os_device = [], os_buffer = [], os_bad = False\<rparr>"

definition stream_insert :: "answer \<Rightarrow> string \<Rightarrow> ostream \<Rightarrow> ostream" where
  "stream_insert ans text out =
     (if os_bad out then out
      else let pending = os_buffer out @ text in
        \<lparr>os_device = os_device out @ take (fst ans) pending, os_buffer = drop (fst ans) pending, os_bad = snd ans\<rparr>)"

definition stream_flush :: "answer \<Rightarrow> ostream \<Rightarrow> ostream" where
  "stream_flush ans out =
     (if os_bad out then out
      else let n = (if snd ans then fst ans else length (os_buffer out)) in
        \<lparr>os_device = os_device out @ take n (os_buffer out), os_buffer = drop n (os_buffer out), os_bad = snd ans\<rparr>)"

definition ConsoleSink_write :: "answer \<Rightarrow> string \<Rightarrow> ostream \<Rightarrow> ostream" where
  "ConsoleSink_write ans line cout = stream_insert ans line cout"

definition ConsoleSink_flush :: "answer \<Rightarrow> ostream \<Rightarrow> ostream" where
  "ConsoleSink_flush ans cout = stream_flush ans cout"

definition FileSink_write :: "answer \<Rightarrow> string \<Rightarrow> ostream \<Rightarrow> ostream" where
  "FileSink_write ans line stream = stream_insert ans line stream"

definition FileSink_flush :: "answer \<Rightarrow> ostream \<Rightarrow> ostream" where
  "FileSink_flush ans stream = stream_flush ans stream"

text \<open>The logger's use of a sink: a line at a time.\<close>

fun put_lines :: "(answer \<Rightarrow> string \<Rightarrow> 'k \<Rightarrow> 'k) \<Rightarrow> (answer \<times> string) list \<Rightarrow> 'k \<Rightarrow> 'k" where
  "put_lines put [] k = k"
| "put_lines put ((ans, line) # rest) k = put_lines put rest (put ans line k)"

section \<open>The interface of a sink\<close>

text \<open>
  \<open>stored\<close> is what the device has, \<open>taken_in\<close> what the sink has taken responsibility for, and \<open>failed\<close>
  its error state.
\<close>

locale log_sink =
  fixes sink_put :: "answer \<Rightarrow> string \<Rightarrow> 'k \<Rightarrow> 'k"
    and sink_sync :: "answer \<Rightarrow> 'k \<Rightarrow> 'k"
    and stored :: "'k \<Rightarrow> string"
    and taken_in :: "'k \<Rightarrow> string"
    and failed :: "'k \<Rightarrow> bool"
  assumes put_takes: "\<not> failed k \<Longrightarrow> taken_in (sink_put ans line k) = taken_in k @ line"
    and put_failed: "failed k \<Longrightarrow> sink_put ans line k = k"
    and sync_takes: "taken_in (sink_sync ans k) = taken_in k"
    and sync_stores: "\<not> failed (sink_sync ans k) \<Longrightarrow> \<not> failed k \<and> stored (sink_sync ans k) = taken_in k"
    and stored_prefix: "prefix (stored k) (taken_in k)"
begin

lemma put_lines_failed: "failed k \<Longrightarrow> put_lines sink_put ps k = k"
  by (induction ps arbitrary: k) (auto simp: put_failed)

lemma put_lines_takes:
  "prefix (taken_in (put_lines sink_put ps k)) (taken_in k @ concat (map snd ps))
   \<and> (\<not> failed (put_lines sink_put ps k) \<longrightarrow> taken_in (put_lines sink_put ps k) = taken_in k @ concat (map snd ps))"
proof (induction ps arbitrary: k)
  case (Cons p rest)
  obtain ans line where p: "p = (ans, line)" by fastforce
  show ?case
  proof (cases "failed k")
    case True
    then show ?thesis using put_lines_failed [OF True, of "p # rest"] by simp
  next
    case False
    with Cons.IH [of "sink_put ans line k"] put_takes [OF False, of ans line] p show ?thesis by simp
  qed
qed simp

lemma lines_stored:
  "prefix (stored (sink_sync ans (put_lines sink_put ps k))) (taken_in k @ concat (map snd ps))
   \<and> (\<not> failed (sink_sync ans (put_lines sink_put ps k))
      \<longrightarrow> stored (sink_sync ans (put_lines sink_put ps k)) = taken_in k @ concat (map snd ps))"
  using put_lines_takes [of ps k] sync_stores [of ans "put_lines sink_put ps k"] sync_takes [of ans "put_lines sink_put ps k"]
    stored_prefix [of "sink_sync ans (put_lines sink_put ps k)"]
  by (auto intro: prefix_order.trans)

end

lemma insert_keeps:
  "\<not> os_bad k \<Longrightarrow> os_device (stream_insert ans line k) @ os_buffer (stream_insert ans line k) = (os_device k @ os_buffer k) @ line"
  by (simp add: stream_insert_def Let_def del: take_append drop_append)

lemma ostream_laws:
  "os_bad k \<Longrightarrow> stream_insert ans line k = k"
  "os_device (stream_flush ans k) @ os_buffer (stream_flush ans k) = os_device k @ os_buffer k"
  "\<not> os_bad (stream_flush ans k) \<Longrightarrow> \<not> os_bad k \<and> os_device (stream_flush ans k) = os_device k @ os_buffer k"
  by (auto simp: stream_insert_def stream_flush_def Let_def split: if_splits)

interpretation console_sink: log_sink ConsoleSink_write ConsoleSink_flush os_device "\<lambda>k. os_device k @ os_buffer k" os_bad
  by unfold_locales (simp_all add: ConsoleSink_write_def ConsoleSink_flush_def insert_keeps ostream_laws del: append_assoc)

interpretation file_sink: log_sink FileSink_write FileSink_flush os_device "\<lambda>k. os_device k @ os_buffer k" os_bad
  by unfold_locales (simp_all add: FileSink_write_def FileSink_flush_def insert_keeps ostream_laws del: append_assoc)

text \<open>The sinks of the interleaving are sinks that never fail.\<close>

interpretation ideal_sink: log_sink "\<lambda>_. sink_write" "\<lambda>_. sink_flush" "\<lambda>k. concat (take (sink_flushed k) (sink_lines k))"
  "\<lambda>k. concat (sink_lines k)" "\<lambda>_. False"
proof unfold_locales
  show "prefix (concat (take (sink_flushed k) (sink_lines k))) (concat (sink_lines k))" for k
    by (metis append_take_drop_id concat_append prefixI)
qed (simp_all add: sink_write_def sink_flush_def)

section \<open>Properties\<close>

text \<open>C3: What reaches a log file or the console. At the end of a normal run without exceptions, take any of
  the sinks, put its lines one by one on a fresh output stream that may fail at any moment and after
  any number of characters, and flush it as the logger does: the device then holds a beginning of the
  text of all records the logger took, in order, and holds all of it if the stream is not in an error
  state. This is so for the console and for a file.\<close>

theorem device_holds_the_log:
  assumes "reaches (app_init E) (app_step E) a" and "run_complete a" and "\<not> h_threw a"
    and "k < length (sinks (sh a))" and "map snd ps = sink_lines (sinks (sh a) ! k)"
  shows "let log = concat (map (formatLine (p_show E)) (delivered (h_out a)));
        out = ConsoleSink_flush ans (put_lines ConsoleSink_write ps new_ostream);
        file = FileSink_flush ans (put_lines FileSink_write ps new_ostream) in
     prefix (os_device out) log \<and> (\<not> os_bad out \<longrightarrow> os_device out = log)
   \<and> prefix (os_device file) log \<and> (\<not> os_bad file \<longrightarrow> os_device file = log)"
proof -
  have base: "base_inv E a" and snk: "sink_inv E a"
    using drain.reaches_invar [OF assms(1)] assms(3) by (auto simp: drain_inv_def)
  have lines: "map snd ps = map (formatLine (p_show E)) (delivered (h_out a))"
    using snk run_complete_threads(2) [OF base assms(2)] assms(4,5) by (auto simp: sink_inv_def)
  show ?thesis
    using console_sink.lines_stored [of ans ps new_ostream] file_sink.lines_stored [of ans ps new_ostream]
    unfolding Let_def lines by (simp add: new_ostream_def)
qed

theorem device_holds_the_log_witness:
  "\<exists>a. reaches (app_init demo) (app_step demo) a \<and> length (delivered (h_out a)) = 1
     \<and> (let out = ConsoleSink_flush (0, False) (put_lines ConsoleSink_write
          [((3, False), sink_lines (sinks (sh a) ! 0) ! 0)] new_ostream) in
        \<not> os_bad out \<and> os_device out = concat (map (formatLine (p_show demo)) (delivered (h_out a))))"
proof -
  obtain a where a: "reaches (app_init demo) (app_step demo) a" "main_pc a = MExit False"
    "\<not> h_threw a" "length (delivered (h_out a)) = 1" "length (sinks (sh a)) = 1"
    by (rule demo_reaches)
  have fin: "run_complete a" using a(2) by (simp add: run_complete_def)
  let ?ps = "[((3::nat, False), sink_lines (sinks (sh a) ! 0) ! 0)]"
  have good: "\<not> os_bad (ConsoleSink_flush (0, False) (put_lines ConsoleSink_write ?ps new_ostream))"
    by (simp add: ConsoleSink_flush_def ConsoleSink_write_def stream_flush_def stream_insert_def new_ostream_def Let_def)
  have inv: "sink_inv demo a" "base_inv demo a"
    using drain.reaches_invar [OF a(1)] a(3) by (auto simp: drain_inv_def)
  from inv(1) run_complete_threads(2) [OF inv(2) fin] a(4,5) have "length (sink_lines (sinks (sh a) ! 0)) = 1"
    by (simp add: sink_inv_def)
  then have "map snd ?ps = sink_lines (sinks (sh a) ! 0)"
    by (cases "sink_lines (sinks (sh a) ! 0)") simp_all
  from device_holds_the_log [OF a(1) fin a(3) _ this, of "(0, False)"] a(1,4,5) good show ?thesis
    by (intro exI [of _ a]) (simp add: Let_def)
qed

end
