(* ===== verification/Application_Wiring.thy ===== *)
theory Application_Wiring
  imports Radar_Application Random_Generator
begin

text \<open>
  The object graph that the constructor of \<^verbatim>\<open>Application\<close> assembles: its members in the order of their
  declaration, each subsystem with the references its constructor stores, and the destruction of
  the members in the reverse order, after a construction that succeeded or after the exception that
  ended it. A reference names a member or an entry of the heartbeat registry. Using a reference to an
  object that does not exist yet, or no longer, is undefined behaviour and has no result (\<open>None\<close>).
  The graph also records the calls made for the mutexes of the two queues and the descriptors that
  were closed. The arguments of one initialiser are evaluated in an order the language leaves open;
  where two of them have effects, one of them registers a heartbeat in a registry that does not
  survive the exception of the other.
\<close>

section \<open>Objects and references\<close>

datatype member =
    MConfig | MClock | MToken | MMetrics | MRealtime | MInputQueue | MOutputQueue | MRegistry
  | MProducer | MPool | MLogger | MWatchdog | MSignalHandler

datatype reference = Member member | HeartbeatAt nat

record realtime_manager_obj =
  rm_config :: reference

record radar_producer_obj =
  rp_config :: reference
  rp_clock :: reference
  rp_shutdownToken :: reference
  rp_inputQueue :: reference
  rp_heartbeat :: reference
  rp_realtimeManager :: reference
  rp_randomGenerator :: random_generator
  rp_metrics :: reference

record thread_pool_obj =
  tp_config :: reference
  tp_clock :: reference
  tp_shutdownToken :: reference
  tp_inputQueue :: reference
  tp_outputQueue :: reference
  tp_realtimeManager :: reference
  tp_metrics :: reference
  tp_heartbeats :: "reference list"

record logger_obj =
  lg_config :: reference
  lg_clock :: reference
  lg_shutdownToken :: reference
  lg_outputQueue :: reference
  lg_realtimeManager :: reference
  lg_heartbeat :: reference
  lg_sinks :: "sink list"
  lg_metrics :: reference

record watchdog_obj =
  wd_config :: reference
  wd_clock :: reference
  wd_shutdownToken :: reference
  wd_heartbeatRegistry :: reference
  wd_outputQueue :: reference
  wd_realtimeManager :: reference
  wd_metrics :: reference

record signal_handler_obj =
  sg_config :: reference
  sg_shutdownToken :: reference
  sg_signalFd :: int

section \<open>The constructors\<close>

definition RealtimeManager_ctor :: "reference \<Rightarrow> realtime_manager_obj" where
  "RealtimeManager_ctor config_r = \<lparr>rm_config = config_r\<rparr>"

definition RadarProducer_ctor where
  "RadarProducer_ctor config_r clock_r token_r input_r heartbeat_r realtime_r generator metrics_r =
     \<lparr>rp_config = config_r, rp_clock = clock_r, rp_shutdownToken = token_r, rp_inputQueue = input_r,
      rp_heartbeat = heartbeat_r, rp_realtimeManager = realtime_r, rp_randomGenerator = generator,
      rp_metrics = metrics_r\<rparr>"

text \<open>The pool registers the heartbeats of its workers itself.\<close>

definition ThreadPool_ctor where
  "ThreadPool_ctor config_r clock_r token_r input_r output_r realtime_r metrics_r cfg reg =
     (let (ids, reg') = ThreadPool cfg reg in
      (\<lparr>tp_config = config_r, tp_clock = clock_r, tp_shutdownToken = token_r, tp_inputQueue = input_r,
        tp_outputQueue = output_r, tp_realtimeManager = realtime_r, tp_metrics = metrics_r,
        tp_heartbeats = map HeartbeatAt ids\<rparr>, reg'))"

definition Logger_ctor where
  "Logger_ctor config_r clock_r token_r output_r realtime_r heartbeat_r ks metrics_r =
     \<lparr>lg_config = config_r, lg_clock = clock_r, lg_shutdownToken = token_r, lg_outputQueue = output_r,
      lg_realtimeManager = realtime_r, lg_heartbeat = heartbeat_r, lg_sinks = ks, lg_metrics = metrics_r\<rparr>"

definition Watchdog_ctor where
  "Watchdog_ctor config_r clock_r token_r registry_r output_r realtime_r metrics_r =
     \<lparr>wd_config = config_r, wd_clock = clock_r, wd_shutdownToken = token_r,
      wd_heartbeatRegistry = registry_r, wd_outputQueue = output_r,
      wd_realtimeManager = realtime_r, wd_metrics = metrics_r\<rparr>"

section \<open>The graph\<close>

text \<open>
  The members constructed so far, the last one first, and the calls made for the mutexes and on the
  signal descriptor.
\<close>

record graph =
  g_alive :: "member list"
  g_inputMutex :: "pthread_call list"
  g_outputMutex :: "pthread_call list"
  g_closed :: "int list"
  g_registry :: registry
  g_realtime :: "realtime_manager_obj option"
  g_producer :: "radar_producer_obj option"
  g_pool :: "thread_pool_obj option"
  g_logger :: "logger_obj option"
  g_watchdog :: "watchdog_obj option"
  g_handler :: "signal_handler_obj option"

definition no_graph :: graph where
  "no_graph = \<lparr>g_alive = [], g_inputMutex = [], g_outputMutex = [], g_closed = [], g_registry = [], g_realtime = None, g_producer = None, g_pool = None,
     g_logger = None, g_watchdog = None, g_handler = None\<rparr>"

fun ref_alive :: "graph \<Rightarrow> reference \<Rightarrow> bool" where
  "ref_alive g (Member m) \<longleftrightarrow> m \<in> set (g_alive g)"
| "ref_alive g (HeartbeatAt i) \<longleftrightarrow> MRegistry \<in> set (g_alive g) \<and> i < length (g_registry g)"

definition realtime_refs where
  "realtime_refs obj = [rm_config obj]"

definition producer_refs where
  "producer_refs obj = [rp_config obj, rp_clock obj, rp_shutdownToken obj, rp_inputQueue obj, rp_heartbeat obj,
     rp_realtimeManager obj, rp_metrics obj]"

definition pool_refs where
  "pool_refs obj = [tp_config obj, tp_clock obj, tp_shutdownToken obj, tp_inputQueue obj, tp_outputQueue obj,
     tp_realtimeManager obj, tp_metrics obj] @ tp_heartbeats obj"

definition logger_refs where
  "logger_refs obj = [lg_config obj, lg_clock obj, lg_shutdownToken obj, lg_outputQueue obj, lg_realtimeManager obj,
     lg_heartbeat obj, lg_metrics obj]"

definition watchdog_refs where
  "watchdog_refs obj = [wd_config obj, wd_clock obj, wd_shutdownToken obj, wd_heartbeatRegistry obj, wd_outputQueue obj,
     wd_realtimeManager obj, wd_metrics obj]"

definition handler_refs where
  "handler_refs obj = [sg_config obj, sg_shutdownToken obj]"

definition refs_of :: "('o \<Rightarrow> reference list) \<Rightarrow> 'o option \<Rightarrow> reference list" where
  "refs_of f x = (case x of None \<Rightarrow> [] | Some obj \<Rightarrow> f obj)"

fun borrows :: "graph \<Rightarrow> member \<Rightarrow> reference list" where
  "borrows g MRealtime = refs_of realtime_refs (g_realtime g)"
| "borrows g MProducer = refs_of producer_refs (g_producer g)"
| "borrows g MPool = refs_of pool_refs (g_pool g)"
| "borrows g MLogger = refs_of logger_refs (g_logger g)"
| "borrows g MWatchdog = refs_of watchdog_refs (g_watchdog g)"
| "borrows g MSignalHandler = refs_of handler_refs (g_handler g)"
| "borrows g _ = []"

section \<open>Construction of the members\<close>

type_synonym member_init = "graph \<Rightarrow> (exn option \<times> graph) option"

text \<open>A member comes into existence; everything it stores a reference to must exist.\<close>

definition place :: "member \<Rightarrow> member_init" where
  "place m g = (if list_all (ref_alive g) (borrows g m) then Some (None, g\<lparr>g_alive := m # g_alive g\<rparr>) else None)"

text \<open>An argument is an expression over members, which must exist.\<close>

definition reading :: "member \<Rightarrow> member_init \<Rightarrow> member_init" where
  "reading m i g = (if ref_alive g (Member m) then i g else None)"

definition init_inputQueue :: "('e, 'f) params \<Rightarrow> construction \<Rightarrow> member_init" where
  "init_inputQueue E C = reading MConfig (\<lambda>g.
     case construct_queue (p_msg E) (c_inputMutex C) (inputCapacity (queues (p_cfg E))) Block
            :: pthread_call list \<times> (exn + 'f radar_signal tsq) of
       (calls, Inl e) \<Rightarrow> Some (Some e, g\<lparr>g_inputMutex := calls\<rparr>)
     | (calls, Inr _) \<Rightarrow> place MInputQueue (g\<lparr>g_inputMutex := calls\<rparr>))"

definition init_outputQueue :: "('e, 'f) params \<Rightarrow> construction \<Rightarrow> member_init" where
  "init_outputQueue E C = reading MConfig (\<lambda>g.
     case construct_queue (p_msg E) (c_outputMutex C) (outputCapacity (queues (p_cfg E))) DropOldest
            :: pthread_call list \<times> (exn + 'f log_record tsq) of
       (calls, Inl e) \<Rightarrow> Some (Some e, g\<lparr>g_outputMutex := calls\<rparr>)
     | (calls, Inr _) \<Rightarrow> place MOutputQueue (g\<lparr>g_outputMutex := calls\<rparr>))"

definition init_realtime :: member_init where
  "init_realtime g = place MRealtime (g\<lparr>g_realtime := Some (RealtimeManager_ctor (Member MConfig))\<rparr>)"

definition init_producer :: "construction \<Rightarrow> member_init" where
  "init_producer C = reading MRegistry (\<lambda>g.
     let (h, reg) = registerHeartbeat ''producer'' (g_registry g) in
     case c_device C of
       Inl t \<Rightarrow> Some (Some (StdException t), g)
     | Inr device \<Rightarrow> place MProducer (g\<lparr>g_registry := reg, g_producer := Some
         (RadarProducer_ctor (Member MConfig) (Member MClock) (Member MToken) (Member MInputQueue) (HeartbeatAt h)
            (Member MRealtime) (RandomGenerator_default device) (Member MMetrics))\<rparr>))"

definition init_pool :: "config \<Rightarrow> member_init" where
  "init_pool cfg = reading MRegistry (\<lambda>g.
     let (obj, reg) = ThreadPool_ctor (Member MConfig) (Member MClock) (Member MToken) (Member MInputQueue)
       (Member MOutputQueue) (Member MRealtime) (Member MMetrics) cfg (g_registry g) in
     place MPool (g\<lparr>g_registry := reg, g_pool := Some obj\<rparr>))"

definition init_logger :: "bool \<Rightarrow> config \<Rightarrow> member_init" where
  "init_logger opened cfg = reading MRegistry (reading MConfig (\<lambda>g.
     let (h, reg) = registerHeartbeat ''logger'' (g_registry g) in
     case buildSinks opened cfg of
       Inl e \<Rightarrow> Some (Some e, g)
     | Inr ks \<Rightarrow> place MLogger (g\<lparr>g_registry := reg, g_logger := Some
         (Logger_ctor (Member MConfig) (Member MClock) (Member MToken) (Member MOutputQueue) (Member MRealtime)
            (HeartbeatAt h) ks (Member MMetrics))\<rparr>)))"

definition init_watchdog :: member_init where
  "init_watchdog g = place MWatchdog (g\<lparr>g_watchdog := Some
     (Watchdog_ctor (Member MConfig) (Member MClock) (Member MToken) (Member MRegistry) (Member MOutputQueue)
        (Member MRealtime) (Member MMetrics))\<rparr>)"

definition init_handler :: "(int \<Rightarrow> string) \<Rightarrow> construction \<Rightarrow> member_init" where
  "init_handler msg C g =
     (case SignalHandler msg (c_sigmask C) (c_fd C) (c_err C) {} of
        (Inl e, _) \<Rightarrow> Some (Some e, g)
      | (Inr h, _) \<Rightarrow> place MSignalHandler (g\<lparr>g_handler := Some
          \<lparr>sg_config = Member MConfig, sg_shutdownToken = Member MToken, sg_signalFd = signalFd h\<rparr>\<rparr>))"

text \<open>The members in the order of their declaration, which is the order of initialisation.\<close>

definition application_members :: "('e, 'f) params \<Rightarrow> construction \<Rightarrow> member_init list" where
  "application_members E C =
     [place MConfig, place MClock, place MToken, place MMetrics, init_realtime,
      init_inputQueue E C, init_outputQueue E C,
      place MRegistry, init_producer C, init_pool (p_cfg E), init_logger (c_opened C) (p_cfg E), init_watchdog,
      init_handler (p_msg E) C]"

text \<open>An exception ends the construction and leaves the members constructed before.\<close>

fun construct :: "member_init list \<Rightarrow> graph \<Rightarrow> (exn option \<times> graph) option" where
  "construct [] g = Some (None, g)"
| "construct (i # rest) g =
     (case i g of
        None \<Rightarrow> None
      | Some (Some e, g') \<Rightarrow> Some (Some e, g')
      | Some (None, g') \<Rightarrow> construct rest g')"

section \<open>Destruction\<close>

text \<open>
  The members are destroyed last one first. What a member borrows must outlive it, since its
  destructor may join a thread that uses it, and no remaining member may refer to it.
\<close>

fun mentions :: "member \<Rightarrow> reference \<Rightarrow> bool" where
  "mentions m (Member m') \<longleftrightarrow> m = m'"
| "mentions m (HeartbeatAt i) \<longleftrightarrow> m = MRegistry"

text \<open>What the destructors release: the mutex of a queue, the signal descriptor.\<close>

fun release :: "member \<Rightarrow> graph \<Rightarrow> graph" where
  "release MInputQueue g = g\<lparr>g_inputMutex := g_inputMutex g @ PiMutex_destroy\<rparr>"
| "release MOutputQueue g = g\<lparr>g_outputMutex := g_outputMutex g @ PiMutex_destroy\<rparr>"
| "release MSignalHandler g =
     (case g_handler g of
        None \<Rightarrow> g
      | Some h \<Rightarrow> if 0 \<le> sg_signalFd h then g\<lparr>g_closed := g_closed g @ [sg_signalFd h]\<rparr> else g)"
| "release _ g = g"

fun destroy :: "member list \<Rightarrow> graph \<Rightarrow> graph option" where
  "destroy [] g = Some g"
| "destroy (m # ms) g =
     (let g' = release m (g\<lparr>g_alive := ms\<rparr>) in
      if list_all (ref_alive g') (borrows g m) \<and> list_all (\<lambda>m'. \<not> list_ex (mentions m) (borrows g m')) ms
      then destroy ms g' else None)"

section \<open>Specification of the failures\<close>

text \<open>
  Everything that can stop the construction, in the order in which the constructor comes to it. A
  construction fails with the first of them that happened.
\<close>

definition failing :: "(int \<Rightarrow> string) \<Rightarrow> string \<Rightarrow> int \<Rightarrow> exn option" where
  "failing msg call result = (if result = 0 then None else Some (system_call_exception msg call result))"

definition mutex_failures :: "(int \<Rightarrow> string) \<Rightarrow> pthread_results \<Rightarrow> exn option list" where
  "mutex_failures msg p =
     [failing msg ''pthread_mutexattr_init'' (attr_init p),
      failing msg ''pthread_mutexattr_setprotocol'' (attr_setprotocol p),
      failing msg ''pthread_mutex_init'' (mutex_init p),
      failing msg ''pthread_mutexattr_destroy'' (attr_destroy p)]"

definition capacity_failure :: "nat \<Rightarrow> exn option" where
  "capacity_failure capacity =
     (if capacity = 0 then Some (StdException ''ThreadSafeQueue capacity must be greater than zero'') else None)"

definition device_failure :: "string + 32 word \<Rightarrow> exn option" where
  "device_failure d = (case d of Inl t \<Rightarrow> Some (StdException t) | Inr _ \<Rightarrow> None)"

definition file_failure :: "bool \<Rightarrow> string \<Rightarrow> exn option" where
  "file_failure opened path =
     (if path \<noteq> [] \<and> \<not> opened
      then Some (RadarException (''FileSink: failed to open log file '' @ [CHR 0x27] @ path @ [CHR 0x27]))
      else None)"

definition descriptor_failure :: "(int \<Rightarrow> string) \<Rightarrow> int \<Rightarrow> int \<Rightarrow> exn option" where
  "descriptor_failure msg fd err = (if fd < 0 then Some (system_call_exception msg ''signalfd'' err) else None)"

definition queue_failures :: "(int \<Rightarrow> string) \<Rightarrow> pthread_results \<Rightarrow> nat \<Rightarrow> exn option list" where
  "queue_failures msg p capacity = mutex_failures msg p @ [capacity_failure capacity]"

definition late_failures :: "('e, 'f) params \<Rightarrow> construction \<Rightarrow> exn option list" where
  "late_failures E C =
     [device_failure (c_device C), file_failure (c_opened C) (filePath (logging (p_cfg E))),
      failing (p_msg E) ''pthread_sigmask'' (c_sigmask C),
      descriptor_failure (p_msg E) (c_fd C) (c_err C)]"

definition failures :: "('e, 'f) params \<Rightarrow> construction \<Rightarrow> exn option list" where
  "failures E C =
     queue_failures (p_msg E) (c_inputMutex C) (inputCapacity (queues (p_cfg E)))
     @ queue_failures (p_msg E) (c_outputMutex C) (outputCapacity (queues (p_cfg E)))
     @ late_failures E C"

fun first_failure :: "'x option list \<Rightarrow> 'x option" where
  "first_failure [] = None"
| "first_failure (None # xs) = first_failure xs"
| "first_failure (Some x # xs) = Some x"

section \<open>Properties\<close>

lemmas ctor_defs = RealtimeManager_ctor_def RadarProducer_ctor_def ThreadPool_ctor_def Logger_ctor_def Watchdog_ctor_def
lemmas refs_defs = realtime_refs_def producer_refs_def pool_refs_def logger_refs_def watchdog_refs_def handler_refs_def refs_of_def
lemmas failure_defs = failing_def capacity_failure_def device_failure_def file_failure_def descriptor_failure_def

lemma first_failure_append [simp]:
  "first_failure (xs @ ys) = (case first_failure xs of None \<Rightarrow> first_failure ys | Some x \<Rightarrow> Some x)"
  by (induction xs rule: first_failure.induct) simp_all

lemma first_failure_Cons [simp]:
  "first_failure (x # xs) = (case x of None \<Rightarrow> first_failure xs | Some e \<Rightarrow> Some e)"
  by (cases x) simp_all

text \<open>
  A queue fails with the first failure of its mutex or its capacity, and then nothing of the mutex
  is left; otherwise the mutex is live until it is destroyed.
\<close>

lemma construct_queue_cases:
  obtains (refused) calls e where "construct_queue msg p capacity policy = (calls, Inl e :: exn + 'a tsq)"
      and "first_failure (queue_failures msg p capacity) = Some e"
      and "live p calls (False, False) = (False, False)"
  | (built) calls q where "construct_queue msg p capacity policy = (calls, Inr q :: exn + 'a tsq)"
      and "first_failure (queue_failures msg p capacity) = None"
      and "live p (calls @ PiMutex_destroy) (False, False) = (False, False)"
  by (fastforce simp: construct_queue_def PiMutex_def PiMutex_destroy_def ThreadSafeQueue_def queue_failures_def mutex_failures_def
      failing_def capacity_failure_def Let_def split: if_splits)

lemma buildSinks_failure:
  "case buildSinks opened cfg of
     Inl e \<Rightarrow> file_failure opened (filePath (logging cfg)) = Some e
   | Inr _ \<Rightarrow> file_failure opened (filePath (logging cfg)) = None"
  by (simp add: buildSinks_def FileSink_def file_failure_def Let_def)

lemma SignalHandler_failure:
  "case fst (SignalHandler msg sigmask fd err masked) of
     Inl e \<Rightarrow> first_failure [failing msg ''pthread_sigmask'' sigmask, descriptor_failure msg fd err] = Some e
   | Inr h \<Rightarrow> first_failure [failing msg ''pthread_sigmask'' sigmask, descriptor_failure msg fd err] = None
       \<and> signalFd h = fd \<and> 0 \<le> fd"
  by (simp add: SignalHandler_def failing_def descriptor_failure_def Let_def)

text \<open>What must be left of an application whose construction ended with \<open>e\<close>, once it is destroyed.\<close>

definition released :: "construction \<Rightarrow> exn option \<Rightarrow> graph \<Rightarrow> bool" where
  "released C e g \<longleftrightarrow> g_alive g = []
     \<and> live (c_inputMutex C) (g_inputMutex g) (False, False) = (False, False)
     \<and> live (c_outputMutex C) (g_outputMutex g) (False, False) = (False, False)
     \<and> g_closed g = (if e = None then [c_fd C] else [])"

definition tear_down :: "construction \<Rightarrow> exn option \<Rightarrow> graph \<Rightarrow> bool" where
  "tear_down C e g \<longleftrightarrow> (\<exists>g'. destroy (g_alive g) g = Some g' \<and> released C e g')"

text \<open>The graph before the queues, with the registry, with the pool, and with the watchdog.\<close>

definition base_graph :: graph where
  "base_graph = no_graph\<lparr>g_alive := [MRealtime, MMetrics, MToken, MClock, MConfig],
     g_realtime := Some (RealtimeManager_ctor (Member MConfig))\<rparr>"

definition shared_members :: "member list" where
  "shared_members = [MRegistry, MOutputQueue, MInputQueue, MRealtime, MMetrics, MToken, MClock, MConfig]"

definition shared_graph :: "pthread_call list \<Rightarrow> pthread_call list \<Rightarrow> graph" where
  "shared_graph ci co = base_graph\<lparr>g_alive := shared_members, g_inputMutex := ci, g_outputMutex := co\<rparr>"

definition names_registry :: "string list \<Rightarrow> registry" where
  "names_registry ns = map (\<lambda>n. (n, new_heartbeat)) ns"

definition pool_graph :: "config \<Rightarrow> u32 \<Rightarrow> graph \<Rightarrow> graph" where
  "pool_graph cfg device g = g\<lparr>g_alive := MPool # MProducer # shared_members,
     g_registry := names_registry (''producer'' # map worker_name [0 ..< workerCount (pool cfg)]),
     g_producer := Some (RadarProducer_ctor (Member MConfig) (Member MClock) (Member MToken) (Member MInputQueue)
       (HeartbeatAt 0) (Member MRealtime) (RandomGenerator_default device) (Member MMetrics)),
     g_pool := Some \<lparr>tp_config = Member MConfig, tp_clock = Member MClock, tp_shutdownToken = Member MToken,
       tp_inputQueue = Member MInputQueue, tp_outputQueue = Member MOutputQueue, tp_realtimeManager = Member MRealtime,
       tp_metrics = Member MMetrics, tp_heartbeats = map (\<lambda>i. HeartbeatAt (Suc i)) [0 ..< workerCount (pool cfg)]\<rparr>\<rparr>"

definition watched_graph :: "config \<Rightarrow> sink list \<Rightarrow> graph \<Rightarrow> graph" where
  "watched_graph cfg ks g = g\<lparr>g_alive := MWatchdog # MLogger # MPool # MProducer # shared_members,
     g_registry := names_registry (''producer'' # map worker_name [0 ..< workerCount (pool cfg)] @ [''logger'']),
     g_logger := Some (Logger_ctor (Member MConfig) (Member MClock) (Member MToken) (Member MOutputQueue)
       (Member MRealtime) (HeartbeatAt (Suc (workerCount (pool cfg)))) ks (Member MMetrics)),
     g_watchdog := Some (Watchdog_ctor (Member MConfig) (Member MClock) (Member MToken) (Member MRegistry)
       (Member MOutputQueue) (Member MRealtime) (Member MMetrics))\<rparr>"

definition handled_graph :: "int \<Rightarrow> graph \<Rightarrow> graph" where
  "handled_graph fd g = g\<lparr>g_alive := MSignalHandler # g_alive g,
     g_handler := Some \<lparr>sg_config = Member MConfig, sg_shutdownToken = Member MToken, sg_signalFd = fd\<rparr>\<rparr>"

lemmas graph_defs = no_graph_def base_graph_def shared_graph_def shared_members_def pool_graph_def watched_graph_def
  handled_graph_def names_registry_def

lemma map_Suc_upt_HeartbeatAt: "map HeartbeatAt [Suc 0 ..< Suc n] = map (\<lambda>i. HeartbeatAt (Suc i)) [0 ..< n]"
  by (simp only: flip: map_Suc_upt) (simp add: comp_def)

lemma construct_base:
  "construct (application_members E C) no_graph =
     construct (init_inputQueue E C # init_outputQueue E C # place MRegistry # init_producer C # init_pool (p_cfg E)
       # init_logger (c_opened C) (p_cfg E) # init_watchdog # [init_handler (p_msg E) C]) base_graph"
  by (simp add: application_members_def init_realtime_def place_def graph_defs ctor_defs refs_defs)

lemma construct_pool:
  "c_device C = Inr device \<Longrightarrow> construct (init_producer C # init_pool cfg # rest) (shared_graph ci co) =
     construct rest (pool_graph cfg device (shared_graph ci co))"
  by (simp add: init_producer_def init_pool_def reading_def place_def registerHeartbeat_def ThreadPool_eq graph_defs
      ctor_defs refs_defs map_Suc_upt_HeartbeatAt list_all_iff comp_def del: upt_Suc)

lemma construct_watchdog:
  "construct (init_logger opened cfg # init_watchdog # rest) (pool_graph cfg device (shared_graph ci co)) =
     (case buildSinks opened cfg of
        Inl e \<Rightarrow> Some (Some e, pool_graph cfg device (shared_graph ci co))
      | Inr ks \<Rightarrow> construct rest (watched_graph cfg ks (pool_graph cfg device (shared_graph ci co))))"
  by (simp add: init_logger_def init_watchdog_def reading_def place_def registerHeartbeat_def graph_defs
      ctor_defs refs_defs list_all_iff split: sum.splits)

lemma construct_handler:
  "construct [init_handler msg C] (watched_graph cfg ks g) =
     (case fst (SignalHandler msg (c_sigmask C) (c_fd C) (c_err C) {}) of
        Inl e \<Rightarrow> Some (Some e, watched_graph cfg ks g)
      | Inr h \<Rightarrow> Some (None, handled_graph (signalFd h) (watched_graph cfg ks g)))"
  by (simp add: init_handler_def place_def graph_defs refs_defs split: prod.splits sum.splits)

text \<open>Each of these graphs can be taken down.\<close>

lemma tear_down_base:
  assumes "live (c_inputMutex C) ci (False, False) = (False, False)"
  shows "tear_down C (Some e) (base_graph\<lparr>g_inputMutex := ci\<rparr>)"
  using assms by (simp add: tear_down_def released_def graph_defs ctor_defs refs_defs)

lemma tear_down_input:
  assumes "live (c_inputMutex C) (ci @ PiMutex_destroy) (False, False) = (False, False)"
    and "live (c_outputMutex C) co (False, False) = (False, False)"
  shows "tear_down C (Some e) (base_graph\<lparr>g_alive := MInputQueue # g_alive base_graph, g_inputMutex := ci,
      g_outputMutex := co\<rparr>)"
  using assms by (simp add: tear_down_def released_def graph_defs ctor_defs refs_defs)

lemma tear_down_graphs:
  assumes "live (c_inputMutex C) (ci @ PiMutex_destroy) (False, False) = (False, False)"
    and "live (c_outputMutex C) (co @ PiMutex_destroy) (False, False) = (False, False)"
  shows "tear_down C (Some e) (shared_graph ci co)"
    and "tear_down C (Some e) (pool_graph cfg device (shared_graph ci co))"
    and "tear_down C (Some e) (watched_graph cfg ks (pool_graph cfg device (shared_graph ci co)))"
    and "0 \<le> c_fd C \<Longrightarrow>
      tear_down C None (handled_graph (c_fd C) (watched_graph cfg ks (pool_graph cfg device (shared_graph ci co))))"
  using assms
  by (simp_all add: tear_down_def released_def graph_defs ctor_defs refs_defs list_all_iff list_ex_iff)


text \<open>The construction of the graph, and the model of the constructor, fail with the first failure.\<close>

lemma Application_failure:
  fixes E :: "('e, 'f) params"
  shows "case Application E C of
     Inl x \<Rightarrow> first_failure (failures E C) = Some x
   | Inr a \<Rightarrow> first_failure (failures E C) = None
       \<and> heartbeatRegistry (sh a) =
           names_registry (''producer'' # map worker_name [0 ..< workerCount (pool (p_cfg E))] @ [''logger''])"
proof (cases rule: construct_queue_cases [where 'a = "'f radar_signal" and msg = "p_msg E"
    and p = "c_inputMutex C" and capacity = "inputCapacity (queues (p_cfg E))" and policy = Block])
  case refused
  then show ?thesis by (simp add: Application_def failures_def)
next
  case (built ci iq)
  note inp = this
  show ?thesis
  proof (cases rule: construct_queue_cases [where 'a = "'f log_record" and msg = "p_msg E"
      and p = "c_outputMutex C" and capacity = "outputCapacity (queues (p_cfg E))" and policy = DropOldest])
    case refused
    with inp show ?thesis by (simp add: Application_def failures_def)
  next
    case (built co oq)
    with inp buildSinks_failure [of "c_opened C" "p_cfg E"]
      SignalHandler_failure [of "p_msg E" "c_sigmask C" "c_fd C" "c_err C" "{}"]
    show ?thesis
      by (cases "c_device C"; cases "buildSinks (c_opened C) (p_cfg E)";
          cases "SignalHandler (p_msg E) (c_sigmask C) (c_fd C) (c_err C) {}"; cases "fst (SignalHandler (p_msg E) (c_sigmask C) (c_fd C) (c_err C) {})")
        (simp_all add: Application_def failures_def late_failures_def device_failure_def registerHeartbeat_def
          ThreadPool_eq names_registry_def comp_def)
  qed
qed


lemma construct_late:
  assumes "live (c_inputMutex C) (ci @ PiMutex_destroy) (False, False) = (False, False)"
    and "live (c_outputMutex C) (co @ PiMutex_destroy) (False, False) = (False, False)"
    and start: "construct ms no_graph = construct [init_producer C, init_pool (p_cfg E),
      init_logger (c_opened C) (p_cfg E), init_watchdog, init_handler (p_msg E) C] (shared_graph ci co)"
  obtains (refused) e g where "construct ms no_graph = Some (Some e, g)"
      and "first_failure (late_failures E C) = Some e" and "tear_down C (Some e) g"
  | (built) g device ks where "construct ms no_graph = Some (None, g)"
      and "first_failure (late_failures E C) = None" and "tear_down C None g"
      and "g = handled_graph (c_fd C) (watched_graph (p_cfg E) ks (pool_graph (p_cfg E) device (shared_graph ci co)))"
proof (cases "c_device C")
  note down = tear_down_graphs [OF assms(1,2)]
  case (Inl t)
  with start show thesis
    by (intro that(1) [OF _ _ down(1)])
      (simp_all add: late_failures_def device_failure_def init_producer_def reading_def registerHeartbeat_def
        shared_graph_def shared_members_def)
next
  case (Inr device)
  note down = tear_down_graphs [OF assms(1,2)]
    and built_up = start [unfolded construct_pool [OF Inr] construct_watchdog construct_handler]
    and log_file = buildSinks_failure [of "c_opened C" "p_cfg E"]
    and last = SignalHandler_failure [of "p_msg E" "c_sigmask C" "c_fd C" "c_err C" "{}"]
  show thesis
  proof (cases "buildSinks (c_opened C) (p_cfg E)")
    case (Inl e)
    with Inr built_up log_file show thesis
      by (intro that(1) [OF _ _ down(2)]) (simp_all add: late_failures_def device_failure_def)
  next
    case ks: (Inr ks)
    show thesis
    proof (cases "fst (SignalHandler (p_msg E) (c_sigmask C) (c_fd C) (c_err C) {})")
      case (Inl e)
      with \<open>c_device C = Inr device\<close> built_up ks log_file last show thesis
        by (intro that(1) [OF _ _ down(3)]) (simp_all add: late_failures_def device_failure_def)
    next
      case (Inr h)
      with \<open>c_device C = Inr device\<close> built_up ks log_file last show thesis
        by (intro that(2) [OF _ _ down(4) refl]) (simp_all add: late_failures_def device_failure_def)
    qed
  qed
qed

lemma construct_failures:
  fixes E :: "('e, 'f) params"
  obtains (refused) e g where "construct (application_members E C) no_graph = Some (Some e, g)"
      and "first_failure (failures E C) = Some e" and "tear_down C (Some e) g"
  | (built) g device ks ci co where "construct (application_members E C) no_graph = Some (None, g)"
      and "first_failure (failures E C) = None" and "tear_down C None g"
      and "g = handled_graph (c_fd C) (watched_graph (p_cfg E) ks (pool_graph (p_cfg E) device (shared_graph ci co)))"
proof (cases rule: construct_queue_cases [where 'a = "'f radar_signal" and msg = "p_msg E"
    and p = "c_inputMutex C" and capacity = "inputCapacity (queues (p_cfg E))" and policy = Block])
  case (refused calls e)
  have "construct (application_members E C) no_graph = Some (Some e, base_graph\<lparr>g_inputMutex := calls\<rparr>)"
    using refused(1) unfolding construct_base by (simp add: init_inputQueue_def reading_def base_graph_def)
  with refused show thesis
    by (intro that(1) [OF _ _ tear_down_base [OF refused(3)]]) (simp_all add: failures_def)
next
  case (built ci iq)
  note inp = this
  show thesis
  proof (cases rule: construct_queue_cases [where 'a = "'f log_record" and msg = "p_msg E"
      and p = "c_outputMutex C" and capacity = "outputCapacity (queues (p_cfg E))" and policy = DropOldest])
    case (refused calls e)
    have "construct (application_members E C) no_graph = Some (Some e,
        base_graph\<lparr>g_alive := MInputQueue # g_alive base_graph, g_inputMutex := ci, g_outputMutex := calls\<rparr>)"
      using inp(1) refused(1) unfolding construct_base
      by (simp add: init_inputQueue_def init_outputQueue_def reading_def place_def base_graph_def)
    with inp refused show thesis
      by (intro that(1) [OF _ _ tear_down_input [OF inp(3) refused(3)]]) (simp_all add: failures_def)
  next
    case (built co oq)
    have "construct (application_members E C) no_graph = construct [init_producer C, init_pool (p_cfg E),
        init_logger (c_opened C) (p_cfg E), init_watchdog, init_handler (p_msg E) C] (shared_graph ci co)"
      using inp(1) built(1) unfolding construct_base
      by (simp add: init_inputQueue_def init_outputQueue_def reading_def place_def base_graph_def shared_graph_def
          shared_members_def no_graph_def)
    then show thesis
      by (rule construct_late [OF inp(3) built(3)]) (auto simp: failures_def inp(2) built(2) intro: that)
  qed
qed

text \<open>Every failure is of a type that \<^verbatim>\<open>main\<close> reports.\<close>

lemma failures_std: "first_failure (failures E C) = Some e \<Longrightarrow> is_std_exception e"
  by (auto simp: failures_def queue_failures_def late_failures_def mutex_failures_def failure_defs is_std_exception_def
      system_call_exception_def split: if_splits option.splits sum.splits)

text \<open>The name under which the heartbeat that a reference denotes was registered.\<close>

fun heartbeat_name :: "graph \<Rightarrow> reference \<Rightarrow> string option" where
  "heartbeat_name g (HeartbeatAt i) = (if i < length (g_registry g) then Some (fst (g_registry g ! i)) else None)"
| "heartbeat_name g (Member m) = None"

lemma heartbeat_names_built:
  "\<exists>p k l. g_producer (handled_graph fd (watched_graph cfg ks (pool_graph cfg device g))) = Some p
     \<and> g_pool (handled_graph fd (watched_graph cfg ks (pool_graph cfg device g))) = Some k
     \<and> g_logger (handled_graph fd (watched_graph cfg ks (pool_graph cfg device g))) = Some l
     \<and> distinct (rp_heartbeat p # tp_heartbeats k @ [lg_heartbeat l])
     \<and> map (heartbeat_name (handled_graph fd (watched_graph cfg ks (pool_graph cfg device g))))
          (rp_heartbeat p # tp_heartbeats k @ [lg_heartbeat l])
        = map Some (''producer'' # map worker_name [0 ..< workerCount (pool cfg)] @ [''logger''])"
  by (auto simp: graph_defs ctor_defs distinct_map inj_on_def nth_append)

text \<open>C26: The object graph is sound. Whatever the configuration and the answers of the system, constructing
  the members in the order of their declaration never uses an object that does not exist, and
  destroying those that were constructed, in reverse order and also after an exception, never leaves
  a reference to a destroyed object. Nothing is leaked either way: no mutex or attribute object is
  live in the end, and the signal descriptor is closed, once, if it was opened. The construction
  fails exactly when something in the list of failures happened (a call for one of the two mutexes,
  a capacity of zero, the random device, the log file, blocking the signals, the signal descriptor),
  with the exception of the first of them, which \<^verbatim>\<open>main\<close> reports with a failure status; otherwise the
  application comes up with the registry of the graph, and each thread holds a heartbeat of its own,
  registered under its own name.\<close>

theorem object_graph_sound:
  "\<exists>e g g'. construct (application_members E C) no_graph = Some (e, g) \<and> e = first_failure (failures E C)
     \<and> destroy (g_alive g) g = Some g' \<and> g_alive g' = []
     \<and> live (c_inputMutex C) (g_inputMutex g') (False, False) = (False, False)
     \<and> live (c_outputMutex C) (g_outputMutex g') (False, False) = (False, False)
     \<and> g_closed g' = (if e = None then [c_fd C] else [])
     \<and> (case Application E C of
          Inl x \<Rightarrow> e = Some x \<and> main_status (Inl x) [] = Some (EXIT_FAILURE, [''[radar] fatal: '' @ what x @ [CHR 0x0A]])
        | Inr a \<Rightarrow> e = None \<and> g_registry g = heartbeatRegistry (sh a)
            \<and> (\<exists>p k l. g_producer g = Some p \<and> g_pool g = Some k \<and> g_logger g = Some l
                \<and> distinct (rp_heartbeat p # tp_heartbeats k @ [lg_heartbeat l])
                \<and> map (heartbeat_name g) (rp_heartbeat p # tp_heartbeats k @ [lg_heartbeat l])
                    = map Some (''producer'' # map worker_name [0 ..< workerCount (pool (p_cfg E))] @ [''logger''])))"
proof (cases rule: construct_failures [of E C])
  case (refused e g)
  then have "Application E C = Inl e" using Application_failure [of E C] by (simp split: sum.splits)
  moreover have "main_status (Inl e) [] = Some (EXIT_FAILURE, [''[radar] fatal: '' @ what e @ [CHR 0x0A]])"
    using failures_std [OF refused(2)] by (simp add: main_status_def)
  ultimately show ?thesis using refused by (auto simp: tear_down_def released_def)
next
  case (built g device ks ci co)
  obtain a where a: "Application E C = Inr a" "g_registry g = heartbeatRegistry (sh a)"
    using Application_failure [of E C] built(2,4) by (auto simp: graph_defs split: sum.splits)
  from built(3) obtain g' where "destroy (g_alive g) g = Some g'" "released C None g'"
    by (auto simp: tear_down_def)
  with built(1,2) a heartbeat_names_built [of "c_fd C" "p_cfg E" ks device "shared_graph ci co", folded built(4)]
  show ?thesis by (intro exI [of _ None] exI [of _ g] exI [of _ g']) (simp only: released_def sum.case simp_thms if_True)
qed

end
