(* ===== verification/Unit_Tests.thy ===== *)
theory Unit_Tests
  imports Watchdog_Monitor Managed_Thread Radar_Clock Radar_Config
begin

text \<open>
  The repository's own unit tests (\<^verbatim>\<open>tests/\<close>), carried over to the model: the harness of
  \<^verbatim>\<open>tests/framework\<close> and the tests of the queue, the token, the managed thread, the heartbeats and
  the watchdog. That all of them pass ties the definitions of these components to what the authors
  expect of them. Where a test starts a thread, the calls are taken in the order the test enforces: a call that
  has to wait is tried again after what wakes it. \<^verbatim>\<open>mpmc_drain_loses_no_items\<close>, whose point is the
  interleaving, is left to the theorems of \<open>Queue_Concurrency\<close>.
\<close>

section \<open>The harness\<close>

text \<open>A fatal assertion that fails ends its test; the others only count.\<close>

datatype assertion = Expect bool | Assert bool

fun failureCount :: "assertion list \<Rightarrow> nat" where
  "failureCount [] = 0"
| "failureCount (Expect holds # as) = (if holds then 0 else 1) + failureCount as"
| "failureCount (Assert holds # as) = (if holds then failureCount as else 1)"

record registered_test =
  t_suite :: string
  t_name :: string
  t_function :: "assertion list"

definition test_label :: "registered_test \<Rightarrow> string" where
  "test_label t = t_suite t @ ''.'' @ t_name t"

definition nl :: string where "nl = [CHR 0x0A]"

definition test_report :: "registered_test \<Rightarrow> string" where
  "test_report t =
     ''[ RUN  ] '' @ test_label t @ nl
     @ (if failureCount (t_function t) \<noteq> 0
        then ''[ FAIL ] '' @ test_label t @ '' ('' @ string_of_nat (failureCount (t_function t)) @ '' failure(s))'' @ nl
        else ''[  OK  ] '' @ test_label t @ nl)"

fun runTests :: "string option \<Rightarrow> registered_test list \<Rightarrow> nat \<times> nat \<times> string \<Rightarrow> nat \<times> nat \<times> string" where
  "runTests suiteFilter [] st = st"
| "runTests suiteFilter (t # ts) (runCount, failedCount, out) =
     (if suiteFilter \<noteq> None \<and> Some (t_suite t) \<noteq> suiteFilter
      then runTests suiteFilter ts (runCount, failedCount, out)
      else runTests suiteFilter ts
             (runCount + 1, if failureCount (t_function t) \<noteq> 0 then failedCount + 1 else failedCount,
              out @ test_report t))"

definition runAllTests :: "string option \<Rightarrow> registered_test list \<Rightarrow> nat \<times> string" where
  "runAllTests suiteFilter registry =
     (let (runCount, failedCount, out) = runTests suiteFilter registry (0, 0, [])
      in (failedCount,
          out @ nl @ string_of_nat (runCount - failedCount) @ ''/'' @ string_of_nat runCount @ '' tests passed''
          @ (case suiteFilter of None \<Rightarrow> [] | Some s \<Rightarrow> '' (suite '' @ [CHR 0x27] @ s @ [CHR 0x27] @ '')'') @ ''.'' @ nl))"

definition test_main :: "string option \<Rightarrow> registered_test list \<Rightarrow> int" where
  "test_main suiteFilter registry = (if fst (runAllTests suiteFilter registry) = 0 then 0 else 1)"

text \<open>What the harness counts.\<close>

abbreviation selected :: "string option \<Rightarrow> registered_test \<Rightarrow> bool" where
  "selected suiteFilter t \<equiv> suiteFilter = None \<or> suiteFilter = Some (t_suite t)"

abbreviation failing :: "registered_test \<Rightarrow> bool" where
  "failing t \<equiv> failureCount (t_function t) \<noteq> 0"

lemma runTests_counts:
  "runTests suiteFilter ts (n, f, out) =
     (n + length (filter (selected suiteFilter) ts), f + length (filter failing (filter (selected suiteFilter) ts)),
      out @ concat (map test_report (filter (selected suiteFilter) ts)))"
  by (induction ts arbitrary: n f out) auto

lemma failureCount_zero: "failureCount as = 0 \<longleftrightarrow> (\<forall>a \<in> set as. a = Expect True \<or> a = Assert True)"
  by (induction as rule: failureCount.induct) auto

text \<open>The test program succeeds exactly when every assertion of every selected test holds.\<close>

lemma test_main_succeeds:
  "test_main suiteFilter ts = 0 \<longleftrightarrow>
     (\<forall>t \<in> set ts. selected suiteFilter t \<longrightarrow> (\<forall>a \<in> set (t_function t). a = Expect True \<or> a = Assert True))"
  by (auto simp: test_main_def runAllTests_def runTests_counts filter_empty_conv failureCount_zero)

section \<open>The queue\<close>

definition queue :: "nat \<Rightarrow> OverflowPolicy \<Rightarrow> int tsq" where
  "queue capacity policy = (case ThreadSafeQueue capacity policy of Inr q \<Rightarrow> q)"

text \<open>Calls with the results a test expects; a call that would block fails the test.\<close>

fun calls :: "(int qop \<times> int qres) list \<Rightarrow> int tsq \<Rightarrow> assertion list \<times> int tsq" where
  "calls [] q = ([], q)"
| "calls ((x, r) # xs) q =
     (case exec_op x q of
        Waits \<Rightarrow> ([Assert False], q)
      | Returns (r', q') \<Rightarrow> (let (as, q'') = calls xs q' in (Assert (r' = r) # as, q'')))"

abbreviation pushes :: "int list \<Rightarrow> (int qop \<times> int qres) list" where
  "pushes vs \<equiv> map (\<lambda>v. (Push v, Stored True)) vs"

abbreviation pops :: "int list \<Rightarrow> (int qop \<times> int qres) list" where
  "pops vs \<equiv> map (\<lambda>v. (TryPop, Got (Some v))) vs"

definition queue_tests :: "(string \<times> assertion list) list" where
  "queue_tests =
    [(''zero_capacity_throws'',
      [Expect (\<exists>m. (ThreadSafeQueue 0 Block :: queue_error + int tsq) = Inl (InvalidArgument m))]),
     (''push_pop_is_fifo'',
      (let (as, q) = calls (pushes [1, 2, 3]) (queue 8 Block);
           (bs, _) = calls (pops [1, 2, 3] @ [(TryPop, Got None)]) q
       in as @ Expect (size_tsq q = 3) # bs)),
     (''try_pop_on_empty_returns_nullopt'', fst (calls [(TryPop, Got None)] (queue 4 Block))),
     (''block_policy_try_push_rejects_when_full'',
      (let (as, q) = calls [(TryPush 1, Stored True), (TryPush 2, Stored True), (TryPush 3, Stored False)] (queue 2 Block)
       in as @ [Expect (size_tsq q = 2), Expect (droppedCount q = 1)])),
     (''drop_newest_keeps_existing_items'',
      (let (as, q) = calls (pushes [1, 2] @ [(Push 3, Stored False)]) (queue 2 DropNewest);
           (bs, _) = calls (pops [1, 2] @ [(TryPop, Got None)]) q
       in as @ Expect (droppedCount q = 1) # bs)),
     (''drop_oldest_evicts_front'',
      (let (as, q) = calls (pushes [1, 2, 3]) (queue 2 DropOldest);
           (bs, _) = calls (pops [2, 3]) q
       in as @ [Expect (droppedCount q = 1), Expect (size_tsq q = 2)] @ bs)),
     (''close_rejects_pushes_without_counting_drops'',
      (let (as, q) = calls (pushes [1] @ [(Close, Done), (Push 2, Stored False), (TryPush 3, Stored False)]) (queue 4 Block)
       in as @ [Expect (droppedCount q = 0)])),
     (''close_drains_buffered_items_then_end_of_stream'',
      fst (calls (pushes [10, 20] @ [(Close, Done)] @ pops [10, 20] @ [(WaitAndPop, Got None), (TryPop, Got None)])
             (queue 4 Block))),
     (''wait_until_empty_returns_immediately_when_empty'',
      [Assert (waitUntilEmpty (queue 4 Block) = Returns ()), Expect (size_tsq (queue 4 Block) = 0)]),
     (''wait_until_empty_blocks_until_drained'',
      (let (as, q) = calls (pushes [1, 2, 3]) (queue 8 Block);
           (bs, q') = calls (map (\<lambda>v. (WaitAndPop, Got (Some v))) [1, 2, 3]) q
       in as @ Assert (waitUntilEmpty q = Waits) # bs @ [Assert (waitUntilEmpty q' = Returns ()), Expect (size_tsq q' = 0)]))]"

definition synchronization_tests :: "(string \<times> assertion list) list" where
  "synchronization_tests =
    [(''blocked_push_is_woken_by_close'',
      (let (as, q) = calls (pushes [1]) (queue 1 Block);
           (bs, _) = calls [(Close, Done), (Push 2, Stored False), (TryPop, Got (Some 1))] q
       in as @ Assert (push 2 q = Waits) # bs))]"

lemma queue_tests_pass: "list_all (\<lambda>(n, as). failureCount as = 0) (queue_tests @ synchronization_tests)"
  by (simp add: queue_tests_def synchronization_tests_def queue_def ThreadSafeQueue_def push_def tryPush_def
      enqueueLocked_def full_def countDrop_def tryPop_def popLockedAndNotify_def waitAndPop_def close_def
      waitUntilEmpty_def size_tsq_def droppedCount_def)

section \<open>The token and the managed thread\<close>

definition token_tests :: "(string \<times> assertion list) list" where
  "token_tests =
    [(''initially_not_requested'',
      [Expect (\<not> shutdownRequested new_token), Expect (waitFor True new_token = Some False)]),
     (''request_sets_flag'',
      [Expect (shutdownRequested (requestShutdown new_token)), Expect (waitFor True (requestShutdown new_token) = Some True)]),
     (''request_is_idempotent'',
      [Expect (shutdownRequested (requestShutdown (requestShutdown new_token)))]),
     (''blocked_wait_is_woken_by_request'',
      [Assert (waitFor False new_token = None), Expect (waitFor False (requestShutdown new_token) = Some True)])]"

text \<open>
  Operations on objects, each with the threads that have finished by then and the objects that are
  expected to be joinable after it; an operation that blocks, throws or terminates fails the test.
\<close>

fun operations :: "(thread_id list \<times> mt_op \<times> address list \<times> address list) list \<Rightarrow> mt_state
    \<Rightarrow> assertion list \<times> mt_state" where
  "operations [] s = ([], s)"
| "operations ((finished, x, yes, no) # xs) s =
     (case exec_mt (\<lambda>t. t \<in> set finished) x s of
        Some (Gives s') \<Rightarrow>
          (let (as, s'') = operations xs s' in
           (map (\<lambda>a. Expect (case objs s' a of Some th \<Rightarrow> thread_joinable th | None \<Rightarrow> False)) yes
              @ map (\<lambda>a. Expect (case objs s' a of Some th \<Rightarrow> \<not> thread_joinable th | None \<Rightarrow> False)) no @ as, s''))
      | _ \<Rightarrow> ([Assert False], s))"

definition managed_thread_tests :: "(string \<times> assertion list) list" where
  "managed_thread_tests =
    [(''joins_on_destruction'',
      (let (as, s) = operations [([], Start 0, [], []), ([0], Destroy 0, [], [])] mt_empty
       in Assert (exec_mt (\<lambda>_. False) (Destroy 0) (snd (operations [([], Start 0, [], [])] mt_empty)) = Some Blocks)
          # as @ [Expect (joined (world s) = [0])])),
     (''join_is_idempotent'',
      (let (as, s) = operations [([], Start 0, [], []), ([0], Join 0, [], [0]), ([0], Join 0, [], [])] mt_empty
       in as @ [Expect (joined (world s) = [0])])),
     (''move_construction_transfers_ownership'',
      fst (operations [([], Start 0, [0], []), ([], MoveConstruct 1 0, [1], [0]), ([0], Join 1, [], [1])] mt_empty)),
     (''move_assignment_joins_previous_thread'',
      (let (as, s) = operations [([], Start 0, [], []), ([], Start 1, [], []), ([0], MoveAssign 0 1, [], [])] mt_empty;
           (bs, s') = operations [([0, 1], Join 0, [], [])] s
       in as @ Expect (joined (world s) = [0]) # bs @ [Expect (joined (world s') = [0, 1])])),
     (''self_move_assignment_is_safe'',
      (let (as, s) = operations [([], Start 0, [], []), ([], MoveAssign 0 0, [], []), ([0], Join 0, [], [])] mt_empty
       in as @ [Expect (joined (world s) = [0])]))]"

lemma token_tests_pass: "list_all (\<lambda>(n, as). failureCount as = 0) (token_tests @ managed_thread_tests)"
  by (simp add: token_tests_def waitFor_def managed_thread_tests_def new_token_def shutdownRequested_def mt_empty_def mt_defs)

section \<open>Heartbeats and the watchdog\<close>

definition seconds :: "int \<Rightarrow> duration" where "seconds n = of_ms (1000 * n)"

definition heartbeat_tests :: "(string \<times> assertion list) list" where
  "heartbeat_tests =
    [(''initial_state_is_waiting_for_input'', [Expect (hb_state new_heartbeat = WaitingForInput)]),
     (''mark_running_publishes_state_and_timestamp'',
      (let hb = markRunning (manual_now (ManualClock (seconds 5))) new_heartbeat
       in [Expect (hb_state hb = Running), Expect (hb_timestamp hb = seconds 5)])),
     (''mark_waiting_resets_state_but_keeps_timestamp'',
      (let hb = markWaiting (markRunning (seconds 2) new_heartbeat)
       in [Expect (hb_state hb = WaitingForInput), Expect (hb_timestamp hb = seconds 2)])),
     (''registry_register_returns_stable_reference'',
      (let (first, reg) = registerHeartbeat ''first'' [];
           (_, reg') = register_all (replicate 64 ''filler'') (beat first (markRunning (seconds 1)) reg)
       in [Expect (hb_state (snd (reg' ! first)) = Running), Expect (registry_size reg' = 65)])),
     (''registry_for_each_visits_all_in_registration_order'',
      (let (_, reg) = register_all [''a'', ''b'', ''c''] [];
           (order, visited) = forEach (\<lambda>name _ (order, visited). (order @ name, Suc visited)) reg ([], 0)
       in [Expect (visited = 3), Expect (order = ''abc'')]))]"

definition makeWatchdogConfig :: "bool \<Rightarrow> config" where
  "makeWatchdogConfig escalate =
     default_config\<lparr>realtime := (realtime default_config)\<lparr>rt_enabled := False, lockMemory := False\<rparr>,
       watchdog := \<lparr>scanInterval = 1, livenessTimeout = 100, escalateToShutdown = escalate\<rparr>\<rparr>"

definition watchdog_state :: "registry \<Rightarrow> unit shared" where
  "watchdog_state reg =
     \<lparr>inputQueue = (case ThreadSafeQueue 1 Block of Inr q \<Rightarrow> q), outputQueue = (case ThreadSafeQueue 64 DropOldest of Inr q \<Rightarrow> q),
      shutdownToken = new_token, sh_metrics = new_metrics, heartbeatRegistry = reg, sinks = [], cerr = []\<rparr>"

text \<open>The clock after it was advanced past the timeout, and scans one after the other.\<close>

definition stale_now :: time_point where
  "stale_now = manual_now (advance (of_ms 150) (ManualClock 0))"

fun scans :: "nat \<Rightarrow> config \<Rightarrow> unit shared \<Rightarrow> unit shared outcome" where
  "scans 0 cfg s = Returns s"
| "scans (Suc n) cfg s = (case scanOnce cfg stale_now s of Waits \<Rightarrow> Waits | Returns s' \<Rightarrow> scans n cfg s')"

text \<open>Whether \<^verbatim>\<open>std::string::find\<close> finds a text in a message.\<close>

fun found_in :: "string \<Rightarrow> string \<Rightarrow> bool" where
  "found_in xs [] \<longleftrightarrow> xs = []"
| "found_in xs (y # ys) \<longleftrightarrow> take (length xs) (y # ys) = xs \<or> found_in xs ys"

text \<open>What a test expects of the state its scans leave.\<close>

definition after_scans :: "nat \<Rightarrow> bool \<Rightarrow> registry \<Rightarrow> (unit shared \<Rightarrow> assertion list) \<Rightarrow> assertion list" where
  "after_scans n escalate reg expected =
     (case scans n (makeWatchdogConfig escalate) (watchdog_state reg) of Waits \<Rightarrow> [Assert False] | Returns s \<Rightarrow> expected s)"

definition mixed_registry :: registry where
  "mixed_registry =
     (let (ids, reg) = register_all [''waiting'', ''fresh'', ''stalled''] [];
          reg = beat (ids ! 0) markWaiting (beat (ids ! 0) (markRunning 0) reg);
          reg = beat (ids ! 2) (markRunning 0) reg
      in beat (ids ! 1) (markRunning stale_now) reg)"

definition worker_registry :: registry where
  "worker_registry = (let (i, reg) = registerHeartbeat ''worker'' [] in beat i (markRunning 0) reg)"

definition watchdog_tests :: "(string \<times> assertion list) list" where
  "watchdog_tests =
    [(''flags_running_heartbeat_older_than_timeout'',
      after_scans 1 False worker_registry (\<lambda>s.
        (case tryPop (outputQueue s) of
           (None, _) \<Rightarrow> [Assert False]
         | (Some r, _) \<Rightarrow> [Expect (lr_source r = Watchdog), Expect (lr_level r = Error), Expect (found_in ''worker'' (lr_message r))])
        @ [Expect (1 \<le> m_watchdogStalls (sh_metrics s)), Expect (\<not> shutdownRequested (shutdownToken s))])),
     (''waiting_and_fresh_heartbeats_are_never_flagged'',
      after_scans 5 False mixed_registry (\<lambda>s.
        Assert (size_tsq (outputQueue s) = 5)
        # concat (map (\<lambda>r. [Expect (found_in ''stalled'' (lr_message r)), Expect (\<not> found_in ''waiting'' (lr_message r)),
            Expect (\<not> found_in ''fresh'' (lr_message r))]) (q_queue (outputQueue s))))),
     (''escalates_to_shutdown_when_configured'',
      after_scans 1 True worker_registry (\<lambda>s.
        [Expect (shutdownRequested (shutdownToken s)), Expect (1 \<le> m_watchdogStalls (sh_metrics s))]))]"

lemma heartbeat_tests_pass: "list_all (\<lambda>(n, as). failureCount as = 0) heartbeat_tests"
  by (simp add: heartbeat_tests_def new_heartbeat_def markRunning_def markWaiting_def registerHeartbeat_def beat_def
      register_all_eq registry_size_def forEach_def seconds_def of_ms_def ns_per_ms_def ManualClock_def manual_now_def
      toNanos_def sint_of_int64 int64_range_def)

lemma stale_now_value [simp]: "stale_now = 150000000"
  using manual_clock_reads_sum [of 0 "[of_ms 150]"]
  by (simp add: stale_now_def of_ms_def ns_per_ms_def int64_range_def)

lemma stall_message_value: "stall_message name 150000000 = ''stalled worker '' @ [CHR 0x27] @ name @ [CHR 0x27] @ '' Running for 150ms''"
proof -
  have "string_of_nat 150 = ''150''" by code_simp
  then show ?thesis by (simp add: stall_message_def to_ms_def tdiv_def ns_per_ms_def string_of_int_def)
qed

lemmas scan_defs = scanOnce_def scan_visitor_def reportStall_def stall_record_def message_record_def stall_message_value
  forEach_def makeWatchdogConfig_def default_config_def timeout_of_def of_ms_def ns_per_ms_def on_metrics_def metrics_simps
  request_shutdown_def

lemma worker_scan:
  "after_scans (Suc 0) escalate worker_registry expected = expected ((watchdog_state worker_registry)
     \<lparr>outputQueue := (outputQueue (watchdog_state worker_registry))
        \<lparr>q_queue := [stall_record ''worker'' 150000000 150000000]\<rparr>,
      sh_metrics := recordWatchdogStall new_metrics,
      shutdownToken := (if escalate then requestShutdown new_token else new_token)\<rparr>)"
  by (simp add: after_scans_def scan_defs watchdog_state_def worker_registry_def ThreadSafeQueue_def registerHeartbeat_def beat_def
      new_heartbeat_def markRunning_def push_def enqueueLocked_def full_def Let_def)

lemma mixed_registry_value:
  "mixed_registry = [(''waiting'', \<lparr>hb_timestamp = 0, hb_state = WaitingForInput\<rparr>),
     (''fresh'', \<lparr>hb_timestamp = 150000000, hb_state = Running\<rparr>), (''stalled'', \<lparr>hb_timestamp = 0, hb_state = Running\<rparr>)]"
  by (simp add: mixed_registry_def register_all_eq beat_def new_heartbeat_def markRunning_def markWaiting_def)

lemma watchdog_tests_pass: "list_all (\<lambda>(n, as). failureCount as = 0) watchdog_tests"
proof -
  have "failureCount (snd (watchdog_tests ! 0)) = 0" "failureCount (snd (watchdog_tests ! 2)) = 0"
    by (simp_all add: watchdog_tests_def worker_scan watchdog_state_def ThreadSafeQueue_def tryPop_def
        popLockedAndNotify_def stall_record_def message_record_def stall_message_value metrics_simps new_metrics_def)
  moreover have "failureCount (snd (watchdog_tests ! 1)) = 0"
    by (simp add: watchdog_tests_def after_scans_def mixed_registry_value scan_defs watchdog_state_def ThreadSafeQueue_def
        size_tsq_def push_def enqueueLocked_def full_def Let_def eval_nat_numeral)
  ultimately show ?thesis by (simp add: watchdog_tests_def)
qed

section \<open>All of them\<close>

definition test_suite :: "string \<Rightarrow> (string \<times> assertion list) list \<Rightarrow> registered_test list" where
  "test_suite s tests = map (\<lambda>(n, as). \<lparr>t_suite = s, t_name = n, t_function = as\<rparr>) tests"

definition unit_tests :: "registered_test list" where
  "unit_tests = test_suite ''queue'' queue_tests @ test_suite ''synchronization'' synchronization_tests
     @ test_suite ''shutdown_token'' token_tests @ test_suite ''managed_thread'' managed_thread_tests
     @ test_suite ''heartbeat'' heartbeat_tests @ test_suite ''watchdog'' watchdog_tests"

lemma unit_tests_pass: "test_main suiteFilter unit_tests = 0"
proof -
  have "\<forall>t \<in> set unit_tests. failureCount (t_function t) = 0"
    using queue_tests_pass token_tests_pass heartbeat_tests_pass watchdog_tests_pass
    by (auto simp: unit_tests_def test_suite_def list_all_iff)
  then show ?thesis by (simp add: test_main_succeeds failureCount_zero)
qed

end
