(* ===== verification/Spec2Isabelle.thy ===== *)
theory Spec2Isabelle
  imports Queue_Sections Radar_Clock Thread_Lifecycle Log_Liveness Application_Order Application_Metrics
    Application_Heartbeats Application_Accuracy Seeded_Run Radar_Timing Time_Width Solo_Threads Log_Streams
    Application_Wiring Unit_Tests
begin

text \<open>
  \<^bold>\<open>RadarRT-DSP, a verification library.\<close>

  The program (C++17 under \<^verbatim>\<open>src/include/radar\<close>, \<^verbatim>\<open>src/src\<close> and \<^verbatim>\<open>src/app\<close>) is a soft-realtime radar
  pipeline. A producer thread samples signals on a fixed period and pushes them into a bounded
  input queue; a pool of workers filters, transforms and examines them and pushes log records into
  a bounded output queue; a logger thread formats the records and writes them to its sinks; a
  watchdog thread scans the heartbeats of the others. The main thread waits for SIGINT or SIGTERM
  and then shuts everything down in the order of the data flow. The subsystems share, by
  reference, the two queues, a shutdown token, the metrics, the heartbeat registry and the
  configuration.

  \<^bold>\<open>How the theories correspond to the code.\<close>

  \<^item> \<open>Radar_Prelude\<close>: types (time in nanoseconds as integers, counters as 64-bit words), truncating
    division, decimal printing, counting lemmas, and the locale \<open>invariant_system\<close> of transition
    systems with an invariant, which every state machine below interprets.
  \<^item> \<open>Thread_Safe_Queue\<close> (\<^verbatim>\<open>thread_safe_queue.hpp\<close>): the queue as a record, one function per member
    function, executed under the lock; a call that has to wait returns \<open>Waits\<close>. Histories of calls
    (\<open>run_ops\<close>) with their results: what was stored is what was taken out followed by what is
    buffered, drops are counted, Block never drops, DropOldest keeps the newest, a closed queue
    drains. The locale \<open>closable_source\<close> is what the consumers rely on; the queue interprets it.
  \<^item> \<open>Queue_Concurrency\<close>: the same queue with its mutex, its two condition variables, spurious
    wake-ups and the notifications after unlocking, a critical section being one step: no lost
    wake-up, and the calls settle. \<open>Queue_Sections\<close>: the queue with its member functions taken apart
    into statements, each of which reads or writes the shared fields in a step of its own, between
    the acquisition and the release of the mutex. Every interleaving of these statements is a
    sequential history of whole calls in lock order, by the locale \<open>forward_simulation\<close>. This
    justifies treating a queue call as one step everywhere else.
  \<^item> \<open>Shutdown_Token\<close> (\<^verbatim>\<open>shutdown_token.hpp/.cpp\<close>): the flag and the wakeable sleep, with the mutex
    held between the test and the sleep. \<open>Managed_Thread\<close> (\<^verbatim>\<open>managed_thread.hpp/.cpp\<close>): the joining
    owner over a model of \<^verbatim>\<open>std::thread\<close>. \<open>Pi_Mutex\<close> (\<^verbatim>\<open>pi_mutex.cpp\<close>): the priority-inheritance
    mutex over the results of the \<^verbatim>\<open>pthread\<close> calls.
  \<^item> \<open>Radar_Config\<close>, \<open>Radar_Clock\<close>, \<open>Radar_Exceptions\<close>, \<open>Radar_Metrics\<close>, \<open>Data_Model\<close>: the headers of
    the same names, with the exception hierarchy, the counters and gauges, and the value types.
  \<^item> \<open>Heartbeats\<close> (\<^verbatim>\<open>heartbeat.hpp\<close>, \<^verbatim>\<open>heartbeat_registry.hpp/.cpp\<close>): the two atomics with their
    modification orders and release/acquire views, so that the claim of the source on the order of
    the watchdog's loads is a theorem.
  \<^item> \<open>Realtime_Manager\<close> (\<^verbatim>\<open>realtime_manager.cpp\<close>, \<^verbatim>\<open>diagnostics.cpp\<close>): both realtime stages over the
    results of the system calls; the prefault loops with wrapping 64-bit offsets, proved to end.
  \<^item> \<open>Signal_Handler\<close> (\<^verbatim>\<open>signal_handler.cpp\<close>): arming, the \<^verbatim>\<open>ppoll\<close> timeout, the wait loop over a list
    of answers of the kernel (one per turn; a list that ends leaves the wait running, \<open>None\<close>).
  \<^item> \<open>Dsp_Pipeline\<close> (\<^verbatim>\<open>noise_filter.hpp\<close>, \<^verbatim>\<open>fft.cpp\<close>, \<^verbatim>\<open>target_detection.hpp\<close>, \<^verbatim>\<open>signal_processor.hpp\<close>)
    over a record of float operations, and \<open>Fft_Correctness\<close>: with exact real arithmetic the
    in-place radix-2 loop is the discrete Fourier transform for every power-of-two length.
  \<^item> \<open>Shared_State\<close>: the shared members of \<^verbatim>\<open>Application\<close>, the sinks, the exception boundary every
    thread has (report, count and request shutdown as three interleaved steps), the labels of steps, and the locale \<open>pipeline_thread\<close>: the contract of a subsystem
    thread towards the rest. \<open>Radar_Producer\<close>, \<open>Thread_Pool\<close>, \<open>Radar_Logger\<close>, \<open>Watchdog_Monitor\<close>
    describe the threads of \<^verbatim>\<open>radar_producer.cpp\<close>, \<^verbatim>\<open>thread_pool.cpp\<close>, \<^verbatim>\<open>logger.cpp\<close> and
    \<^verbatim>\<open>watchdog.cpp\<close>: a program counter and a step relation with one step per access to a shared
    object, exceptions included, and interpret the contract. They also hold each component's own
    properties: deadlines, complete draining, unambiguous log lines, exact scans.
  \<^item> \<open>Radar_Application\<close> (\<^verbatim>\<open>application.cpp\<close>, \<^verbatim>\<open>main.cpp\<close>): construction, startup with rollback, the
    main wait, the ordered shutdown, the summary, and \<open>app_step\<close>, the interleaving of all threads.
    \<open>Application_Phases\<close>: what each phase of the main thread guarantees. \<open>Application_Drain\<close>: at the
    end of a normal run no signal and no record is lost. \<open>Application_Shutdown\<close>: the shutdown ends
    and does not deadlock, by a measure of the work left. \<open>Application_Run\<close>: an executable scheduler
    whose scripts are runs of the model; the witnesses use it.
    \<open>Application_Report\<close>: every reachable state is well-typed, and the printed summary tells the run.
    \<open>Application_Metrics\<close>: how far the counters and gauges can be from the facts at any moment, and that
    the producer's deadlines do not drift. \<open>Application_Heartbeats\<close>: what the watchdog sees of a thread,
    by what the thread is doing. \<open>Application_Accuracy\<close>: with the producer's random source and
    single-precision arithmetic, what the log says is close to what exact arithmetic says.
    \<open>Application_Exceptions\<close>: every exception in a thread is counted and ends the run, whatever is
    interleaved with the three steps of its handler.
  \<^item> \<open>Fair_Runs\<close>, \<open>Application_Fairness\<close>: liveness in normal operation. The locales \<open>infinite_run\<close> and
    \<open>weakly_fair_run\<close> are runs of a transition system and of a scheduler that does not starve one of its
    agents; in a run without exceptions that is fair to the workers every accepted signal is
    processed. Fairness is an assumption on the scheduler of the operating system and a hypothesis of
    the theorem; runs that satisfy it are given. \<open>Log_Liveness\<close>: the same for the logger thread; every
    accepted record reaches the sinks or is evicted and counted.
  \<^item> \<open>Application_Order\<close>: with one worker results and records keep the order of the signals.
  \<^item> \<open>Radar_Timing\<close>: how late the watchdog reports a stall and the main thread notices a shutdown
    request, in terms of the configured intervals and of a bound on the delays of scheduling.
  \<^item> \<open>Time_Width\<close>: the computations on time points and durations again, with checked signed 64-bit
    operations; within stated bounds they do not overflow and equal those on integers.
  \<^item> \<open>Solo_Threads\<close>: the two descriptions of the watchdog and of the logger, as functions and as step
    relations, agree for a thread that is left alone.
  \<^item> \<open>Log_Streams\<close> (\<^verbatim>\<open>log_sink.hpp\<close>, \<^verbatim>\<open>console_sink.cpp\<close>, \<^verbatim>\<open>file_sink.cpp\<close>): the sinks over output streams
    that may fail; the locale \<open>log_sink\<close> is the interface \<^verbatim>\<open>ILogSink\<close>.
  \<^item> \<open>Pipeline_Spec\<close>: the promise of the application without its threads, a pipeline with two bounded
    buffers and a bag of signals being processed, and the proof that every step of the program,
    exceptions included, is a step of it. What is shown of the specification (nothing invented,
    duplicated or reordered) then holds of the program. The locale \<open>simulation\<close> carries the argument.
  \<^item> \<open>Thread_Lifecycle\<close> (\<^verbatim>\<open>start\<close> and \<^verbatim>\<open>join\<close> of the subsystems, \<^verbatim>\<open>startThreads\<close>, the joins of
    \<^verbatim>\<open>shutdown\<close>, the destruction of the members): on the thread objects of \<open>Managed_Thread\<close>, a start
    that fails half way leaks no thread.
  \<^item> \<open>Application_Wiring\<close> (the constructors of all subsystems, \<^verbatim>\<open>application.hpp\<close>): the object graph, the
    references every subsystem stores, construction in the order of declaration and destruction in
    reverse, with exceptions in between: the failures of the two mutexes, of the capacities, of the
    random device, of the log file and of the signal descriptor. No reference ever dangles, nothing
    is leaked, and the construction fails with the first failure in the order of the source.
  \<^item> \<open>Float_Rounding\<close>, \<open>Float_Pipeline\<close>, \<open>Binary32\<close>: the signal processing with rounded arithmetic. The
    locales \<open>rounding\<close> and \<open>float_library\<close> are what the stages rely on (each operation is the exact
    one up to a relative and an absolute error); the errors are carried through the filter, the
    butterflies of all eight stages, the magnitudes and the detection; single precision with
    rounding to nearest even interprets the locales.
  \<^item> \<open>Random_Generator\<close> (\<^verbatim>\<open>random_generator.cpp\<close>): the engine \<^verbatim>\<open>std::mt19937\<close> on 32-bit words and the
    draws; the signals the producer generates are within the bounds under which the processing is
    accurate. \<open>Seeded_Run\<close>: the program together with the engine its producer owns; the sampled blocks
    depend on the seed alone, whatever the threads do, and every draw is accounted for.

  \<^item> \<open>Unit_Tests\<close> (\<^verbatim>\<open>tests/\<close>): the test harness, and the unit tests carried over to the model, which
    passes them: a check of the definitions against what the authors expect of the components.

  This theory adds runs that show where the program does less than its documents say: the drop gauge
  of the summary can undercount, a signal sampled while the queue is being closed is refused without
  being counted, and a producer held back by a full queue can be reported as stalled. What always
  holds of these three is in \<open>Application_Metrics\<close> (the gauge never overstates), \<open>Seeded_Run\<close> (at most one
  sampled signal is refused) and \<open>Application_Heartbeats\<close> (a thread that waits for its input is not
  reported). A last run shows two workers overtaking each other.

  \<^bold>\<open>Parameters.\<close> Code that is not in the repository is an argument: the results of system and
  \<^verbatim>\<open>pthread\<close> calls, which thread creations succeed, the text of an error number, the distributions
  of the random engine, the float operations, the mathematical library and the printing of floats,
  the clock readings. Where a theorem relies on their documented behaviour, this is a named
  hypothesis (\<open>posix_locking\<close>), an explicit hypothesis (the accuracy of \<^verbatim>\<open>cosf\<close>, \<^verbatim>\<open>sinf\<close> and \<^verbatim>\<open>hypotf\<close>, the
  range of the distribution) with an instance that satisfies it, or an explicit instance (\<open>exact\<close>).

  \<^bold>\<open>Bounds and fuel.\<close> The consumer loop \<open>consume\<close> counts its pops; one more than the number of buffered
  items is shown to be enough. Everything else is total, a step relation, or (\<open>touch_loop\<close>) a
  partial function whose result is shown to exist. The accuracy bounds of the processing hold for
  samples between 2^-90 and 2^80 in magnitude bound; the program's samples are within 1. The time
  arithmetic is shown not to overflow for 2^62 nanoseconds, 146 years, after the clock's epoch.

  \<^bold>\<open>Not modelled.\<close> Infinities and not-a-numbers, as values of the rounded arithmetic (the bounds keep
  every intermediate result far below overflow); contraction of a product and a sum into one
  rounding, which a compiler may be allowed to do; the effect of scheduling priorities and locked
  memory; a failing allocation during the construction; a failing \<^verbatim>\<open>pthread_mutex_lock\<close> inside a queue
  call other than as an exception of the thread that made the call. In the interleaving time-outs of waits are nondeterministic rather than tied to a clock
  (\<open>Radar_Timing\<close> treats the two polling loops by themselves), and sinks do not fail (\<open>Log_Streams\<close> takes
  what they were given to streams that do). Declarations that only forbid copying, and
  compile-time checks other than that of the sample count, have no behaviour to model. Of the tests,
  the one whose point is the interleaving of several producers and consumers is not carried over. The
  histories in the application's state are only there for the theorems.
\<close>

section \<open>Where the program does less than its documents say\<close>

text \<open>Two workers and an output queue for one record.\<close>

definition two_workers :: "(unit, nat) params" where
  "two_workers = demo\<lparr>p_cfg := (p_cfg demo)\<lparr>pool := \<lparr>workerCount = 2\<rparr>,
     queues := \<lparr>inputCapacity = 256, outputCapacity = 1\<rparr>\<rparr>\<rparr>"

definition two_start :: "nat app" where
  "two_start = demo_start\<lparr>sh := (sh demo_start)\<lparr>
      outputQueue := \<lparr>q_queue = [], q_capacity = 1, q_policy = DropOldest, q_droppedCount = 0, q_closed = False\<rparr>,
      heartbeatRegistry := [(''producer'', new_heartbeat), (worker_name 0, new_heartbeat),
        (worker_name 1, new_heartbeat), (''logger'', new_heartbeat)]\<rparr>,
    worker_pcs := [None, None]\<rparr>"

lemma two_init: "app_init two_workers two_start"
  unfolding app_init_def
  by (rule exI [of _ willing])
    (simp add: Application_def willing_def two_workers_def two_start_def demo_def demo_start_def default_config_def
      ThreadSafeQueue_def registerHeartbeat_def ThreadPool_eq buildSinks_def SignalHandler_def Let_def
      upt_conv_Cons numeral_2_eq_2)

lemma two_params [simp]:
  "rt_enabled (realtime (p_cfg two_workers)) = False" "lockMemory (realtime (p_cfg two_workers)) = False"
  "period_of (p_cfg two_workers) = 1000000" "logger_hb two_workers = 3"
  by (simp_all add: two_workers_def demo_def default_config_def period_of_def of_us_def ns_per_us_def
      logger_hb_def)

lemma two_configure [simp]: "configure_thread (p_cfg two_workers) sys built prio role s = s"
  by (simp add: configure_thread_def configureCurrentThread_def reportRealtimeDegradation_def
      skipped_def ok_def)

lemma two_lock [simp]: "lockProcessMemory (p_cfg two_workers) sys = Some (skipped, [], [])"
  by (simp add: lockProcessMemory_def)

text \<open>
  Worker 0 reads the drop counter of the output queue, worker 1 evicts a record and stores the new
  count, then worker 0 stores the old one.
\<close>

definition race_script :: "move list" where
  "race_script = replicate 6 (MoveMain sigint) @ replicate 23 (MoveProducer 0)
     @ replicate 13 (MoveWorker 0 0) @ replicate 14 (MoveWorker 1 0) @ [MoveWorker 0 0]
     @ replicate 8 (MoveLogger 0)
     @ replicate 4 (MoveMain sigint) @ [MoveProducer 0, MoveMain sigint]
     @ replicate 2 (MoveWorker 0 0) @ replicate 2 (MoveWorker 1 0) @ replicate 4 (MoveMain sigint)
     @ replicate 4 (MoveLogger 0) @ [MoveMain sigint] @ replicate 2 (MoveWatchdog 0)
     @ replicate 2 (MoveMain sigint)"

lemma race_run:
  "\<exists>a. run_script two_workers () race_script two_start = Some a \<and> run_complete a \<and> \<not> h_threw a
     \<and> droppedCount (outputQueue (sh a)) = 1 \<and> m_logDrops (sh_metrics (sh a)) = 0"
  by (simp add: race_script_def two_start_def demo_start_def run_complete_def metrics_simps new_metrics_def
      demo_wait demo_exec eval_nat_numeral del: waitForShutdown.simps)

text \<open>The drop gauge can undercount. There is a complete run of the program, without any exception,
  in which the output queue has dropped a record but the log-drop gauge printed in the summary is
  zero: the gauge is a read of the queue's counter followed by a store, and two workers can
  interleave there.\<close>

lemma log_drop_gauge_can_undercount:
  "\<exists>a. reaches (app_init two_workers) (app_step two_workers) a \<and> run_complete a \<and> \<not> h_threw a
     \<and> droppedCount (outputQueue (sh a)) = 1 \<and> m_logDrops (sh_metrics (sh a)) = 0"
  using race_run run_script_reaches reaches_init [of "app_init two_workers", OF two_init] by metis

text \<open>The producer has sampled, and is about to push, when the input queue is closed.\<close>

definition refused_script :: "move list" where
  "refused_script = replicate 5 (MoveMain sigint) @ replicate 4 (MoveProducer 0)
     @ replicate 4 (MoveMain sigint) @ [MoveProducer 0, MoveMain sigint]
     @ replicate 3 (MoveWorker 0 0) @ replicate 3 (MoveMain sigint)
     @ replicate 5 (MoveLogger 0) @ [MoveMain sigint] @ replicate 2 (MoveWatchdog 0)
     @ replicate 2 (MoveMain sigint)"

lemma refused_run:
  "\<exists>a. run_script demo () refused_script demo_start = Some a \<and> run_complete a \<and> \<not> h_threw a
     \<and> (Push demo_signal, Stored False) \<in> set (h_in a) \<and> accepted (h_in a) = []
     \<and> droppedCount (inputQueue (sh a)) = 0 \<and> m_signalsProduced (sh_metrics (sh a)) = 0"
  by (simp add: refused_script_def demo_start_def run_complete_def metrics_simps new_metrics_def
      demo_wait demo_exec eval_nat_numeral del: waitForShutdown.simps)

text \<open>A signal sampled during shutdown can be refused. There is a complete run, without any exception,
  in which the producer sampled a signal that the closing input queue refused: it was neither
  processed nor counted as produced or as dropped.\<close>

lemma signal_refused_at_shutdown:
  "\<exists>a. reaches (app_init demo) (app_step demo) a \<and> run_complete a \<and> \<not> h_threw a
     \<and> (Push demo_signal, Stored False) \<in> set (h_in a) \<and> accepted (h_in a) = []
     \<and> droppedCount (inputQueue (sh a)) = 0 \<and> m_signalsProduced (sh_metrics (sh a)) = 0"
  using refused_run run_script_reaches reaches_init [of "app_init demo", OF demo_init] by metis

text \<open>
  An input queue for one signal and a worker that does not get to run. The producer samples a second
  signal, marks itself running and waits inside the push; a second later the watchdog scans.
\<close>

definition narrow :: "(unit, nat) params" where
  "narrow = demo\<lparr>p_cfg := (p_cfg demo)\<lparr>queues := \<lparr>inputCapacity = 1, outputCapacity = 1024\<rparr>\<rparr>\<rparr>"

definition narrow_start :: "nat app" where
  "narrow_start = demo_start\<lparr>sh := (sh demo_start)\<lparr>
      inputQueue := \<lparr>q_queue = [], q_capacity = 1, q_policy = Block, q_droppedCount = 0, q_closed = False\<rparr>\<rparr>\<rparr>"

lemma narrow_init: "app_init narrow narrow_start"
  unfolding app_init_def
  by (rule exI [of _ willing])
    (simp add: Application_def willing_def narrow_def narrow_start_def demo_def demo_start_def default_config_def
      ThreadSafeQueue_def registerHeartbeat_def ThreadPool_eq buildSinks_def SignalHandler_def Let_def)

lemma narrow_params [simp]:
  "rt_enabled (realtime (p_cfg narrow)) = False" "lockMemory (realtime (p_cfg narrow)) = False"
  "period_of (p_cfg narrow) = 1000000" "logger_hb narrow = 2" "timeout_of (p_cfg narrow) = 500000000"
  "escalateToShutdown (watchdog (p_cfg narrow)) = False"
  by (simp_all add: narrow_def demo_def default_config_def period_of_def of_us_def ns_per_us_def
      timeout_of_def of_ms_def ns_per_ms_def logger_hb_def)

lemma narrow_configure [simp]: "configure_thread (p_cfg narrow) sys built prio role s = s"
  by (simp add: configure_thread_def configureCurrentThread_def reportRealtimeDegradation_def
      skipped_def ok_def)

lemma narrow_lock [simp]: "lockProcessMemory (p_cfg narrow) sys = Some (skipped, [], [])"
  by (simp add: lockProcessMemory_def)

definition stall_script :: "move list" where
  "stall_script = replicate 5 (MoveMain sigint) @ replicate 15 (MoveProducer 0)
     @ replicate 10 (MoveWatchdog 1000000000)"

lemma stall_run:
  "\<exists>a nd sig. run_script narrow () stall_script narrow_start = Some a \<and> \<not> h_threw a
     \<and> producer_pc a = Some (PPush nd sig) \<and> push sig (inputQueue (sh a)) = Waits
     \<and> watchdogStalls (sh_metrics (sh a)) = 1
     \<and> q_queue (outputQueue (sh a)) = [stall_record ''producer'' 1000000000 1000000000]"
  by (simp add: stall_script_def narrow_start_def demo_start_def metrics_simps new_metrics_def watchdogStalls_def
      demo_wait demo_exec eval_nat_numeral new_heartbeat_def markRunning_def markWaiting_def beat_def
      del: waitForShutdown.simps)

text \<open>Back-pressure can be reported as a stall. There is a run, without any exception, in which the producer
  waits inside the push on the full input queue, as the Block policy has it, and the watchdog counts
  it as stalled and logs it: unlike a consumer, the producer does not mark itself waiting before it
  blocks on a queue.\<close>

lemma blocked_producer_reported_stalled:
  "\<exists>a nd sig. reaches (app_init narrow) (app_step narrow) a \<and> \<not> h_threw a
     \<and> producer_pc a = Some (PPush nd sig) \<and> push sig (inputQueue (sh a)) = Waits
     \<and> watchdogStalls (sh_metrics (sh a)) = 1
     \<and> q_queue (outputQueue (sh a)) = [stall_record ''producer'' 1000000000 1000000000]"
  using stall_run run_script_reaches reaches_init [of "app_init narrow", OF narrow_init] by metis

text \<open>
  With two workers the later of two signals can be counted first: the order that one worker keeps
  (\<open>single_worker_keeps_order\<close>) is not kept by a pool.
\<close>

definition overtake_script :: "move list" where
  "overtake_script = replicate 6 (MoveMain sigint) @ replicate 13 (MoveProducer 0) @ replicate 3 (MoveProducer 5)
     @ replicate 3 (MoveWorker 0 0) @ replicate 8 (MoveWorker 1 0) @ replicate 5 (MoveWorker 0 0)"

lemma timestamps: "sig_timestamp (fst (generateSignal draw t e)) = t" "ps_timestamp (process A sig) = sig_timestamp sig"
  by (simp_all add: generateSignal_def process_def RadarSignal_def ProcessedSignal_def split: prod.splits)

lemma overtake_run:
  "\<exists>a. run_script two_workers () overtake_script two_start = Some a
     \<and> map sig_timestamp (accepted (h_in a)) = [0, 5] \<and> map ps_timestamp (h_results a) = [5, 0]"
  by (simp add: overtake_script_def two_start_def demo_start_def metrics_simps new_metrics_def timestamps
      demo_wait demo_exec eval_nat_numeral del: waitForShutdown.simps)

lemma workers_overtake:
  "\<exists>a. reaches (app_init two_workers) (app_step two_workers) a
     \<and> map sig_timestamp (accepted (h_in a)) = [0, 5] \<and> map ps_timestamp (h_results a) = [5, 0]"
  using overtake_run run_script_reaches reaches_init [of "app_init two_workers", OF two_init] by metis

end
